(* ===== verification/Prelude.thy ===== *)
theory Prelude
  imports Main "HOL-Library.Word" "HOL-Library.Signed_Division"
begin

text \<open>
  The vocabulary the components share: fixed-width integers as the C code has them,
  the way a kernel path can stop short (a \<open>panic\<close>, a lock it would spin on, a channel it
  would sleep on) as values of a sum type, the sequencing of fallible steps, the
  table-scanning \<open>for\<close> loops of the kernel, and generic lemmas on these and on
  function update.
\<close>

section \<open>Machine integers\<close>

type_synonym u8 = "8 word"
type_synonym u16 = "16 word"
type_synonym u32 = "32 word"
type_synonym u64 = "64 word"

text \<open>
  A C \<open>int\<close> is a 32-bit word read with \<^const>\<open>sint\<close>; comparisons between \<open>int\<close>s are
  the signed ones. Division truncates towards zero.
\<close>

type_synonym c_int = "32 word"

definition c_div :: "'a::len word \<Rightarrow> 'a word \<Rightarrow> 'a word" where
  "c_div a b = word_of_int (sint a sdiv sint b)"

named_theorems word_facts \<open>reading words as numbers\<close>

lemma unat_of_nat_lt [word_facts]: "n < 2 ^ LENGTH('a) \<Longrightarrow> unat (of_nat n :: 'a::len word) = n"
  by (simp add: unat_of_nat take_bit_nat_eq_self)

lemma unat_add_lt [word_facts]:
  "unat a + unat b < 2 ^ LENGTH('a) \<Longrightarrow> unat (a + b) = unat a + unat (b :: 'a::len word)"
  by (simp add: unat_add_lem)

lemma unat_add_of_nat [word_facts]:
  assumes "unat (a :: 'a::len word) + i < 2 ^ LENGTH('a)"
  shows "unat (a + of_nat i) = unat a + i"
proof -
  have "unat (of_nat i :: 'a word) = i" using assms by (intro unat_of_nat_lt) simp
  then show ?thesis using unat_add_lt [of a "of_nat i"] assms by simp
qed

lemma unat_ucast_up [word_facts]:
  assumes "LENGTH('b) \<le> LENGTH('a)"
  shows "unat (ucast (x :: 'b::len word) :: 'a::len word) = unat x"
proof -
  have "unat x < 2 ^ LENGTH('b)" by (rule unsigned_less)
  also have "\<dots> \<le> 2 ^ LENGTH('a)" using assms by simp
  finally show ?thesis by (simp add: unsigned_ucast_eq take_bit_nat_eq_self)
qed

lemma ucast_up_inj [word_facts]:
  assumes "LENGTH('b) \<le> LENGTH('a)"
  shows "(ucast (x :: 'b::len word) :: 'a::len word) = ucast y \<longleftrightarrow> x = y"
  using assms by (metis unat_ucast_up unsigned_word_eqI)

lemma sint_word_of_int [word_facts]:
  "- (2 ^ (LENGTH('a) - 1)) \<le> k \<Longrightarrow> k < 2 ^ (LENGTH('a) - 1) \<Longrightarrow> sint (word_of_int k :: 'a::len word) = k"
  by (simp add: sint_sbintrunc' signed_take_bit_int_eq_self)

lemma sint_add_small [word_facts]:
  "- (2 ^ (LENGTH('a) - 1)) \<le> sint a + sint b \<Longrightarrow> sint a + sint b < 2 ^ (LENGTH('a) - 1) \<Longrightarrow>
   sint (a + b) = sint a + sint (b :: 'a::len word)"
  by (simp add: sint_word_add signed_take_bit_int_eq_self)

lemma sint_mult_small [word_facts]:
  "- (2 ^ (LENGTH('a) - 1)) \<le> sint a * sint b \<Longrightarrow> sint a * sint b < 2 ^ (LENGTH('a) - 1) \<Longrightarrow>
   sint (a * b) = sint a * sint (b :: 'a::len word)"
  by (simp add: sint_word_mult signed_take_bit_int_eq_self)

lemma unat_minus_1 [word_facts]: "unat (- 1 :: 'a::len word) = 2 ^ LENGTH('a) - 1"
  by (simp add: unsigned_minus_1_eq_mask mask_eq_exp_minus_1)

named_theorems frame \<open>fields that an operation leaves alone\<close>
named_theorems loop_simps \<open>loops summarised as one update\<close>

section \<open>Paths that do not return a value\<close>

text \<open>
  A kernel path either returns, or stops in one of these ways. \<open>Panic\<close> is \<open>panic(msg)\<close>,
  which never returns. \<open>Spin\<close> is a spinlock that another CPU holds; \<open>Blocked\<close> is a
  \<open>sleep\<close> with nobody to wake the sleeper inside the modelled path; \<open>OutOfFuel\<close> is a
  loop that was not given enough rounds; \<open>OutOfBounds\<close> is an access outside an array, which
  C leaves undefined.
\<close>

datatype stop = Panic string | Spin string | Blocked string | OutOfFuel | OutOfBounds

fun bindE :: "'e + 'a \<Rightarrow> ('a \<Rightarrow> 'e + 'b) \<Rightarrow> 'e + 'b" where
  "bindE (Inl e) f = Inl e"
| "bindE (Inr x) f = f x"

lemma bindE_Inr_iff: "bindE m f = Inr y \<longleftrightarrow> (\<exists>x. m = Inr x \<and> f x = Inr y)"
  by (cases m) auto

lemma bindE_Inl_iff: "bindE m f = Inl e \<longleftrightarrow> m = Inl e \<or> (\<exists>x. m = Inr x \<and> f x = Inl e)"
  by (cases m) auto

lemma bindE_assoc: "bindE (bindE m f) g = bindE m (\<lambda>x. bindE (f x) g)"
  by (cases m) auto

lemma bindE_Inr [simp]: "bindE m Inr = m"
  by (cases m) auto

lemma bindE_cong [fundef_cong]:
  "m = m' \<Longrightarrow> (\<And>x. m' = Inr x \<Longrightarrow> f x = g x) \<Longrightarrow> bindE m f = bindE m' g"
  by (cases m') auto

definition guardE :: "bool \<Rightarrow> 'e \<Rightarrow> 'e + unit" where
  "guardE b e = (if b then Inr () else Inl e)"

lemma guardE_iff [simp]: "guardE b e = Inr u \<longleftrightarrow> b" "guardE b e = Inl e' \<longleftrightarrow> \<not> b \<and> e = e'"
  by (auto simp: guardE_def)

lemma guardE_simps [simp]: "guardE True e = Inr ()" "guardE False e = Inl e"
  by (simp_all add: guardE_def)

section \<open>Loops over a table\<close>

text \<open>
  \<open>foldE f xs s\<close> is a \<open>for\<close> loop that runs \<open>f\<close> for every element of \<open>xs\<close> in order;
  \<open>scanE f xs s\<close> is one whose body may leave the loop with a result (\<open>break\<close>,
  \<open>return\<close> or \<open>goto\<close>): the body yields \<open>(Some r, s')\<close> to leave it.
\<close>

fun foldE :: "('i \<Rightarrow> 's \<Rightarrow> 'e + 's) \<Rightarrow> 'i list \<Rightarrow> 's \<Rightarrow> 'e + 's" where
  "foldE f [] s = Inr s"
| "foldE f (x # xs) s = bindE (f x s) (foldE f xs)"

fun scanE :: "('i \<Rightarrow> 's \<Rightarrow> 'e + 'r option \<times> 's) \<Rightarrow> 'i list \<Rightarrow> 's \<Rightarrow> 'e + 'r option \<times> 's" where
  "scanE f [] s = Inr (None, s)"
| "scanE f (x # xs) s =
     bindE (f x s) (\<lambda>(r, s'). case r of None \<Rightarrow> scanE f xs s' | Some v \<Rightarrow> Inr (Some v, s'))"

lemma foldE_append: "foldE f (xs @ ys) s = bindE (foldE f xs s) (foldE f ys)"
  by (induction xs arbitrary: s) (auto simp: bindE_assoc intro: bindE_cong)

text \<open>A loop whose body always succeeds while an invariant holds is a plain \<^const>\<open>fold\<close>.\<close>

lemma foldE_pure:
  assumes "I s"
    and "\<And>x s. x \<in> set xs \<Longrightarrow> I s \<Longrightarrow> f x s = Inr (g x s)"
    and "\<And>x s. x \<in> set xs \<Longrightarrow> I s \<Longrightarrow> I (g x s)"
  shows "foldE f xs s = Inr (fold g xs s) \<and> I (fold g xs s)"
  using assms by (induction xs arbitrary: s) auto

lemma foldE_invariant:
  assumes "foldE f xs s = Inr s'" "I s"
    and "\<And>x s t. x \<in> set xs \<Longrightarrow> I s \<Longrightarrow> f x s = Inr t \<Longrightarrow> I t"
  shows "I s'"
  using assms
proof (induction xs arbitrary: s)
  case Nil
  then show ?case by simp
next
  case (Cons x xs)
  then obtain t where t: "f x s = Inr t" "foldE f xs t = Inr s'"
    by (auto simp: bindE_Inr_iff)
  have "I t" using Cons.prems t by auto
  then show ?case using Cons.IH [OF t(2)] Cons.prems(3) by auto
qed

lemma scanE_invariant:
  assumes "scanE f xs s = Inr (r, s')" "I s"
    and "\<And>x s r t. x \<in> set xs \<Longrightarrow> I s \<Longrightarrow> f x s = Inr (r, t) \<Longrightarrow> I t"
  shows "I s'"
  using assms
proof (induction xs arbitrary: s)
  case Nil
  then show ?case by simp
next
  case (Cons x xs)
  then obtain q t where t: "f x s = Inr (q, t)"
      "(case q of None \<Rightarrow> scanE f xs t | Some v \<Rightarrow> Inr (Some v, t)) = Inr (r, s')"
    by (auto simp: bindE_Inr_iff)
  have "I t" using Cons.prems t by auto
  then show ?case using Cons.IH [of t] Cons.prems(3) t(2) by (cases q) auto
qed

section \<open>Arrays as functions, and their pointwise update\<close>

lemma fold_pointwise [loop_simps]:
  "distinct xs \<Longrightarrow>
   fold (\<lambda>i g. g(i := h i (g i))) xs g = (\<lambda>i. if i \<in> set xs then h i (g i) else g i)"
proof (induction xs arbitrary: g)
  case Nil
  then show ?case by simp
next
  case (Cons x xs)
  then show ?case by (auto simp: fun_eq_iff)
qed

lemma find_upt_Some:
  "List.find P [0..<n] = Some i \<longleftrightarrow> i < n \<and> P i \<and> (\<forall>j < i. \<not> P j)"
  by (auto simp: find_Some_iff)

lemma find_upt_None: "List.find P [0..<n] = None \<longleftrightarrow> (\<forall>i < n. \<not> P i)"
  by (auto simp: find_None_iff)

end
