(* ===== verification/KString.thy ===== *)
theory KString
  imports Prelude
begin

text \<open>
  \<^verbatim>\<open>kernel/string.c\<close> over an explicit byte-addressed memory: \<open>memset\<close>, \<open>memcmp\<close>,
  \<open>memmove\<close>, \<open>memcpy\<close>, \<open>strncmp\<close>, \<open>strncpy\<close>, \<open>safestrcpy\<close>, \<open>strlen\<close>. The routines that
  write return the new memory (the C functions return their first argument). The lemmas
  give each routine's effect as one update of the memory, aliasing between source and
  destination included.
\<close>

section \<open>Memory\<close>

type_synonym mem = "u64 \<Rightarrow> u8"

definition bytes :: "mem \<Rightarrow> u64 \<Rightarrow> nat \<Rightarrow> u8 list" where
  "bytes m a n = map (\<lambda>i. m (a + of_nat i)) [0..<n]"

definition in_range :: "u64 \<Rightarrow> nat \<Rightarrow> u64 \<Rightarrow> bool" where
  "in_range a n x \<longleftrightarrow> unat (x - a) < n"

text \<open>A NUL-terminated string \<open>xs\<close> lies at address \<open>s\<close>.\<close>

definition cstr :: "mem \<Rightarrow> u64 \<Rightarrow> u8 list \<Rightarrow> bool" where
  "cstr m s xs \<longleftrightarrow> bytes m s (length xs) = xs \<and> 0 \<notin> set xs \<and> m (s + of_nat (length xs)) = 0"

section \<open>The routines\<close>

function memset_loop :: "mem \<Rightarrow> u64 \<Rightarrow> u8 \<Rightarrow> nat \<Rightarrow> nat \<Rightarrow> mem" where
  "memset_loop m cdst c n i =
     (if i < n then memset_loop (m(cdst + of_nat i := c)) cdst c n (Suc i) else m)"
  by pat_completeness auto
termination
  by (relation "measure (\<lambda>(m, cdst, c, n, i). n - i)") auto

declare memset_loop.simps [simp del]

definition memset :: "u64 \<Rightarrow> c_int \<Rightarrow> u32 \<Rightarrow> mem \<Rightarrow> mem" where
  "memset dst c n m = memset_loop m dst (ucast c) (unat n) 0"

fun memcmp_loop :: "mem \<Rightarrow> u64 \<Rightarrow> u64 \<Rightarrow> nat \<Rightarrow> c_int" where
  "memcmp_loop m s1 s2 0 = 0"
| "memcmp_loop m s1 s2 (Suc n) =
     (if m s1 \<noteq> m s2 then ucast (m s1) - ucast (m s2)
      else memcmp_loop m (s1 + 1) (s2 + 1) n)"

definition memcmp :: "u64 \<Rightarrow> u64 \<Rightarrow> u32 \<Rightarrow> mem \<Rightarrow> c_int" where
  "memcmp v1 v2 n m = memcmp_loop m v1 v2 (unat n)"

fun copy_up :: "mem \<Rightarrow> u64 \<Rightarrow> u64 \<Rightarrow> nat \<Rightarrow> mem" where
  "copy_up m d s 0 = m"
| "copy_up m d s (Suc n) = copy_up (m(d := m s)) (d + 1) (s + 1) n"

fun copy_down :: "mem \<Rightarrow> u64 \<Rightarrow> u64 \<Rightarrow> nat \<Rightarrow> mem" where
  "copy_down m d s 0 = m"
| "copy_down m d s (Suc n) = copy_down (m(d - 1 := m (s - 1))) (d - 1) (s - 1) n"

definition memmove :: "u64 \<Rightarrow> u64 \<Rightarrow> u32 \<Rightarrow> mem \<Rightarrow> mem" where
  "memmove dst src n m =
     (if src < dst \<and> dst < src + ucast n
      then copy_down m (dst + ucast n) (src + ucast n) (unat n)
      else copy_up m dst src (unat n))"

definition memcpy :: "u64 \<Rightarrow> u64 \<Rightarrow> u32 \<Rightarrow> mem \<Rightarrow> mem" where
  "memcpy dst src n m = memmove dst src n m"

fun strncmp_loop :: "mem \<Rightarrow> u64 \<Rightarrow> u64 \<Rightarrow> nat \<Rightarrow> c_int" where
  "strncmp_loop m p q 0 = 0"
| "strncmp_loop m p q (Suc n) =
     (if m p \<noteq> 0 \<and> m p = m q then strncmp_loop m (p + 1) (q + 1) n
      else ucast (m p) - ucast (m q))"

definition strncmp :: "u64 \<Rightarrow> u64 \<Rightarrow> u32 \<Rightarrow> mem \<Rightarrow> c_int" where
  "strncmp p q n m = strncmp_loop m p q (unat n)"

text \<open>
  The two loops of \<open>strncpy\<close>: copy up to and including the terminator, then pad with
  zeroes. \<open>n\<close> is an \<open>int\<close>; a negative one copies nothing.
\<close>

fun strncpy_pad :: "mem \<Rightarrow> u64 \<Rightarrow> nat \<Rightarrow> mem" where
  "strncpy_pad m s 0 = m"
| "strncpy_pad m s (Suc n) = strncpy_pad (m(s := 0)) (s + 1) n"

fun strncpy_loop :: "mem \<Rightarrow> u64 \<Rightarrow> u64 \<Rightarrow> nat \<Rightarrow> mem" where
  "strncpy_loop m s t 0 = m"
| "strncpy_loop m s t (Suc n) =
     (let ch = m t; m' = m(s := ch)
      in if ch \<noteq> 0 then strncpy_loop m' (s + 1) (t + 1) n else strncpy_pad m' (s + 1) n)"

definition strncpy :: "u64 \<Rightarrow> u64 \<Rightarrow> c_int \<Rightarrow> mem \<Rightarrow> mem" where
  "strncpy s t n m = strncpy_loop m s t (nat (sint n))"

text \<open>
  \<open>safestrcpy\<close>: the loop runs while \<open>--n > 0\<close>, so at most \<open>n - 1\<close> bytes are copied, and
  then \<open>*s = 0\<close>.
\<close>

fun safestrcpy_loop :: "mem \<Rightarrow> u64 \<Rightarrow> u64 \<Rightarrow> nat \<Rightarrow> mem" where
  "safestrcpy_loop m s t 0 = m(s := 0)"
| "safestrcpy_loop m s t (Suc k) =
     (let ch = m t; m' = m(s := ch)
      in if ch \<noteq> 0 then safestrcpy_loop m' (s + 1) (t + 1) k else m'(s + 1 := 0))"

definition safestrcpy :: "u64 \<Rightarrow> u64 \<Rightarrow> c_int \<Rightarrow> mem \<Rightarrow> mem" where
  "safestrcpy s t n m =
     (if sint n \<le> 0 then m else safestrcpy_loop m s t (nat (sint n) - 1))"

text \<open>\<open>strlen\<close> runs to the first NUL; without one it does not return.\<close>

partial_function (option) strlen_from :: "mem \<Rightarrow> u64 \<Rightarrow> nat \<Rightarrow> nat option" where
  "strlen_from m s n = (if m (s + of_nat n) = 0 then Some n else strlen_from m s (Suc n))"

definition strlen :: "u64 \<Rightarrow> mem \<Rightarrow> nat option" where
  "strlen s m = strlen_from m s 0"

section \<open>Addresses and ranges\<close>

lemma length_bytes [simp]: "length (bytes m a n) = n"
  by (simp add: bytes_def)

lemma nth_bytes [simp]: "i < n \<Longrightarrow> bytes m a n ! i = m (a + of_nat i)"
  by (simp add: bytes_def)

lemma bytes_eq_iff: "bytes m a n = bytes m' b n \<longleftrightarrow> (\<forall>i < n. m (a + of_nat i) = m' (b + of_nat i))"
  by (auto simp: list_eq_iff_nth_eq)

lemma bytes_Suc: "bytes m a (Suc n) = m a # bytes m (a + 1) n"
proof -
  have "[0..<Suc n] = 0 # map Suc [0..<n]"
    by (simp add: map_Suc_upt upt_conv_Cons del: upt_Suc)
  then show ?thesis
    by (simp add: bytes_def add.commute add.left_commute del: upt_Suc)
qed

lemma bytes_append: "bytes m a (n + k) = bytes m a n @ bytes m (a + of_nat n) k"
  by (induction n arbitrary: a) (simp_all add: bytes_Suc bytes_def [of _ _ 0] add.assoc)

lemma in_range_offset: "n \<le> 2 ^ 64 \<Longrightarrow> i < n \<Longrightarrow> in_range a n (a + of_nat i)"
  by (simp add: in_range_def unat_of_nat_lt)

lemma in_range_ex: "in_range a n x \<Longrightarrow> \<exists>i < n. x = a + of_nat i"
  unfolding in_range_def by (intro exI [of _ "unat (x - a)"]) simp

lemma in_range_Suc:
  assumes "n < 2 ^ 64"
  shows "in_range a (Suc n) x \<longleftrightarrow> x = a \<or> in_range (a + 1) n x"
proof
  assume "in_range a (Suc n) x"
  then obtain i where i: "i < Suc n" "x = a + of_nat i" by (auto dest: in_range_ex)
  show "x = a \<or> in_range (a + 1) n x"
  proof (cases i)
    case 0
    with i show ?thesis by simp
  next
    case (Suc k)
    with i assms in_range_offset [of n k "a + 1"] show ?thesis
      by (simp add: add.commute add.left_commute)
  qed
next
  assume "x = a \<or> in_range (a + 1) n x"
  then show "in_range a (Suc n) x"
  proof
    assume "x = a"
    then show ?thesis by (simp add: in_range_def)
  next
    assume "in_range (a + 1) n x"
    then obtain i where "i < n" "x = a + 1 + of_nat i" by (auto dest: in_range_ex)
    then show ?thesis
      using assms in_range_offset [of "Suc n" "Suc i" a] by (simp add: add.commute add.left_commute)
  qed
qed

lemma in_range_0 [simp]: "\<not> in_range a 0 x"
  by (simp add: in_range_def)

section \<open>What the routines do\<close>

lemma memset_loop_eq:
  "n \<le> 2 ^ 64 \<Longrightarrow> i \<le> n \<Longrightarrow>
   memset_loop m d c n i = (\<lambda>x. if in_range (d + of_nat i) (n - i) x then c else m x)"
proof (induction m d c n i rule: memset_loop.induct)
  case (1 m d c n i)
  show ?case
  proof (cases "i < n")
    case True
    then have "n - i = Suc (n - Suc i)" "n - Suc i < 2 ^ 64" using "1.prems" by auto
    moreover have "memset_loop m d c n i =
        (\<lambda>x. if in_range (d + of_nat (Suc i)) (n - Suc i) x then c else (m(d + of_nat i := c)) x)"
      using "1.IH" [OF True] "1.prems" True
      by (simp only: memset_loop.simps [of m d c n i] if_True Suc_le_eq)
    ultimately show ?thesis
      by (auto simp: in_range_Suc ac_simps)
  next
    case False
    then show ?thesis by (simp add: memset_loop.simps [of m d c n i])
  qed
qed

lemma unat_ucast_u32 [word_facts, simp]: "unat (ucast (n::u32) :: u64) = unat n"
  by (simp add: unat_ucast_up)

lemma unat_u32_le: "unat (n::u32) \<le> 2 ^ 64" "unat (n::u32) < 2 ^ 64"
  using unsigned_less [of n, where 'a = nat] by simp_all

lemma memset_eq [loop_simps]:
  "memset dst c n m = (\<lambda>x. if in_range dst (unat n) x then ucast c else m x)"
  using memset_loop_eq [OF unat_u32_le(1), of 0 n m dst "ucast c"] by (simp add: memset_def)

text \<open>
  Copying upwards is right when no byte is overwritten before it is read, and so is
  copying downwards.
\<close>

lemma copy_up_eq:
  assumes "n \<le> 2 ^ 64"
    and "\<And>i j. i < j \<Longrightarrow> j < n \<Longrightarrow> d + of_nat i \<noteq> s + of_nat j"
  shows "copy_up m d s n = (\<lambda>x. if in_range d n x then m (s + (x - d)) else m x)"
  using assms
proof (induction n arbitrary: m d s)
  case 0
  then show ?case by simp
next
  case (Suc n)
  have sep: "d + 1 + of_nat i \<noteq> s + 1 + of_nat j" if "i < j" "j < n" for i j
    using Suc.prems(2) [of "Suc i" "Suc j"] that by (simp add: add.commute add.left_commute)
  have d: "s + 1 + (x - (d + 1)) \<noteq> d" if x: "in_range (d + 1) n x" for x
  proof -
    from x obtain i where "i < n" "x = d + 1 + of_nat i" by (auto dest: in_range_ex)
    then show ?thesis using Suc.prems(2) [of 0 "Suc i"] by (auto simp: add.commute add.left_commute)
  qed
  have notin: "\<not> in_range (d + 1) n d"
  proof
    assume "in_range (d + 1) n d"
    then have "unat (- 1 :: u64) < n" by (simp add: in_range_def)
    then show False using Suc.prems(1) by (simp add: unat_minus_1)
  qed
  have "copy_up m d s (Suc n) =
      (\<lambda>x. if in_range (d + 1) n x then (m(d := m s)) (s + 1 + (x - (d + 1))) else (m(d := m s)) x)"
    using Suc.prems(1) sep by (simp only: copy_up.simps) (rule Suc.IH, simp_all)
  also have "\<dots> = (\<lambda>x. if in_range d (Suc n) x then m (s + (x - d)) else m x)"
  proof
    fix x
    show "(if in_range (d + 1) n x then (m(d := m s)) (s + 1 + (x - (d + 1))) else (m(d := m s)) x) =
        (if in_range d (Suc n) x then m (s + (x - d)) else m x)"
      using d [of x] notin Suc.prems(1) by (auto simp: in_range_Suc diff_diff_eq [symmetric])
  qed
  finally show ?case .
qed

lemma copy_down_eq:
  assumes "n \<le> 2 ^ 64"
    and "\<And>i j. j < i \<Longrightarrow> i < n \<Longrightarrow> d + of_nat i \<noteq> s + of_nat j"
  shows "copy_down m (d + of_nat n) (s + of_nat n) n =
           (\<lambda>x. if in_range d n x then m (s + (x - d)) else m x)"
  using assms
proof (induction n arbitrary: m)
  case 0
  then show ?case by simp
next
  case (Suc n)
  have top: "in_range d (Suc n) x \<longleftrightarrow> x = d + of_nat n \<or> in_range d n x" for x
  proof
    assume "in_range d (Suc n) x"
    then have "unat (x - d) = n \<or> in_range d n x" by (auto simp: in_range_def)
    then show "x = d + of_nat n \<or> in_range d n x" by auto
  next
    assume "x = d + of_nat n \<or> in_range d n x"
    then show "in_range d (Suc n) x"
      using Suc.prems(1) in_range_offset [of "Suc n" n d] by (auto simp: in_range_def)
  qed
  have "\<not> in_range d n (d + of_nat n)"
    using Suc.prems(1) by (simp add: in_range_def unat_of_nat_lt)
  moreover have "s + (x - d) \<noteq> d + of_nat n" if "in_range d n x" for x
  proof -
    from that obtain i where "i < n" "x = d + of_nat i" by (auto dest: in_range_ex)
    then show ?thesis using Suc.prems(2) [of i n] by auto
  qed
  moreover have "copy_down m (d + of_nat (Suc n)) (s + of_nat (Suc n)) (Suc n) =
      (\<lambda>x. if in_range d n x then (m(d + of_nat n := m (s + of_nat n))) (s + (x - d))
            else (m(d + of_nat n := m (s + of_nat n))) x)"
  proof -
    have "d + of_nat (Suc n) - 1 = d + of_nat n" "s + of_nat (Suc n) - 1 = s + of_nat n"
      by simp_all
    then show ?thesis
      using Suc.prems by (simp only: copy_down.simps) (rule Suc.IH, simp_all)
  qed
  ultimately show ?case
    by (auto simp: top)
qed

lemma memmove_eq [loop_simps]:
  assumes "unat src + unat n < 2 ^ 64" "unat dst + unat n < 2 ^ 64"
  shows "memmove dst src n m =
           (\<lambda>x. if in_range dst (unat n) x then m (src + (x - dst)) else m x)"
proof -
  have su: "unat (src + ucast n) = unat src + unat n"
    using assms(1) unat_add_lt [of src "ucast n"] by simp
  show ?thesis
  proof (cases "src < dst \<and> dst < src + ucast n")
    case True
    have "dst + of_nat i \<noteq> src + of_nat j" if "j < i" "i < unat n" for i j
    proof
      assume "dst + of_nat i = src + of_nat j"
      then have "unat dst + i = unat src + j"
        using that assms unat_add_of_nat [of dst i] unat_add_of_nat [of src j] by simp
      then show False using True that by (simp add: word_less_nat_alt)
    qed
    then have "copy_down m (dst + of_nat (unat n)) (src + of_nat (unat n)) (unat n) =
        (\<lambda>x. if in_range dst (unat n) x then m (src + (x - dst)) else m x)"
      using unat_u32_le by (intro copy_down_eq) simp_all
    then show ?thesis
      using True by (simp add: memmove_def)
  next
    case False
    have "dst + of_nat i \<noteq> src + of_nat j" if "i < j" "j < unat n" for i j
    proof
      assume "dst + of_nat i = src + of_nat j"
      then have "unat dst + i = unat src + j"
        using that assms unat_add_of_nat [of dst i] unat_add_of_nat [of src j] by simp
      then show False using False that su by (auto simp: word_less_nat_alt)
    qed
    then show ?thesis
      using False unat_u32_le by (simp only: memmove_def if_False) (rule copy_up_eq, simp_all)
  qed
qed

lemma memmove_bytes:
  assumes "unat src + unat n < 2 ^ 64" "unat dst + unat n < 2 ^ 64"
  shows "bytes (memmove dst src n m) dst (unat n) = bytes m src (unat n)"
  using in_range_offset [OF unat_u32_le(1)] by (simp add: memmove_eq [OF assms] bytes_eq_iff)

subsection \<open>Comparison\<close>

lemma ucast_diff_u8:
  fixes a b :: u8
  shows "sint (ucast a - ucast b :: c_int) = int (unat a) - int (unat b)"
proof -
  have r: "unat a < 256" "unat b < 256"
    using unsigned_less [of a, where 'a = nat] unsigned_less [of b, where 'a = nat] by simp_all
  have "sint (word_of_int (int (unat a) - int (unat b)) :: c_int) = int (unat a) - int (unat b)"
    using r by (intro sint_word_of_int) (simp_all del: of_nat_unat)
  then show ?thesis by simp
qed

lemma ucast_u8_eq [simp]: "(ucast (a::u8) :: c_int) = ucast b \<longleftrightarrow> a = b"
  by (simp add: ucast_up_inj)

lemma ucast_u8_eq_0 [simp]: "(ucast (a::u8) :: c_int) = 0 \<longleftrightarrow> a = 0"
  using ucast_u8_eq [of a 0] by simp

lemma memcmp_loop_first_diff:
  "memcmp_loop m p q n =
     (case List.find (\<lambda>i. m (p + of_nat i) \<noteq> m (q + of_nat i)) [0..<n] of
        None \<Rightarrow> 0
      | Some i \<Rightarrow> ucast (m (p + of_nat i)) - ucast (m (q + of_nat i)))"
proof (induction n arbitrary: p q)
  case 0
  then show ?case by simp
next
  case (Suc n)
  have upt: "[0..<Suc n] = 0 # map Suc [0..<n]"
    by (simp add: map_Suc_upt upt_conv_Cons del: upt_Suc)
  have fm: "List.find P (map Suc xs) = map_option Suc (List.find (P \<circ> Suc) xs)" for P xs
    by (induction xs) auto
  show ?case
    unfolding upt using Suc.IH [of "p + 1" "q + 1"]
    by (simp add: fm comp_def add.commute add.left_commute split: option.split)
qed

lemma memcmp_zero_iff: "memcmp p q n m = 0 \<longleftrightarrow> bytes m p (unat n) = bytes m q (unat n)"
  by (auto simp: memcmp_def memcmp_loop_first_diff bytes_eq_iff find_upt_None find_upt_Some
      split: option.splits)

lemma memcmp_negative_iff:
  "sint (memcmp p q n m) < 0 \<longleftrightarrow>
     (\<exists>i < unat n. m (p + of_nat i) < m (q + of_nat i) \<and> (\<forall>j < i. m (p + of_nat j) = m (q + of_nat j)))"
proof (cases "List.find (\<lambda>i. m (p + of_nat i) \<noteq> m (q + of_nat i)) [0..<unat n]")
  case None
  then show ?thesis by (auto simp: memcmp_def memcmp_loop_first_diff) (auto simp: find_upt_None)
next
  case (Some k)
  then have k: "k < unat n" "m (p + of_nat k) \<noteq> m (q + of_nat k)"
      "\<And>j. j < k \<Longrightarrow> m (p + of_nat j) = m (q + of_nat j)"
    by (auto simp: find_upt_Some)
  have "sint (memcmp p q n m) < 0 \<longleftrightarrow> m (p + of_nat k) < m (q + of_nat k)"
    using Some by (simp add: memcmp_def memcmp_loop_first_diff ucast_diff_u8 word_less_alt)
  also have "\<dots> \<longleftrightarrow> (\<exists>i < unat n. m (p + of_nat i) < m (q + of_nat i) \<and>
      (\<forall>j < i. m (p + of_nat j) = m (q + of_nat j)))"
    using k by (metis linorder_neqE_nat less_irrefl)
  finally show ?thesis .
qed

subsection \<open>NUL-terminated strings\<close>

lemma cstr_Nil [simp]: "cstr m s [] \<longleftrightarrow> m s = 0"
  by (simp add: cstr_def bytes_def)

lemma cstr_Cons [simp]: "cstr m s (x # xs) \<longleftrightarrow> m s = x \<and> x \<noteq> 0 \<and> cstr m (s + 1) xs"
  by (auto simp: cstr_def bytes_Suc ac_simps)

lemma cstr_cong:
  assumes "\<And>j. j \<le> length xs \<Longrightarrow> m' (s + of_nat j) = m (s + of_nat j)"
  shows "cstr m' s xs \<longleftrightarrow> cstr m s xs"
  using assms by (simp add: cstr_def list_eq_iff_nth_eq)

lemma strlen_from_cstr:
  "cstr m (s + of_nat n) xs \<Longrightarrow> strlen_from m s n = Some (n + length xs)"
proof (induction xs arbitrary: n)
  case Nil
  then show ?case by (subst strlen_from.simps) simp
next
  case (Cons x xs)
  then have "strlen_from m s (Suc n) = Some (Suc n + length xs)"
    by (intro Cons.IH) (simp add: ac_simps)
  with Cons.prems show ?case by (subst strlen_from.simps) simp
qed

lemma strlen_cstr: "cstr m s xs \<Longrightarrow> strlen s m = Some (length xs)"
  using strlen_from_cstr [of m s 0 xs] by (simp add: strlen_def)

lemma strncmp_loop_zero_iff:
  "cstr m p xs \<Longrightarrow> cstr m q ys \<Longrightarrow> strncmp_loop m p q n = 0 \<longleftrightarrow> take n xs = take n ys"
proof (induction n arbitrary: p q xs ys)
  case 0
  then show ?case by simp
next
  case (Suc n)
  show ?case
    using Suc.prems Suc.IH by (cases xs; cases ys) auto
qed

lemma strncmp_zero_iff:
  "cstr m p xs \<Longrightarrow> cstr m q ys \<Longrightarrow> strncmp p q n m = 0 \<longleftrightarrow> take (unat n) xs = take (unat n) ys"
  by (simp add: strncmp_def strncmp_loop_zero_iff)

text \<open>
  The copying routines on source and destination that do not overlap. \<open>apart s n t k\<close>:
  the \<open>n\<close> bytes at \<open>s\<close> and the \<open>k\<close> bytes at \<open>t\<close> are disjoint.
\<close>

definition apart :: "u64 \<Rightarrow> nat \<Rightarrow> u64 \<Rightarrow> nat \<Rightarrow> bool" where
  "apart s n t k \<longleftrightarrow> (\<forall>i < n. \<forall>j < k. s + of_nat i \<noteq> t + of_nat j)"

lemma apart_step: "apart s (Suc n) t (Suc k) \<Longrightarrow> apart (s + 1) n (t + 1) k"
proof -
  assume a: "apart s (Suc n) t (Suc k)"
  have "s + 1 + of_nat i \<noteq> t + 1 + of_nat j" if "i < n" "j < k" for i j
  proof -
    have "s + of_nat (Suc i) \<noteq> t + of_nat (Suc j)" using a that unfolding apart_def by blast
    then show ?thesis by (simp add: ac_simps)
  qed
  then show "apart (s + 1) n (t + 1) k" by (simp add: apart_def)
qed

lemma apart_fst: "apart s (Suc n) t k \<Longrightarrow> j < k \<Longrightarrow> t + of_nat j \<noteq> s"
  unfolding apart_def by (drule spec [of _ 0]) auto

lemma cstr_write_apart:
  "apart s (Suc n) t (Suc (length xs)) \<Longrightarrow> cstr (m(s := v)) t xs \<longleftrightarrow> cstr m t xs"
  by (rule cstr_cong) (simp add: apart_fst less_Suc_eq_le)

lemma range_after: "n < 2 ^ 64 \<Longrightarrow> \<not> in_range (s + 1) n s"
  by (simp add: in_range_def unat_minus_1)

lemma safestrcpy_loop_spec:
  "cstr m t xs \<Longrightarrow> apart s (Suc k) t (Suc (length xs)) \<Longrightarrow> Suc k < 2 ^ 64 \<Longrightarrow>
   cstr (safestrcpy_loop m s t k) s (take k xs) \<and>
   (\<forall>x. \<not> in_range s (Suc k) x \<longrightarrow> safestrcpy_loop m s t k x = m x)"
proof (induction k arbitrary: m s t xs)
  case 0
  then show ?case by (auto simp: in_range_def)
next
  case (Suc k)
  have ins: "in_range s (Suc (Suc k)) x \<longleftrightarrow> x = s \<or> in_range (s + 1) (Suc k) x" for x
    using Suc.prems(3) by (simp add: in_range_Suc del: of_nat_Suc)
  show ?case
  proof (cases xs)
    case Nil
    then show ?thesis using Suc.prems(1) ins by (auto simp: Let_def in_range_def)
  next
    case (Cons y ys)
    have "cstr (m(s := y)) (t + 1) ys"
      using Suc.prems(1,2) cstr_write_apart [of s "Suc k" t xs m y]
      by (simp add: Cons del: fun_upd_apply)
    moreover have "apart (s + 1) (Suc k) (t + 1) (Suc (length ys))"
      using Suc.prems(2) apart_step by (simp add: Cons)
    ultimately have IH: "cstr (safestrcpy_loop (m(s := y)) (s + 1) (t + 1) k) (s + 1) (take k ys) \<and>
        (\<forall>x. \<not> in_range (s + 1) (Suc k) x \<longrightarrow>
          safestrcpy_loop (m(s := y)) (s + 1) (t + 1) k x = (m(s := y)) x)"
      by (rule Suc.IH) (use Suc.prems(3) in simp)
    have "\<not> in_range (s + 1) (Suc k) s" using Suc.prems(3) by (intro range_after) simp
    then show ?thesis
      using IH Suc.prems(1) ins by (auto simp: Let_def Cons)
  qed
qed

text \<open>
  \<open>safestrcpy\<close> always leaves a NUL-terminated string, the first \<open>n - 1\<close> bytes of the
  source, and writes nothing outside the \<open>n\<close> bytes of the destination.
\<close>

lemma safestrcpy_spec:
  assumes "cstr m t xs" "0 < sint n" "apart s (nat (sint n)) t (Suc (length xs))"
  shows "cstr (safestrcpy s t n m) s (take (nat (sint n) - 1) xs)"
    and "\<not> in_range s (nat (sint n)) x \<Longrightarrow> safestrcpy s t n m x = m x"
proof -
  obtain k where k: "nat (sint n) = Suc k" using assms(2) by (cases "nat (sint n)") auto
  have "Suc k < 2 ^ 64" using k sint_lt [of n] by simp
  then show "cstr (safestrcpy s t n m) s (take (nat (sint n) - 1) xs)"
    and "\<not> in_range s (nat (sint n)) x \<Longrightarrow> safestrcpy s t n m x = m x"
    using safestrcpy_loop_spec [of m t xs s k] assms k by (auto simp: safestrcpy_def)
qed

section \<open>Properties\<close>

text \<open>C38: \<open>memmove\<close> copies faithfully even when source and destination overlap: afterwards
  the destination holds the bytes the source held before, and every byte outside the
  destination is unchanged, as long as neither range runs over the end of the address
  space.\<close>

theorem memmove_correct:
  assumes "unat src + unat n < 2 ^ 64" "unat dst + unat n < 2 ^ 64"
  shows "bytes (memmove dst src n m) dst (unat n) = bytes m src (unat n) \<and>
         (\<forall>x. \<not> in_range dst (unat n) x \<longrightarrow> memmove dst src n m x = m x)"
  using memmove_bytes [OF assms] memmove_eq [OF assms] by auto

theorem memmove_correct_witness:
  "bytes (memmove 101 100 3 (\<lambda>a. ucast a)) 101 3 = [100, 101, 102]"
proof -
  have "bytes (memmove 101 100 3 (\<lambda>a. ucast a)) 101 (unat (3::u32)) = bytes (\<lambda>a. ucast a) 100 (unat (3::u32))"
    by (rule memmove_correct [THEN conjunct1]) simp_all
  then show ?thesis by (simp add: bytes_def upt_rec)
qed

end
