(* ===== verification/Spinlock.thy ===== *)
theory Spinlock
  imports Prelude
begin

text \<open>
  \<^verbatim>\<open>kernel/spinlock.c\<close>: the per-CPU interrupt nesting (\<open>push_off\<close>, \<open>pop_off\<close>) and the
  spinlock itself, with every panic. A hart is a number; \<open>r_tp\<close> (the hart id) is the
  argument \<open>c\<close>. Two views are given: the functions as one CPU runs them, and the
  instruction-level interleaving of many CPUs as a step relation, where the atomic swap,
  the store of \<open>lk->cpu\<close> and the releasing store are separate steps. The contract the rest
  of the kernel relies on is the locale \<open>lock_ops\<close>.
\<close>

section \<open>State\<close>

record cpu =
  cproc :: "nat option"
  noff :: int
  intena :: bool

record spinlock =
  locked :: bool
  lname :: string
  lcpu :: "nat option"

record 'l machine =
  cpus :: "nat \<Rightarrow> cpu"
  sie :: "nat \<Rightarrow> bool"
  lks :: "'l \<Rightarrow> spinlock"

section \<open>Operations\<close>

definition initlock :: "'l \<Rightarrow> string \<Rightarrow> 'l machine \<Rightarrow> 'l machine" where
  "initlock l name m =
     m\<lparr>lks := (lks m)(l := \<lparr>locked = False, lname = name, lcpu = None\<rparr>)\<rparr>"

definition intr_get :: "nat \<Rightarrow> 'l machine \<Rightarrow> bool" where
  "intr_get c m = sie m c"

definition intr_off :: "nat \<Rightarrow> 'l machine \<Rightarrow> 'l machine" where
  "intr_off c m = m\<lparr>sie := (sie m)(c := False)\<rparr>"

definition intr_on :: "nat \<Rightarrow> 'l machine \<Rightarrow> 'l machine" where
  "intr_on c m = m\<lparr>sie := (sie m)(c := True)\<rparr>"

definition push_off :: "nat \<Rightarrow> 'l machine \<Rightarrow> 'l machine" where
  "push_off c m =
     (let old = intr_get c m;
          m = intr_off c m;
          k = cpus m c;
          k = (if noff k = 0 then k\<lparr>intena := old\<rparr> else k);
          k = k\<lparr>noff := noff k + 1\<rparr>
      in m\<lparr>cpus := (cpus m)(c := k)\<rparr>)"

definition pop_off :: "nat \<Rightarrow> 'l machine \<Rightarrow> stop + 'l machine" where
  "pop_off c m =
     (if intr_get c m then Inl (Panic ''pop_off - interruptible'')
      else if noff (cpus m c) < 1 then Inl (Panic ''pop_off'')
      else
        let k = (cpus m c)\<lparr>noff := noff (cpus m c) - 1\<rparr>;
            m = m\<lparr>cpus := (cpus m)(c := k)\<rparr>
        in Inr (if noff k = 0 \<and> intena k then intr_on c m else m))"

definition holding :: "nat \<Rightarrow> 'l \<Rightarrow> 'l machine \<Rightarrow> bool" where
  "holding c l m \<longleftrightarrow> locked (lks m l) \<and> lcpu (lks m l) = Some c"

text \<open>
  \<open>acquire\<close> spins while another CPU holds the lock; in the one-CPU view that is the result
  \<open>Spin\<close>.
\<close>

definition acquire :: "nat \<Rightarrow> 'l \<Rightarrow> 'l machine \<Rightarrow> stop + 'l machine" where
  "acquire c l m =
     (let m = push_off c m
      in if holding c l m then Inl (Panic ''acquire'')
         else if locked (lks m l) then Inl (Spin (lname (lks m l)))
         else Inr (m\<lparr>lks := (lks m)(l := (lks m l)\<lparr>locked := True, lcpu := Some c\<rparr>)\<rparr>))"

definition release :: "nat \<Rightarrow> 'l \<Rightarrow> 'l machine \<Rightarrow> stop + 'l machine" where
  "release c l m =
     (if \<not> holding c l m then Inl (Panic ''release'')
      else pop_off c (m\<lparr>lks := (lks m)(l := (lks m l)\<lparr>lcpu := None, locked := False\<rparr>)\<rparr>))"

lemmas intr_defs = intr_get_def intr_off_def intr_on_def

section \<open>Interrupt nesting\<close>

text \<open>
  \<open>irq_ok c b m\<close>: hart \<open>c\<close> ran with interrupts in state \<open>b\<close> before the outermost
  \<open>push_off\<close>, and has remembered it.
\<close>

definition irq_ok :: "nat \<Rightarrow> bool \<Rightarrow> 'l machine \<Rightarrow> bool" where
  "irq_ok c b m \<longleftrightarrow>
     0 \<le> noff (cpus m c) \<and>
     (if noff (cpus m c) = 0 then sie m c = b else \<not> sie m c \<and> intena (cpus m c) = b)"

lemma push_off_irq:
  assumes "irq_ok c b m"
  shows "irq_ok c b (push_off c m)" "noff (cpus (push_off c m) c) = noff (cpus m c) + 1"
    "lks (push_off c m) = lks m" "\<not> sie (push_off c m) c"
  using assms by (auto simp: push_off_def irq_ok_def intr_defs Let_def split: if_splits)

lemma pop_off_irq:
  assumes "irq_ok c b m" "1 \<le> noff (cpus m c)"
  shows "\<exists>m'. pop_off c m = Inr m' \<and> irq_ok c b m' \<and> noff (cpus m' c) = noff (cpus m c) - 1 \<and>
    lks m' = lks m"
  using assms by (auto simp: pop_off_def irq_ok_def intr_defs Let_def split: if_splits)

datatype irq_op = Push | Pop

fun irq_run :: "nat \<Rightarrow> irq_op list \<Rightarrow> 'l machine \<Rightarrow> stop + 'l machine" where
  "irq_run c [] m = Inr m"
| "irq_run c (Push # es) m = irq_run c es (push_off c m)"
| "irq_run c (Pop # es) m = bindE (pop_off c m) (irq_run c es)"

text \<open>\<open>irq_depth es d\<close> is the nesting depth after \<open>es\<close>, or None if it would fall below zero.\<close>

fun irq_depth :: "irq_op list \<Rightarrow> int \<Rightarrow> int option" where
  "irq_depth [] d = Some d"
| "irq_depth (Push # es) d = irq_depth es (d + 1)"
| "irq_depth (Pop # es) d = (if d < 1 then None else irq_depth es (d - 1))"

lemma irq_run_ok:
  "irq_ok c b m \<Longrightarrow> irq_depth es (noff (cpus m c)) = Some d \<Longrightarrow>
   \<exists>m'. irq_run c es m = Inr m' \<and> irq_ok c b m' \<and> noff (cpus m' c) = d"
proof (induction c es m rule: irq_run.induct)
  case (1 c m)
  then show ?case by auto
next
  case (2 c es m)
  then show ?case using push_off_irq [OF "2.prems"(1)] by auto
next
  case (3 c es m)
  have d: "1 \<le> noff (cpus m c)" "irq_depth es (noff (cpus m c) - 1) = Some d"
    using "3.prems"(2) by (auto split: if_splits)
  then show ?case using pop_off_irq [OF "3.prems"(1) d(1)] "3.IH" by auto
qed

section \<open>The contract of a lock\<close>

text \<open>
  What clients rely on: \<open>acq\<close> succeeds on an available lock and makes the caller its
  owner, panics on one the caller already owns; \<open>rel\<close> undoes it and panics when the
  caller is not the owner; neither touches the ownership of other locks. \<open>ok\<close> is the
  provider's invariant, \<open>view\<close> the part of the state locks do not belong to.
\<close>

definition with_lock ::
  "('l \<Rightarrow> 's \<Rightarrow> stop + 's) \<Rightarrow> ('l \<Rightarrow> 's \<Rightarrow> stop + 's) \<Rightarrow> 'l \<Rightarrow> ('s \<Rightarrow> stop + 's) \<Rightarrow> 's \<Rightarrow> stop + 's" where
  "with_lock acq rel l body s = bindE (acq l s) (\<lambda>s. bindE (body s) (rel l))"

locale lock_ops =
  fixes acq :: "'l \<Rightarrow> 's \<Rightarrow> stop + 's"
    and rel :: "'l \<Rightarrow> 's \<Rightarrow> stop + 's"
    and own :: "'s \<Rightarrow> 'l set"
    and avail :: "'s \<Rightarrow> 'l \<Rightarrow> bool"
    and ok :: "'s \<Rightarrow> bool"
  assumes acq_avail: "ok s \<Longrightarrow> avail s l \<Longrightarrow>
      \<exists>s'. acq l s = Inr s' \<and> ok s' \<and> own s' = insert l (own s)"
    and acq_owned: "ok s \<Longrightarrow> l \<in> own s \<Longrightarrow> acq l s = Inl (Panic ''acquire'')"
    and avail_not_owned: "ok s \<Longrightarrow> avail s l \<Longrightarrow> l \<notin> own s"
    and rel_owned: "ok s \<Longrightarrow> l \<in> own s \<Longrightarrow>
      \<exists>s'. rel l s = Inr s' \<and> ok s' \<and> own s' = own s - {l}"
    and rel_not_owned: "ok s \<Longrightarrow> l \<notin> own s \<Longrightarrow> rel l s = Inl (Panic ''release'')"
begin

lemma with_lock_restores:
  assumes "ok s" "avail s l"
    and body: "\<And>s1. ok s1 \<Longrightarrow> own s1 = insert l (own s) \<Longrightarrow>
      \<exists>s2. body s1 = Inr s2 \<and> ok s2 \<and> own s2 = own s1"
  shows "\<exists>s'. with_lock acq rel l body s = Inr s' \<and> ok s' \<and> own s' = own s"
proof -
  from acq_avail [OF assms(1,2)] obtain s1
    where s1: "acq l s = Inr s1" "ok s1" "own s1 = insert l (own s)" by blast
  from body [OF s1(2,3)] obtain s2 where s2: "body s1 = Inr s2" "ok s2" "own s2 = own s1" by blast
  from rel_owned [OF s2(2), of l] s1 s2 obtain s3
    where s3: "rel l s2 = Inr s3" "ok s3" "own s3 = own s2 - {l}" by auto
  have "own s3 = own s"
    using s1 s2 s3 avail_not_owned [OF assms(1,2)] by auto
  with s1 s2 s3 show ?thesis by (simp add: with_lock_def)
qed

lemma no_double_acquire:
  assumes "ok s" "acq l s = Inr s1" "ok s1" "l \<in> own s1"
  shows "acq l s1 = Inl (Panic ''acquire'')"
  using acq_owned assms by blast

lemma acquire_release:
  assumes "ok s" "avail s l" "acq l s = Inr s1"
  shows "\<exists>s2. rel l s1 = Inr s2 \<and> own s2 = own s"
proof -
  from acq_avail [OF assms(1,2)] assms(3) have s1: "ok s1" "own s1 = insert l (own s)" by auto
  from rel_owned [OF s1(1), of l] s1(2) obtain s2 where "rel l s1 = Inr s2" "own s2 = own s1 - {l}"
    by auto
  then show ?thesis using s1(2) avail_not_owned [OF assms(1,2)] by auto
qed

end

section \<open>The spinlock keeps the contract\<close>

definition owned_by :: "nat \<Rightarrow> 'l machine \<Rightarrow> 'l set" where
  "owned_by c m = {l. holding c l m}"

text \<open>
  The invariant of one hart between operations: interrupt nesting is at least as deep as
  the number of locks held. \<open>lock_depth_ok\<close> bounds the locks held by the nesting depth, so
  that \<open>release\<close> never meets \<open>pop_off\<close>'s panics.
\<close>

definition hart_ok :: "nat \<Rightarrow> 'l machine \<Rightarrow> bool" where
  "hart_ok c m \<longleftrightarrow> (\<exists>b. irq_ok c b m) \<and> finite (owned_by c m) \<and>
     int (card (owned_by c m)) \<le> noff (cpus m c)"

lemma holding_push_off [simp]: "holding c l (push_off c' m) = holding c l m"
  by (simp add: holding_def push_off_def intr_defs Let_def)

lemma acquire_free:
  assumes "hart_ok c m" "\<not> locked (lks m l)"
  shows "\<exists>m'. acquire c l m = Inr m' \<and> hart_ok c m' \<and> owned_by c m' = insert l (owned_by c m)"
proof -
  from assms(1) obtain b where b: "irq_ok c b m" and fin: "finite (owned_by c m)"
    and le: "int (card (owned_by c m)) \<le> noff (cpus m c)" by (auto simp: hart_ok_def)
  let ?m = "push_off c m"
  let ?m' = "?m\<lparr>lks := (lks ?m)(l := (lks ?m l)\<lparr>locked := True, lcpu := Some c\<rparr>)\<rparr>"
  note p = push_off_irq [OF b]
  have acq: "acquire c l m = Inr ?m'"
    using assms(2) p(3) by (simp add: acquire_def holding_def)
  have own: "owned_by c ?m' = insert l (owned_by c m)"
    using p(3) by (auto simp: owned_by_def holding_def)
  have "l \<notin> owned_by c m" using assms(2) by (simp add: owned_by_def holding_def)
  then have "int (card (owned_by c ?m')) \<le> noff (cpus ?m' c)"
    using own fin le p(2) by simp
  moreover have "irq_ok c b ?m'" using p(1) by (simp add: irq_ok_def)
  ultimately have "hart_ok c ?m'" using own fin by (auto simp: hart_ok_def)
  with acq own show ?thesis by blast
qed

lemma release_held:
  assumes "hart_ok c m" "l \<in> owned_by c m"
  shows "\<exists>m'. release c l m = Inr m' \<and> hart_ok c m' \<and> owned_by c m' = owned_by c m - {l}"
proof -
  from assms(1) obtain b where b: "irq_ok c b m" and fin: "finite (owned_by c m)"
    and le: "int (card (owned_by c m)) \<le> noff (cpus m c)" by (auto simp: hart_ok_def)
  let ?m = "m\<lparr>lks := (lks m)(l := (lks m l)\<lparr>lcpu := None, locked := False\<rparr>)\<rparr>"
  have one: "1 \<le> card (owned_by c m)" using assms(2) fin by (auto simp: Suc_le_eq card_gt_0_iff)
  then have "irq_ok c b ?m" "1 \<le> noff (cpus ?m c)" using b le one by (auto simp: irq_ok_def)
  from pop_off_irq [OF this] obtain m' where m': "pop_off c ?m = Inr m'" "irq_ok c b m'"
    "noff (cpus m' c) = noff (cpus m c) - 1" "lks m' = lks ?m" by auto
  have rel: "release c l m = Inr m'"
    using assms(2) m'(1) by (simp add: release_def owned_by_def)
  have own: "owned_by c m' = owned_by c m - {l}"
    using m'(4) by (auto simp: owned_by_def holding_def)
  have "int (card (owned_by c m')) \<le> noff (cpus m' c)"
    using own fin assms(2) le m'(3) one by (simp add: of_nat_diff)
  with m'(2) own fin have "hart_ok c m'" by (auto simp: hart_ok_def)
  with rel own show ?thesis by blast
qed

interpretation spin: lock_ops "acquire c" "release c" "owned_by c" "\<lambda>m l. \<not> locked (lks m l)" "hart_ok c" for c
proof
  show "\<And>s l. hart_ok c s \<Longrightarrow> \<not> locked (lks s l) \<Longrightarrow>
      \<exists>s'. acquire c l s = Inr s' \<and> hart_ok c s' \<and> owned_by c s' = insert l (owned_by c s)"
    by (rule acquire_free)
  show "\<And>s l. hart_ok c s \<Longrightarrow> l \<in> owned_by c s \<Longrightarrow> acquire c l s = Inl (Panic ''acquire'')"
    by (simp add: acquire_def owned_by_def)
  show "\<And>s l. hart_ok c s \<Longrightarrow> \<not> locked (lks s l) \<Longrightarrow> l \<notin> owned_by c s"
    by (simp add: owned_by_def holding_def)
  show "\<And>s l. hart_ok c s \<Longrightarrow> l \<in> owned_by c s \<Longrightarrow>
      \<exists>s'. release c l s = Inr s' \<and> hart_ok c s' \<and> owned_by c s' = owned_by c s - {l}"
    by (rule release_held)
  show "\<And>s l. hart_ok c s \<Longrightarrow> l \<notin> owned_by c s \<Longrightarrow> release c l s = Inl (Panic ''release'')"
    by (simp add: release_def owned_by_def)
qed

section \<open>Locks held, as the other components see them\<close>

text \<open>
  Between scheduling points a kernel path runs on one hart, and the locks it can observe
  are the ones it holds itself. The components above this one therefore keep the list of
  locks held by the running path; \<open>noff\<close> is its length. \<open>hold_rel\<close> ties this list to the
  machine state, and the two refinement lemmas below show that the list operations
  simulate \<open>acquire\<close> and \<open>release\<close>.
\<close>

datatype slk_id = BufSlk nat | InodeSlk nat

datatype lock =
    ProcLock nat | WaitLock | PidLock | TicksLock | KmemLock | FtableLock | ItableLock
  | BcacheLock | LogLock | PipeLock u64 | ConsLock | UartLock | VdiskLock | PrLock | SleepLk slk_id

definition lk_acquire :: "lock \<Rightarrow> lock list \<Rightarrow> stop + lock list" where
  "lk_acquire l hs = (if l \<in> set hs then Inl (Panic ''acquire'') else Inr (l # hs))"

definition lk_release :: "lock \<Rightarrow> lock list \<Rightarrow> stop + lock list" where
  "lk_release l hs = (if l \<in> set hs then Inr (remove1 l hs) else Inl (Panic ''release''))"

interpretation held: lock_ops lk_acquire lk_release set "\<lambda>hs l. l \<notin> set hs" distinct
  by unfold_locales (auto simp: lk_acquire_def lk_release_def distinct_remove1)

definition hold_rel :: "nat \<Rightarrow> lock machine \<Rightarrow> lock list \<Rightarrow> bool" where
  "hold_rel c m hs \<longleftrightarrow> hart_ok c m \<and> distinct hs \<and> owned_by c m = set hs \<and>
     noff (cpus m c) = int (length hs)"

lemma noff_acquire: "acquire c l m = Inr m' \<Longrightarrow> irq_ok c b m \<Longrightarrow> noff (cpus m' c) = noff (cpus m c) + 1"
  using push_off_irq(2) [of c b m] by (auto simp: acquire_def Let_def split: if_splits)

lemma noff_pop_off: "pop_off c m = Inr m' \<Longrightarrow> noff (cpus m' c) = noff (cpus m c) - 1"
  by (auto simp: pop_off_def Let_def intr_defs split: if_splits)

lemma noff_release: "release c l m = Inr m' \<Longrightarrow> noff (cpus m' c) = noff (cpus m c) - 1"
  by (auto simp: release_def split: if_splits dest: noff_pop_off)

lemma acquire_refines:
  assumes "hold_rel c m hs" "acquire c l m \<noteq> Inl (Spin (lname (lks m l)))"
  shows "case lk_acquire l hs of
           Inl e \<Rightarrow> acquire c l m = Inl e
         | Inr hs' \<Rightarrow> \<exists>m'. acquire c l m = Inr m' \<and> hold_rel c m' hs'"
proof (cases "l \<in> set hs")
  case True
  then show ?thesis
    using assms spin.acq_owned [of c m l] by (auto simp: lk_acquire_def hold_rel_def)
next
  case False
  obtain b where b: "irq_ok c b m" using assms(1) by (auto simp: hold_rel_def hart_ok_def)
  have "\<not> locked (lks m l)"
  proof
    assume "locked (lks m l)"
    moreover have "\<not> holding c l m" using False assms(1) by (auto simp: hold_rel_def owned_by_def)
    ultimately show False
      using assms(2) push_off_irq(3) [OF b] by (simp add: acquire_def Let_def)
  qed
  with assms(1) obtain m' where m': "acquire c l m = Inr m'" "hart_ok c m'"
      "owned_by c m' = insert l (owned_by c m)"
    using acquire_free [of c m l] by (auto simp: hold_rel_def)
  then show ?thesis
    using False assms(1) noff_acquire [OF m'(1) b] by (auto simp: lk_acquire_def hold_rel_def)
qed

lemma release_refines:
  assumes "hold_rel c m hs"
  shows "case lk_release l hs of
           Inl e \<Rightarrow> release c l m = Inl e
         | Inr hs' \<Rightarrow> \<exists>m'. release c l m = Inr m' \<and> hold_rel c m' hs'"
proof (cases "l \<in> set hs")
  case True
  with assms obtain m' where m': "release c l m = Inr m'" "hart_ok c m'"
      "owned_by c m' = owned_by c m - {l}"
    using release_held [of c m l] by (auto simp: hold_rel_def)
  obtain n where "length hs = Suc n" using True by (cases hs) auto
  then show ?thesis
    using m' True assms noff_release [OF m'(1)]
    by (auto simp: lk_release_def hold_rel_def length_remove1)
next
  case False
  then show ?thesis
    using assms spin.rel_not_owned [of c m l] by (auto simp: lk_release_def hold_rel_def)
qed

text \<open>
  The state of every component extends \<open>hart\<close>, the locks held by the running path, so
  \<open>lacquire\<close> and \<open>lrelease\<close> apply to all of them.
\<close>

record hart =
  held :: "lock list"

definition lacquire :: "lock \<Rightarrow> 'a hart_scheme \<Rightarrow> stop + 'a hart_scheme" where
  "lacquire l s = bindE (lk_acquire l (held s)) (\<lambda>h. Inr (s\<lparr>held := h\<rparr>))"

definition lrelease :: "lock \<Rightarrow> 'a hart_scheme \<Rightarrow> stop + 'a hart_scheme" where
  "lrelease l s = bindE (lk_release l (held s)) (\<lambda>h. Inr (s\<lparr>held := h\<rparr>))"

definition lholding :: "lock \<Rightarrow> 'a hart_scheme \<Rightarrow> bool" where
  "lholding l s \<longleftrightarrow> l \<in> set (held s)"

interpretation path: lock_ops lacquire lrelease "\<lambda>s. set (held s)" "\<lambda>s l. l \<notin> set (held s)" "\<lambda>s. distinct (held s)"
  by unfold_locales (auto simp: lacquire_def lrelease_def lk_acquire_def lk_release_def)

lemma lacquire_simps:
  "l \<notin> set (held s) \<Longrightarrow> lacquire l s = Inr (s\<lparr>held := l # held s\<rparr>)"
  "l \<in> set (held s) \<Longrightarrow> lacquire l s = Inl (Panic ''acquire'')"
  by (simp_all add: lacquire_def lk_acquire_def)

lemma lrelease_simps:
  "l \<in> set (held s) \<Longrightarrow> lrelease l s = Inr (s\<lparr>held := remove1 l (held s)\<rparr>)"
  "l \<notin> set (held s) \<Longrightarrow> lrelease l s = Inl (Panic ''release'')"
  by (simp_all add: lrelease_def lk_release_def)

lemmas lock_simps = lacquire_simps lrelease_simps

lemma lrelease_last: "held s = h \<Longrightarrow> lrelease l (s\<lparr>held := l # h\<rparr>) = Inr s"
  by (simp add: lrelease_def lk_release_def)

lemma lacquire_Inr_iff: "lacquire l s = Inr t \<longleftrightarrow> l \<notin> set (held s) \<and> t = s\<lparr>held := l # held s\<rparr>"
  by (auto simp: lacquire_def lk_acquire_def)

lemma lrelease_Inr_iff: "lrelease l s = Inr t \<longleftrightarrow> l \<in> set (held s) \<and> t = s\<lparr>held := remove1 l (held s)\<rparr>"
  by (auto simp: lrelease_def lk_release_def)

text \<open>A critical section whose body is a plain update that does not look at the locks.\<close>

lemma with_lock_update:
  assumes "l \<notin> set (held s)"
    and "f (s\<lparr>held := l # held s\<rparr>) = (f s)\<lparr>held := l # held s\<rparr>" and "held (f s) = held s"
  shows "with_lock lacquire lrelease l (\<lambda>s. Inr (f s)) s = Inr (f s)"
  using assms by (simp add: with_lock_def lock_simps)

section \<open>Many CPUs\<close>

text \<open>
  Where a CPU is inside \<open>acquire\<close> or \<open>release\<close>: in the swap loop, past a successful swap
  but before \<open>lk->cpu = mycpu()\<close>, or past \<open>lk->cpu = 0\<close> but before the releasing store.
\<close>

datatype 'l lpc = Run | Spinning 'l | Swapped 'l | Clearing 'l

record 'l mp =
  mach :: "'l machine"
  pcs :: "nat \<Rightarrow> 'l lpc"

definition upd_lock :: "'l \<Rightarrow> (spinlock \<Rightarrow> spinlock) \<Rightarrow> 'l machine \<Rightarrow> 'l machine" where
  "upd_lock l f m = m\<lparr>lks := (lks m)(l := f (lks m l))\<rparr>"

inductive spin_step :: "'l mp \<Rightarrow> 'l mp \<Rightarrow> bool" where
  call_acquire: "pcs s c = Run \<Longrightarrow> \<not> holding c l (push_off c (mach s)) \<Longrightarrow>
    spin_step s (s\<lparr>mach := push_off c (mach s), pcs := (pcs s)(c := Spinning l)\<rparr>)"
| swap_busy: "pcs s c = Spinning l \<Longrightarrow> locked (lks (mach s) l) \<Longrightarrow> spin_step s s"
| swap_free: "pcs s c = Spinning l \<Longrightarrow> \<not> locked (lks (mach s) l) \<Longrightarrow>
    spin_step s (s\<lparr>mach := upd_lock l (\<lambda>k. k\<lparr>locked := True\<rparr>) (mach s), pcs := (pcs s)(c := Swapped l)\<rparr>)"
| record_cpu: "pcs s c = Swapped l \<Longrightarrow>
    spin_step s (s\<lparr>mach := upd_lock l (\<lambda>k. k\<lparr>lcpu := Some c\<rparr>) (mach s), pcs := (pcs s)(c := Run)\<rparr>)"
| call_release: "pcs s c = Run \<Longrightarrow> holding c l (mach s) \<Longrightarrow>
    spin_step s (s\<lparr>mach := upd_lock l (\<lambda>k. k\<lparr>lcpu := None\<rparr>) (mach s), pcs := (pcs s)(c := Clearing l)\<rparr>)"
| clear: "pcs s c = Clearing l \<Longrightarrow> pop_off c (upd_lock l (\<lambda>k. k\<lparr>locked := False\<rparr>) (mach s)) = Inr m \<Longrightarrow>
    spin_step s (s\<lparr>mach := m, pcs := (pcs s)(c := Run)\<rparr>)"

definition boot_mp :: "'l mp" where
  "boot_mp = \<lparr>mach = \<lparr>cpus = (\<lambda>_. \<lparr>cproc = None, noff = 0, intena = False\<rparr>), sie = (\<lambda>_. True),
       lks = (\<lambda>_. \<lparr>locked = False, lname = [], lcpu = None\<rparr>)\<rparr>, pcs = (\<lambda>_. Run)\<rparr>"

inductive spin_reach :: "'l mp \<Rightarrow> bool" where
  boot: "spin_reach boot_mp"
| step: "spin_reach s \<Longrightarrow> spin_step s t \<Longrightarrow> spin_reach t"

text \<open>
  \<open>owners s l\<close> are the CPUs between the successful swap on \<open>l\<close> and the releasing store.
  The invariant says how \<open>lk->locked\<close> and \<open>lk->cpu\<close> agree with the CPUs in transit.
\<close>

definition transit :: "'l mp \<Rightarrow> 'l \<Rightarrow> nat \<Rightarrow> bool" where
  "transit s l c \<longleftrightarrow> pcs s c = Swapped l \<or> pcs s c = Clearing l"

definition owners :: "'l mp \<Rightarrow> 'l \<Rightarrow> nat set" where
  "owners s l = {c. transit s l c \<or> lcpu (lks (mach s) l) = Some c}"

definition mutex_inv :: "'l mp \<Rightarrow> bool" where
  "mutex_inv s \<longleftrightarrow> (\<forall>l.
     (\<forall>c d. transit s l c \<longrightarrow> transit s l d \<longrightarrow> c = d) \<and>
     (\<forall>c. transit s l c \<longrightarrow> lcpu (lks (mach s) l) = None \<and> locked (lks (mach s) l)) \<and>
     (lcpu (lks (mach s) l) \<noteq> None \<longrightarrow> locked (lks (mach s) l)))"

lemma lks_push_off [simp]: "lks (push_off c m) = lks m"
  by (simp add: push_off_def intr_defs Let_def)

lemma lks_pop_off: "pop_off c m = Inr m' \<Longrightarrow> lks m' = lks m"
  by (auto simp: pop_off_def intr_defs Let_def split: if_splits)

lemma transit_upd:
  "transit (s\<lparr>mach := m, pcs := (pcs s)(c := p)\<rparr>) l d \<longleftrightarrow>
     (if d = c then p = Swapped l \<or> p = Clearing l else transit s l d)"
  by (simp add: transit_def)

lemma lks_upd_lock: "lks (upd_lock k f m) l = (if l = k then f (lks m l) else lks m l)"
  by (simp add: upd_lock_def)

lemma mutex_inv_step: "spin_step s t \<Longrightarrow> mutex_inv s \<Longrightarrow> mutex_inv t"
proof (induction rule: spin_step.induct)
  case (call_acquire s c k)
  then show ?case by (auto simp: mutex_inv_def transit_upd)
next
  case (swap_busy s c k)
  then show ?case by simp
next
  case (swap_free s c k)
  then have "\<And>d. \<not> transit s k d" "lcpu (lks (mach s) k) = None" by (auto simp: mutex_inv_def)
  with swap_free.prems show ?case by (simp add: mutex_inv_def transit_upd lks_upd_lock) blast
next
  case (record_cpu s c k)
  then have "\<And>d. transit s k d \<Longrightarrow> d = c" "locked (lks (mach s) k)"
    by (auto simp: mutex_inv_def transit_def)
  with record_cpu.prems show ?case by (simp add: mutex_inv_def transit_upd lks_upd_lock) blast
next
  case (call_release s c k)
  then have "\<And>d. \<not> transit s k d" "locked (lks (mach s) k)"
    by (auto simp: mutex_inv_def holding_def)
  with call_release.prems show ?case by (simp add: mutex_inv_def transit_upd lks_upd_lock) blast
next
  case (clear s c k m)
  then have "\<And>d. transit s k d \<Longrightarrow> d = c" "lcpu (lks (mach s) k) = None"
    by (auto simp: mutex_inv_def transit_def)
  with clear.prems show ?case
    by (simp add: mutex_inv_def transit_upd lks_pop_off [OF clear.hyps(2)] lks_upd_lock) blast
qed

lemma mutex_inv_reach: "spin_reach s \<Longrightarrow> mutex_inv s"
proof (induction rule: spin_reach.induct)
  case boot
  show ?case by (simp add: mutex_inv_def boot_mp_def transit_def)
next
  case (step s t)
  then show ?case by (blast intro: mutex_inv_step)
qed

section \<open>Properties\<close>

text \<open>C13: Mutual exclusion. In every state the CPUs can reach by interleaving the steps of
  \<open>acquire\<close> and \<open>release\<close>, a lock has at most one owner, a lock with an owner is marked
  locked, and \<open>holding\<close> is true on no CPU but that owner.\<close>

theorem spinlock_mutual_exclusion:
  assumes "spin_reach s" "c \<in> owners s l" "d \<in> owners s l"
  shows "c = d \<and> locked (lks (mach s) l) \<and> (\<forall>e. holding e l (mach s) \<longrightarrow> e = c)"
  using mutex_inv_reach [OF assms(1)] assms(2,3)
  by (auto simp: mutex_inv_def owners_def holding_def)

theorem spinlock_mutual_exclusion_witness:
  "\<exists>s :: lock mp. spin_reach s \<and> 3 \<in> owners s WaitLock \<and> locked (lks (mach s) WaitLock)"
proof -
  let ?s1 = "(boot_mp :: lock mp)\<lparr>mach := push_off 3 (mach boot_mp),
      pcs := (pcs boot_mp)(3 := Spinning WaitLock)\<rparr>"
  let ?s2 = "?s1\<lparr>mach := upd_lock WaitLock (\<lambda>k. k\<lparr>locked := True\<rparr>) (mach ?s1),
      pcs := (pcs ?s1)(3 := Swapped WaitLock)\<rparr>"
  have "spin_step boot_mp ?s1"
    by (rule spin_step.call_acquire) (simp_all add: boot_mp_def holding_def)
  then have s1: "spin_reach ?s1" by (rule spin_reach.step [OF spin_reach.boot])
  have "spin_step ?s1 ?s2"
    by (rule spin_step.swap_free) (simp_all add: boot_mp_def)
  with s1 have s2: "spin_reach ?s2" by (rule spin_reach.step)
  have own: "3 \<in> owners ?s2 WaitLock" by (simp add: owners_def transit_def)
  with spinlock_mutual_exclusion [OF s2 own own] s2 show ?thesis by blast
qed



text \<open>C30: The list of held locks that the components keep refines the spinlocks: with the
  same locks held, \<open>acquire\<close> and \<open>release\<close> panic exactly where the list operations do and
  otherwise lead to related states, nesting depth included.\<close>

theorem held_locks_refine:
  assumes "hold_rel c m hs"
  shows "(case lk_release l hs of
            Inl e \<Rightarrow> release c l m = Inl e
          | Inr hs' \<Rightarrow> \<exists>m'. release c l m = Inr m' \<and> hold_rel c m' hs') \<and>
         (acquire c l m \<noteq> Inl (Spin (lname (lks m l))) \<longrightarrow>
          (case lk_acquire l hs of
             Inl e \<Rightarrow> acquire c l m = Inl e
           | Inr hs' \<Rightarrow> \<exists>m'. acquire c l m = Inr m' \<and> hold_rel c m' hs'))"
  using release_refines [OF assms] acquire_refines [OF assms] by blast

theorem held_locks_refine_witness:
  "\<exists>m'. acquire 0 WaitLock (mach boot_mp) = Inr m' \<and> hold_rel 0 m' [WaitLock]"
proof -
  have h: "hold_rel 0 (mach boot_mp) []"
    by (auto simp: hold_rel_def hart_ok_def irq_ok_def boot_mp_def owned_by_def holding_def)
  have "acquire 0 WaitLock (mach boot_mp) \<noteq> Inl (Spin (lname (lks (mach boot_mp) WaitLock)))"
    by (simp add: acquire_def boot_mp_def holding_def)
  with held_locks_refine [OF h, of WaitLock] show ?thesis by (simp add: lk_acquire_def)
qed

end
