(* ===== verification/Kalloc.thy ===== *)
theory Kalloc
  imports KString Spinlock
begin

text \<open>
  \<^verbatim>\<open>kernel/kalloc.c\<close>: the physical page allocator. The free list is the linked list the
  code keeps: \<open>kmem.freelist\<close> and, in the first eight bytes of each free page, the pointer
  to the next one. Memory is byte-addressed and little-endian. The linker symbol \<open>end\<close> is
  the field \<open>kend\<close>.
\<close>

section \<open>Machine words in memory\<close>

definition bytes_of :: "nat \<Rightarrow> u64 \<Rightarrow> u8 list" where
  "bytes_of n v = map (\<lambda>i. ucast (drop_bit (8 * i) v)) [0..<n]"

definition word_of :: "u8 list \<Rightarrow> u64" where
  "word_of bs = foldr (\<lambda>b w. or (push_bit 8 w) (ucast b)) bs 0"

definition load64 :: "mem \<Rightarrow> u64 \<Rightarrow> u64" where
  "load64 m a = word_of (bytes m a 8)"

fun store_bytes :: "mem \<Rightarrow> u64 \<Rightarrow> u8 list \<Rightarrow> mem" where
  "store_bytes m a [] = m"
| "store_bytes m a (b # bs) = store_bytes (m(a := b)) (a + 1) bs"

definition store64 :: "mem \<Rightarrow> u64 \<Rightarrow> u64 \<Rightarrow> mem" where
  "store64 m a v = store_bytes m a (bytes_of 8 v)"

lemma length_bytes_of [simp]: "length (bytes_of n v) = n"
  by (simp add: bytes_of_def)

lemma bytes_of_Suc: "bytes_of (Suc n) v = ucast v # bytes_of n (drop_bit 8 v)"
proof -
  have "[0..<Suc n] = 0 # map Suc [0..<n]"
    by (simp add: map_Suc_upt upt_conv_Cons del: upt_Suc)
  then show ?thesis by (simp add: bytes_of_def add.commute del: upt_Suc)
qed

lemma word_of_bytes_of: "word_of (bytes_of n v) = take_bit (8 * n) v"
proof (induction n arbitrary: v)
  case 0
  then show ?case by (simp add: bytes_of_def word_of_def)
next
  case (Suc n)
  have "word_of (bytes_of (Suc n) v) = or (push_bit 8 (word_of (bytes_of n (drop_bit 8 v)))) (ucast (ucast v :: u8))"
    by (simp add: bytes_of_Suc word_of_def)
  also have "\<dots> = take_bit (8 * Suc n) v"
    unfolding Suc.IH by (rule bit_word_eqI) (auto simp: bit_simps)
  finally show ?case .
qed

lemma store_bytes_outside:
  "\<not> in_range a (length bs) x \<Longrightarrow> length bs < 2 ^ 64 \<Longrightarrow> store_bytes m a bs x = m x"
proof (induction bs arbitrary: m a)
  case Nil
  then show ?case by simp
next
  case (Cons b bs)
  then have "\<not> in_range (a + 1) (length bs) x" "x \<noteq> a" by (auto simp: in_range_Suc)
  with Cons.prems(2) have "store_bytes (m(a := b)) (a + 1) bs x = (m(a := b)) x"
    by (intro Cons.IH) simp_all
  with \<open>x \<noteq> a\<close> show ?case by simp
qed

lemma bytes_store_bytes: "length bs < 2 ^ 64 \<Longrightarrow> bytes (store_bytes m a bs) a (length bs) = bs"
proof (induction bs arbitrary: m a)
  case Nil
  then show ?case by (simp add: bytes_def)
next
  case (Cons b bs)
  then have "\<not> in_range (a + 1) (length bs) a" by (intro range_after) simp
  with Cons show ?case by (simp add: bytes_Suc store_bytes_outside)
qed

lemma load64_store64 [simp]: "load64 (store64 m a v) a = v"
proof -
  have "bytes (store64 m a v) a 8 = bytes_of 8 v"
    using bytes_store_bytes [of "bytes_of 8 v" m a] by (simp add: store64_def)
  then show ?thesis by (simp add: load64_def word_of_bytes_of take_bit_word_eq_self)
qed

lemma store64_outside: "\<not> in_range a 8 x \<Longrightarrow> store64 m a v x = m x"
  using store_bytes_outside [of a "bytes_of 8 v"] by (simp add: store64_def)

lemma load64_cong: "(\<And>i. i < 8 \<Longrightarrow> m (a + of_nat i) = m' (a + of_nat i)) \<Longrightarrow> load64 m a = load64 m' a"
  unfolding load64_def by (rule arg_cong [where f = word_of]) (simp add: bytes_eq_iff)

section \<open>Pages\<close>

abbreviation PGSIZE :: u64 where "PGSIZE \<equiv> 4096"
abbreviation KERNBASE :: u64 where "KERNBASE \<equiv> 0x80000000"
abbreviation PHYSTOP :: u64 where "PHYSTOP \<equiv> KERNBASE + 128 * 1024 * 1024"

definition PGROUNDUP :: "u64 \<Rightarrow> u64" where
  "PGROUNDUP sz = and (sz + PGSIZE - 1) (not (PGSIZE - 1))"

definition PGROUNDDOWN :: "u64 \<Rightarrow> u64" where
  "PGROUNDDOWN a = and a (not (PGSIZE - 1))"

record memory = hart +
  pmem :: mem
  freelist :: u64
  kend :: u64

definition kfree :: "u64 \<Rightarrow> 'a memory_scheme \<Rightarrow> stop + 'a memory_scheme" where
  "kfree pa s =
     (if pa mod PGSIZE \<noteq> 0 \<or> pa < kend s \<or> PHYSTOP \<le> pa then Inl (Panic ''kfree'')
      else
        let s = s\<lparr>pmem := memset pa 1 4096 (pmem s)\<rparr>
        in bindE (lacquire KmemLock s) (\<lambda>s.
           let s = s\<lparr>pmem := store64 (pmem s) pa (freelist s)\<rparr>;
               s = s\<lparr>freelist := pa\<rparr>
           in lrelease KmemLock s))"

definition kalloc :: "'a memory_scheme \<Rightarrow> stop + u64 \<times> 'a memory_scheme" where
  "kalloc s =
     bindE (lacquire KmemLock s) (\<lambda>s.
     let r = freelist s;
         s = (if r \<noteq> 0 then s\<lparr>freelist := load64 (pmem s) r\<rparr> else s)
     in bindE (lrelease KmemLock s) (\<lambda>s.
        Inr (r, if r \<noteq> 0 then s\<lparr>pmem := memset r 5 4096 (pmem s)\<rparr> else s)))"

text \<open>
  \<open>freerange\<close> frees the pages from \<open>p\<close> on while a whole page fits below \<open>pa_end\<close>. It
  terminates because \<open>kfree\<close> panics at \<open>PHYSTOP\<close>.
\<close>

lemma kfree_InrD:
  "kfree pa s = Inr t \<Longrightarrow> pa mod PGSIZE = 0 \<and> kend s \<le> pa \<and> pa < PHYSTOP"
  by (auto simp: kfree_def split: if_splits)

function freerange_loop :: "u64 \<Rightarrow> u64 \<Rightarrow> 'a memory_scheme \<Rightarrow> stop + 'a memory_scheme" where
  "freerange_loop p pa_end s =
     (if p + PGSIZE \<le> pa_end then bindE (kfree p s) (freerange_loop (p + PGSIZE) pa_end) else Inr s)"
  by pat_completeness auto
termination
proof (relation "measure (\<lambda>(p, pa_end, s). unat (PHYSTOP + PGSIZE) - unat p)")
  fix p pa_end :: u64 and s t :: "'a memory_scheme"
  assume "kfree p s = Inr t"
  then have "p < PHYSTOP" using kfree_InrD by blast
  then have "unat p < unat PHYSTOP" by (simp only: word_less_nat_alt)
  moreover from this have "unat (p + PGSIZE) = unat p + 4096"
    by (subst unat_add_lt) simp_all
  ultimately show "((p + PGSIZE, pa_end, t), p, pa_end, s) \<in> measure (\<lambda>(p, pa_end, s). unat (PHYSTOP + PGSIZE) - unat p)"
    by simp
qed simp

declare freerange_loop.simps [simp del]

definition freerange :: "u64 \<Rightarrow> u64 \<Rightarrow> 'a memory_scheme \<Rightarrow> stop + 'a memory_scheme" where
  "freerange pa_start pa_end s = freerange_loop (PGROUNDUP pa_start) pa_end s"

definition kinit :: "'a memory_scheme \<Rightarrow> stop + 'a memory_scheme" where
  "kinit s = freerange (kend s) PHYSTOP s"

section \<open>The free list\<close>

text \<open>\<open>page_chain m a xs\<close>: following \<open>next\<close> pointers from \<open>a\<close> visits the pages \<open>xs\<close>.\<close>

fun page_chain :: "mem \<Rightarrow> u64 \<Rightarrow> u64 list \<Rightarrow> bool" where
  "page_chain m a [] \<longleftrightarrow> a = 0"
| "page_chain m a (x # xs) \<longleftrightarrow> a = x \<and> x \<noteq> 0 \<and> page_chain m (load64 m x) xs"

definition page_ok :: "u64 \<Rightarrow> u64 \<Rightarrow> bool" where
  "page_ok e pa \<longleftrightarrow> pa mod PGSIZE = 0 \<and> e \<le> pa \<and> pa < PHYSTOP"

definition free_list :: "'a memory_scheme \<Rightarrow> u64 list \<Rightarrow> bool" where
  "free_list s xs \<longleftrightarrow> page_chain (pmem s) (freelist s) xs \<and> distinct xs \<and>
     (\<forall>x \<in> set xs. page_ok (kend s) x) \<and> 0 < kend s"

text \<open>Two page-aligned addresses are equal or their pages are disjoint.\<close>

lemma aligned_unat: "(p::u64) mod PGSIZE = 0 \<longleftrightarrow> unat p mod 4096 = 0"
  by (simp add: unat_mod word_unat_eq_iff)

lemma aligned_page: "(p::u64) mod PGSIZE = 0 \<Longrightarrow> \<exists>k. unat p = 4096 * k \<and> k < 2 ^ 52"
proof -
  assume "p mod PGSIZE = 0"
  then obtain k where k: "unat p = 4096 * k" by (auto simp: aligned_unat elim: dvdE)
  moreover have "unat p < 2 ^ 64" using unsigned_less [of p, where 'a = nat] by simp
  ultimately show ?thesis by auto
qed

lemma aligned_offset:
  assumes "(p::u64) mod PGSIZE = 0" "i < 4096"
  shows "unat (p + of_nat i) = unat p + i"
proof (rule unat_add_of_nat)
  obtain k where "unat p = 4096 * k" "k < 2 ^ 52" using aligned_page [OF assms(1)] by blast
  then show "unat p + i < 2 ^ LENGTH(64)" using assms(2) by simp
qed

lemma aligned_pages_disjoint:
  fixes p q x :: u64
  assumes "p mod PGSIZE = 0" "q mod PGSIZE = 0" "in_range p 4096 x" "in_range q 4096 x"
  shows "p = q"
proof -
  obtain i j where x: "i < 4096" "x = p + of_nat i" "j < 4096" "x = q + of_nat j"
    using assms(3,4) by (auto dest!: in_range_ex)
  have "unat p + i = unat q + j"
    using aligned_offset [OF assms(1) x(1)] aligned_offset [OF assms(2) x(3)] x(2,4) by simp
  moreover obtain k l where kl: "unat p = 4096 * k" "unat q = 4096 * l"
    using aligned_page [OF assms(1)] aligned_page [OF assms(2)] by blast
  ultimately have "(4096 * k + i) div 4096 = (4096 * l + j) div 4096" by simp
  then have "unat p = unat q" using x(1,3) kl by simp
  then show ?thesis by (simp add: word_unat_eq_iff)
qed

lemma page_head: "i < 8 \<Longrightarrow> in_range a 4096 (a + of_nat i)" "in_range a 8 x \<Longrightarrow> in_range a 4096 x"
  by (simp_all add: in_range_def unat_of_nat_lt)

text \<open>Memory that agrees outside one page keeps the chains that avoid that page.\<close>

lemma free_chain_cong:
  assumes "\<And>x. \<not> in_range p 4096 x \<Longrightarrow> m' x = m x" "p mod PGSIZE = 0"
    and "\<forall>x \<in> set xs. x mod PGSIZE = 0 \<and> x \<noteq> p"
  shows "page_chain m' a xs = page_chain m a xs"
  using assms(3)
proof (induction xs arbitrary: a)
  case Nil
  then show ?case by simp
next
  case (Cons x xs)
  have "load64 m' x = load64 m x"
  proof (rule load64_cong)
    fix i :: nat
    assume "i < 8"
    then have "\<not> in_range p 4096 (x + of_nat i)"
      using aligned_pages_disjoint [OF assms(2), of x] page_head(1) [of i x] Cons.prems by auto
    then show "m' (x + of_nat i) = m (x + of_nat i)" by (rule assms(1))
  qed
  with Cons show ?case by simp
qed

lemma memset_page: "memset p c 4096 m x = (if in_range p 4096 x then ucast c else m x)"
  by (simp add: memset_eq)

lemma kfree_ok:
  assumes "free_list s xs" "page_ok (kend s) pa" "pa \<notin> set xs" "KmemLock \<notin> set (held s)"
  shows "\<exists>s'. kfree pa s = Inr s' \<and> free_list s' (pa # xs) \<and>
    (\<forall>x. \<not> in_range pa 4096 x \<longrightarrow> pmem s' x = pmem s x) \<and>
    held s' = held s \<and> kend s' = kend s \<and> memory.more s' = memory.more s"
proof -
  let ?m = "store64 (memset pa 1 4096 (pmem s)) pa (freelist s)"
  let ?s' = "s\<lparr>pmem := ?m, freelist := pa\<rparr>"
  have al: "pa mod PGSIZE = 0" using assms(2) by (simp add: page_ok_def)
  have out: "?m x = pmem s x" if "\<not> in_range pa 4096 x" for x
  proof -
    have "\<not> in_range pa 8 x" using that page_head(2) by blast
    then show ?thesis using that by (simp add: store64_outside memset_page)
  qed
  have "kfree pa s = Inr ?s'"
    using assms(2,4) by (auto simp: kfree_def page_ok_def lock_simps)
  moreover have "page_chain ?m (freelist s) xs = page_chain (pmem s) (freelist s) xs"
    using assms(1,3) by (intro free_chain_cong [OF out al]) (auto simp: free_list_def page_ok_def)
  moreover have "pa \<noteq> 0" using assms(1,2) by (auto simp: free_list_def page_ok_def)
  ultimately show ?thesis
    using assms out by (intro exI [of _ ?s']) (auto simp: free_list_def)
qed

lemma kalloc_empty:
  assumes "free_list s []" "KmemLock \<notin> set (held s)"
  shows "kalloc s = Inr (0, s)"
  using assms by (simp add: kalloc_def lock_simps free_list_def)

lemma kalloc_page:
  assumes "free_list s (r # xs)" "KmemLock \<notin> set (held s)"
  shows "\<exists>s'. kalloc s = Inr (r, s') \<and> free_list s' xs \<and>
    (\<forall>x. pmem s' x = (if in_range r 4096 x then 5 else pmem s x)) \<and>
    held s' = held s \<and> kend s' = kend s \<and> memory.more s' = memory.more s"
proof -
  let ?m = "memset r 5 4096 (pmem s)"
  let ?s' = "s\<lparr>pmem := ?m, freelist := load64 (pmem s) r\<rparr>"
  have r: "freelist s = r" "r \<noteq> 0" "r mod PGSIZE = 0"
    using assms(1) by (auto simp: free_list_def page_ok_def)
  have "kalloc s = Inr (r, ?s')"
    using assms(2) r by (simp add: kalloc_def lock_simps)
  moreover have "page_chain ?m (load64 (pmem s) r) xs = page_chain (pmem s) (load64 (pmem s) r) xs"
    using assms(1) by (intro free_chain_cong [of r]) (auto simp: memset_page r free_list_def page_ok_def)
  ultimately show ?thesis
    using assms(1) by (intro exI [of _ ?s']) (auto simp: free_list_def memset_page)
qed

section \<open>The allocator's contract\<close>

text \<open>
  What the page tables, the process table and the pipes rely on: \<open>alloc\<close> hands out a page
  that was free and is not null, or 0 when there is none; \<open>free\<close> gives a page back.
\<close>

fun alloc_many :: "('s \<Rightarrow> stop + u64 \<times> 's) \<Rightarrow> nat \<Rightarrow> 's \<Rightarrow> stop + u64 list \<times> 's" where
  "alloc_many alloc 0 s = Inr ([], s)"
| "alloc_many alloc (Suc n) s =
     bindE (alloc s) (\<lambda>(p, s). bindE (alloc_many alloc n s) (\<lambda>(ps, s). Inr (p # ps, s)))"

locale page_allocator =
  fixes alloc :: "'s \<Rightarrow> stop + u64 \<times> 's"
    and free :: "u64 \<Rightarrow> 's \<Rightarrow> stop + 's"
    and pool :: "'s \<Rightarrow> u64 list \<Rightarrow> bool"
    and usable :: "'s \<Rightarrow> u64 \<Rightarrow> bool"
    and ready :: "'s \<Rightarrow> bool"
  assumes alloc_none: "ready s \<Longrightarrow> pool s [] \<Longrightarrow> alloc s = Inr (0, s)"
    and alloc_some: "ready s \<Longrightarrow> pool s (p # ps) \<Longrightarrow>
      \<exists>s'. alloc s = Inr (p, s') \<and> pool s' ps \<and> ready s' \<and> (\<forall>q. usable s' q = usable s q)"
    and free_page: "ready s \<Longrightarrow> pool s ps \<Longrightarrow> usable s p \<Longrightarrow> p \<notin> set ps \<Longrightarrow>
      \<exists>s'. free p s = Inr s' \<and> pool s' (p # ps) \<and> ready s' \<and> (\<forall>q. usable s' q = usable s q)"
    and pool_sane: "pool s ps \<Longrightarrow> distinct ps \<and> 0 \<notin> set ps \<and> (\<forall>p \<in> set ps. usable s p)"
begin

lemma alloc_many_pool:
  "ready s \<Longrightarrow> pool s ps \<Longrightarrow> n \<le> length ps \<Longrightarrow>
   \<exists>s'. alloc_many alloc n s = Inr (take n ps, s') \<and> pool s' (drop n ps) \<and> ready s'"
proof (induction n arbitrary: s ps)
  case 0
  then show ?case by simp
next
  case (Suc n)
  then obtain p qs where ps: "ps = p # qs" by (cases ps) auto
  with Suc.prems alloc_some [of s p qs] obtain s1
    where "alloc s = Inr (p, s1)" "pool s1 qs" "ready s1" by auto
  with Suc.IH [of s1 qs] Suc.prems ps show ?case by auto
qed

lemma alloc_many_distinct:
  assumes "ready s" "pool s ps" "n \<le> length ps"
  shows "\<exists>qs s'. alloc_many alloc n s = Inr (qs, s') \<and> length qs = n \<and> distinct qs \<and> 0 \<notin> set qs \<and>
    (\<forall>q \<in> set qs. usable s q)"
proof -
  from alloc_many_pool [OF assms] obtain s' where "alloc_many alloc n s = Inr (take n ps, s')" by blast
  moreover have "distinct (take n ps)" "0 \<notin> set (take n ps)" "\<forall>q \<in> set (take n ps). usable s q"
    using pool_sane [OF assms(2)] by (auto dest: in_set_takeD)
  ultimately show ?thesis using assms(3) by auto
qed

lemma free_then_alloc:
  assumes "ready s" "pool s ps" "usable s p" "p \<notin> set ps"
  shows "\<exists>s1 s2. free p s = Inr s1 \<and> alloc s1 = Inr (p, s2) \<and> pool s2 ps"
  using free_page [OF assms] alloc_some by blast

end

interpretation km: page_allocator kalloc kfree free_list "\<lambda>s. page_ok (kend s)" "\<lambda>s. KmemLock \<notin> set (held s)"
proof
  show "\<And>s :: 'a memory_scheme. KmemLock \<notin> set (held s) \<Longrightarrow> free_list s [] \<Longrightarrow> kalloc s = Inr (0, s)"
    by (rule kalloc_empty)
next
  fix s :: "'a memory_scheme" and p ps
  assume "KmemLock \<notin> set (held s)" "free_list s (p # ps)"
  from kalloc_page [OF this(2,1)] this(1) show "\<exists>s'. kalloc s = Inr (p, s') \<and> free_list s' ps \<and>
      KmemLock \<notin> set (held s') \<and> (\<forall>q. page_ok (kend s') q = page_ok (kend s) q)"
    by auto
next
  fix s :: "'a memory_scheme" and p ps
  assume "KmemLock \<notin> set (held s)" "free_list s ps" "page_ok (kend s) p" "p \<notin> set ps"
  from kfree_ok [OF this(2-4,1)] this(1) show "\<exists>s'. kfree p s = Inr s' \<and> free_list s' (p # ps) \<and>
      KmemLock \<notin> set (held s') \<and> (\<forall>q. page_ok (kend s') q = page_ok (kend s) q)"
    by auto
next
  fix s :: "'a memory_scheme" and ps
  assume "free_list s ps"
  then show "distinct ps \<and> 0 \<notin> set ps \<and> (\<forall>p \<in> set ps. page_ok (kend s) p)"
    by (auto simp: free_list_def page_ok_def)
qed

section \<open>Building the free list at boot\<close>

lemma and_not_mask: "and (x::'a::len word) (not (mask n)) = push_bit n (drop_bit n x)"
  by (rule bit_word_eqI) (auto simp: bit_simps)

lemma unat_PGROUNDDOWN: "unat (PGROUNDDOWN a) = unat a div 4096 * 4096"
proof -
  have "PGROUNDDOWN a = push_bit 12 (drop_bit 12 a)"
    unfolding PGROUNDDOWN_def using and_not_mask [of a 12] by (simp add: mask_eq_exp_minus_1)
  also have "unat \<dots> = unat (drop_bit 12 a * 4096)"
    by (simp add: push_bit_eq_mult)
  also have "\<dots> = unat (drop_bit 12 a) * 4096"
  proof -
    have "unat (drop_bit 12 a) = unat a div 4096" by (simp add: drop_bit_eq_div unat_div)
    moreover have "unat a div 4096 * 4096 < 2 ^ 64"
      using unsigned_less [of a, where 'a = nat] by simp
    ultimately show ?thesis by (subst unat_mult_lem [THEN iffD1]) simp_all
  qed
  finally show ?thesis by (simp add: drop_bit_eq_div unat_div)
qed

lemma PGROUNDUP_DOWN: "PGROUNDUP a = PGROUNDDOWN (a + 4095)"
  by (simp add: PGROUNDUP_def PGROUNDDOWN_def add_diff_eq [symmetric])

lemma unat_PGROUNDUP:
  "unat a + 4095 < 2 ^ 64 \<Longrightarrow> unat (PGROUNDUP a) = (unat a + 4095) div 4096 * 4096"
  by (simp add: PGROUNDUP_DOWN unat_PGROUNDDOWN unat_add_lt)

definition pages_from :: "u64 \<Rightarrow> nat \<Rightarrow> u64 list" where
  "pages_from p n = map (\<lambda>k. p + of_nat k * PGSIZE) [0..<n]"

lemma pages_from_Suc: "pages_from p (Suc n) = p # pages_from (p + PGSIZE) n"
proof -
  have "[0..<Suc n] = 0 # map Suc [0..<n]"
    by (simp add: map_Suc_upt upt_conv_Cons del: upt_Suc)
  then show ?thesis by (simp add: pages_from_def algebra_simps del: upt_Suc)
qed

lemma pages_from_all:
  assumes "e \<le> PHYSTOP" "page_ok e q"
  shows "q \<in> set (pages_from (PGROUNDUP e) ((unat PHYSTOP - unat (PGROUNDUP e)) div 4096))"
proof -
  have le: "unat e \<le> 2281701376" using assms(1) by (simp add: word_le_nat_alt)
  define i where "i = (unat e + 4095) div 4096"
  have up: "unat (PGROUNDUP e) = 4096 * i" using le unat_PGROUNDUP [of e] by (simp add: i_def)
  obtain j where j: "unat q = 4096 * j" using assms(2) aligned_page [of q] by (auto simp: page_ok_def)
  have "unat e \<le> 4096 * j" "4096 * j < 2281701376"
    using assms(2) j by (simp_all add: page_ok_def word_le_nat_alt word_less_nat_alt)
  then have ij: "i \<le> j" "j < 557056" by (simp_all add: i_def)
  have "unat (PGROUNDUP e + of_nat (j - i) * PGSIZE) = 4096 * i + (j - i) * 4096"
    using unat_add_of_nat [of "PGROUNDUP e" "(j - i) * 4096"] up ij by simp
  also have "\<dots> = unat q" using ij j by simp
  finally have "q = PGROUNDUP e + of_nat (j - i) * PGSIZE" by (simp add: word_unat_eq_iff)
  moreover have "j - i < (unat PHYSTOP - unat (PGROUNDUP e)) div 4096" using ij up by simp
  ultimately show ?thesis unfolding pages_from_def by auto
qed

lemma freerange_loop_ok:
  "free_list s xs \<Longrightarrow> KmemLock \<notin> set (held s) \<Longrightarrow> p mod PGSIZE = 0 \<Longrightarrow> kend s \<le> p \<Longrightarrow>
   unat p + 4096 * n = unat PHYSTOP \<Longrightarrow> (\<forall>x \<in> set xs. x < p) \<Longrightarrow>
   \<exists>s'. freerange_loop p PHYSTOP s = Inr s' \<and> free_list s' (rev (pages_from p n) @ xs) \<and> kend s' = kend s"
proof (induction n arbitrary: p s xs)
  case 0
  then have "\<not> p + PGSIZE \<le> PHYSTOP"
    by (simp add: word_le_nat_alt unat_add_lt)
  then have "freerange_loop p PHYSTOP s = Inr s"
    by (subst freerange_loop.simps) simp
  then show ?case using "0.prems"(1) by (simp add: pages_from_def)
next
  case (Suc n)
  have up: "unat (p + PGSIZE) = unat p + 4096" using Suc.prems(5) by (subst unat_add_lt) simp_all
  have lt: "p < PHYSTOP" "p + PGSIZE \<le> PHYSTOP" "p < p + PGSIZE"
    using Suc.prems(5) up by (simp_all add: word_less_nat_alt word_le_nat_alt)
  have "page_ok (kend s) p" using Suc.prems(3,4) lt by (simp add: page_ok_def)
  moreover have "p \<notin> set xs" using Suc.prems(6) by blast
  ultimately obtain s1 where s1: "kfree p s = Inr s1" "free_list s1 (p # xs)" "held s1 = held s" "kend s1 = kend s"
    using kfree_ok [OF Suc.prems(1)] Suc.prems(2) by blast
  have "(p + PGSIZE) mod PGSIZE = 0" using Suc.prems(3) up by (simp add: aligned_unat)
  moreover have "\<forall>x \<in> set (p # xs). x < p + PGSIZE" using Suc.prems(6) lt(3) by force
  moreover have "kend s1 \<le> p + PGSIZE" using Suc.prems(4) lt(3) s1(4) by force
  ultimately obtain s2 where "freerange_loop (p + PGSIZE) PHYSTOP s1 = Inr s2"
      "free_list s2 (rev (pages_from (p + PGSIZE) n) @ p # xs)" "kend s2 = kend s1"
    using Suc.IH [OF s1(2), of "p + PGSIZE"] Suc.prems(2,5) s1(3) up by auto
  then show ?case using s1(1,4) lt(2) by (subst freerange_loop.simps) (simp add: pages_from_Suc)
qed

lemma kinit_ok:
  assumes "freelist s = 0" "KmemLock \<notin> set (held s)" "0 < kend s" "kend s \<le> PHYSTOP"
  shows "\<exists>s'. kinit s = Inr s' \<and>
    free_list s' (rev (pages_from (PGROUNDUP (kend s)) ((unat PHYSTOP - unat (PGROUNDUP (kend s))) div 4096))) \<and>
    kend s' = kend s"
proof -
  let ?p = "PGROUNDUP (kend s)" and ?n = "(unat PHYSTOP - unat (PGROUNDUP (kend s))) div 4096"
  have le: "unat (kend s) \<le> 2281701376" using assms(4) by (simp add: word_le_nat_alt)
  have up: "unat ?p = (unat (kend s) + 4095) div 4096 * 4096" using le by (subst unat_PGROUNDUP) simp_all
  have "(unat (kend s) + 4095) div 4096 \<le> (2281701376 + 4095) div 4096"
    using le by (intro div_le_mono) simp
  then have top: "unat ?p \<le> 2281701376" using up by simp
  have "unat (kend s) \<le> (unat (kend s) + 4095) div 4096 * 4096"
    by linarith
  then have "kend s \<le> ?p" using up by (simp add: word_le_nat_alt)
  moreover have al: "?p mod PGSIZE = 0" using up by (simp add: aligned_unat)
  moreover have "unat ?p + 4096 * ?n = unat PHYSTOP"
  proof -
    have "4096 dvd 2281701376 - unat ?p" using up top by (intro dvd_diff_nat) simp_all
    then show ?thesis using top by simp
  qed
  moreover have "free_list s []" using assms by (simp add: free_list_def)
  ultimately show ?thesis
    using freerange_loop_ok [of s "[]" ?p ?n] assms(2) by (simp add: kinit_def freerange_def)
qed

section \<open>Properties\<close>

text \<open>C26: Allocated pages are never handed out twice: with at least \<open>n\<close> pages on the free list,
  \<open>n\<close> calls of \<open>kalloc\<close> return \<open>n\<close> different, non-null, page-aligned addresses of physical
  memory above the kernel image, and none of the calls fails or panics.\<close>

theorem kalloc_distinct_pages:
  assumes "free_list s ps" "KmemLock \<notin> set (held s)" "n \<le> length ps"
  shows "\<exists>qs s'. alloc_many kalloc n s = Inr (qs, s') \<and> length qs = n \<and> distinct qs \<and>
    (\<forall>q \<in> set qs. q \<noteq> 0 \<and> q mod PGSIZE = 0 \<and> kend s \<le> q \<and> q < PHYSTOP)"
  using km.alloc_many_distinct [OF assms(2,1,3)] by (fastforce simp: page_ok_def)

definition demo_memory :: memory where
  "demo_memory = \<lparr>held = [], pmem = (\<lambda>_. 0), freelist = 0x87fff000, kend = 0x80020000\<rparr>"

theorem kalloc_distinct_pages_witness:
  "\<exists>q s'. alloc_many kalloc 1 demo_memory = Inr ([q], s') \<and> q \<noteq> 0"
proof -
  have "load64 (\<lambda>_. 0) a = 0" for a
    by (simp add: load64_def word_of_def bytes_def upt_rec)
  then have "free_list demo_memory [0x87fff000]"
    by (simp add: demo_memory_def free_list_def page_ok_def)
  from kalloc_distinct_pages [OF this, of 1] show ?thesis
    by (auto simp: demo_memory_def length_Suc_conv)
qed

text \<open>C27: \<open>kfree\<close> puts the page at the head of the free list and \<open>kalloc\<close> takes it from there:
  freeing an allocated page and allocating again gives the same page back, and outside
  that page no byte of memory changes.\<close>

theorem kfree_kalloc_roundtrip:
  assumes "free_list s ps" "KmemLock \<notin> set (held s)" "page_ok (kend s) pa" "pa \<notin> set ps"
  shows "\<exists>s1 s2. kfree pa s = Inr s1 \<and> free_list s1 (pa # ps) \<and> kalloc s1 = Inr (pa, s2) \<and>
    free_list s2 ps \<and> (\<forall>x. \<not> in_range pa 4096 x \<longrightarrow> pmem s2 x = pmem s x)"
proof -
  from kfree_ok [OF assms(1,3,4,2)] obtain s1 where s1: "kfree pa s = Inr s1" "free_list s1 (pa # ps)"
    "\<forall>x. \<not> in_range pa 4096 x \<longrightarrow> pmem s1 x = pmem s x" "held s1 = held s" by blast
  with kalloc_page [of s1 pa ps] assms(2) show ?thesis by force
qed

theorem kfree_kalloc_roundtrip_witness:
  "\<exists>s1 s2. kfree 0x87ffe000 (demo_memory\<lparr>freelist := 0\<rparr>) = Inr s1 \<and> kalloc s1 = Inr (0x87ffe000, s2)"
proof -
  have "free_list (demo_memory\<lparr>freelist := 0\<rparr>) []" by (simp add: demo_memory_def free_list_def)
  then show ?thesis
    using kfree_kalloc_roundtrip [of "demo_memory\<lparr>freelist := 0\<rparr>" "[]" "0x87ffe000"]
    by (auto simp: demo_memory_def page_ok_def)
qed

text \<open>C28: At boot \<open>kinit\<close> terminates without a panic and leaves every whole page between
  \<open>end\<close> and \<open>PHYSTOP\<close> on the free list, each exactly once.\<close>

theorem kinit_frees_all_pages:
  assumes "freelist s = 0" "KmemLock \<notin> set (held s)" "0 < kend s" "kend s \<le> PHYSTOP"
  shows "\<exists>s' ps. kinit s = Inr s' \<and> free_list s' ps \<and> distinct ps \<and>
    set ps = {q. q mod PGSIZE = 0 \<and> kend s \<le> q \<and> q < PHYSTOP}"
proof -
  define ps where "ps = pages_from (PGROUNDUP (kend s)) ((unat PHYSTOP - unat (PGROUNDUP (kend s))) div 4096)"
  from kinit_ok [OF assms] obtain s' where s': "kinit s = Inr s'" "free_list s' (rev ps)" "kend s' = kend s"
    unfolding ps_def by blast
  have "q \<in> set ps" if "page_ok (kend s) q" for q
    unfolding ps_def by (rule pages_from_all [OF assms(4) that])
  moreover have "page_ok (kend s) q" if "q \<in> set ps" for q
    using s'(2,3) that by (simp add: free_list_def)
  ultimately have "set (rev ps) = {q. page_ok (kend s) q}" by auto
  then have "set (rev ps) = {q. q mod PGSIZE = 0 \<and> kend s \<le> q \<and> q < PHYSTOP}"
    by (simp only: page_ok_def)
  moreover have "distinct (rev ps)" using s'(2) by (simp add: free_list_def)
  ultimately show ?thesis using s' by blast
qed

theorem kinit_frees_all_pages_witness:
  "\<exists>s' ps. kinit (demo_memory\<lparr>freelist := 0\<rparr>) = Inr s' \<and> free_list s' ps \<and> 0x80020000 \<in> set ps"
proof -
  let ?s = "demo_memory\<lparr>freelist := 0\<rparr>"
  have "freelist ?s = 0" "KmemLock \<notin> set (held ?s)" "0 < kend ?s" "kend ?s \<le> PHYSTOP"
    by (simp_all add: demo_memory_def)
  from kinit_frees_all_pages [OF this] obtain s' ps where r: "kinit ?s = Inr s'" "free_list s' ps"
      "set ps = {q. q mod PGSIZE = 0 \<and> kend ?s \<le> q \<and> q < PHYSTOP}" by blast
  have "0x80020000 \<in> set ps" unfolding r(3) by (simp add: demo_memory_def)
  with r(1,2) show ?thesis by blast
qed

end
