(* ===== verification/Proc.thy ===== *)
theory Proc
  imports Kalloc
begin

text \<open>
  The process table of \<^verbatim>\<open>kernel/proc.c\<close> and the operations on it that need no page
  table: the scheduler with its four policies, \<open>sched\<close>, \<open>yield\<close>, \<open>sleep\<close>, \<open>wakeup\<close>,
  \<open>kill\<close>, \<open>set_priority\<close>, \<open>trace\<close> and the per-tick accounting. A \<open>struct proc *\<close> is an
  index into the table, null is \<^const>\<open>None\<close>. \<open>swtch\<close> leaves the path: what runs until
  control comes back (other processes, other CPUs, interrupts) is the parameter
  \<open>swtch\<close> of the functions that switch.
\<close>

section \<open>State\<close>

abbreviation NPROC :: nat where "NPROC \<equiv> 64"
abbreviation (input) NOFILE :: nat where "NOFILE \<equiv> 16"
abbreviation (input) QUANTUM :: c_int where "QUANTUM \<equiv> 5"
abbreviation (input) ALPHA :: c_int where "ALPHA \<equiv> 50"
abbreviation (input) TEST_HIGH_PRIORITY :: c_int where "TEST_HIGH_PRIORITY \<equiv> 1"
abbreviation (input) HIGH_PRIORITY :: c_int where "HIGH_PRIORITY \<equiv> 3"
abbreviation (input) NORMAL_PRIORITY :: c_int where "NORMAL_PRIORITY \<equiv> 5"
abbreviation (input) LOW_PRIORITY :: c_int where "LOW_PRIORITY \<equiv> 7"
abbreviation (input) TEST_LOW_PRIORITY :: c_int where "TEST_LOW_PRIORITY \<equiv> 25"
abbreviation (input) MAXVA :: u64 where "MAXVA \<equiv> 0x4000000000"
abbreviation (input) TRAMPOLINE :: u64 where "TRAMPOLINE \<equiv> MAXVA - PGSIZE"
abbreviation (input) TRAPFRAME :: u64 where "TRAPFRAME \<equiv> TRAMPOLINE - PGSIZE"

datatype procstate = UNUSED | USED | SLEEPING | RUNNABLE | RUNNING | ZOMBIE

text \<open>
  What a process can sleep on. The code uses the address of some object as the channel;
  different objects have different addresses.
\<close>

datatype wchan =
    ChProc nat | ChTicks | ChPipeRead u64 | ChPipeWrite u64 | ChLog | ChCons | ChUart
  | ChDiskFree | ChBuf nat | ChSleepLock slk_id

record ctx =
  ctx_ra :: u64
  ctx_sp :: u64
  ctx_s :: "nat \<Rightarrow> u64"

record proc =
  p_state :: procstate
  p_chan :: "wchan option"
  p_killed :: bool
  p_xstate :: c_int
  p_pid :: c_int
  p_mask :: c_int
  p_tickcounter :: c_int
  p_priority :: c_int
  p_ctime :: c_int
  p_ttime :: c_int
  p_stime :: c_int
  p_retime :: c_int
  p_rutime :: c_int
  p_average_bursttime :: c_int
  p_readyTime :: "64 word"
  p_runningTime :: "64 word"
  p_sleepTime :: "64 word"
  p_parent :: "nat option"
  p_kstack :: u64
  p_sz :: u64
  p_pagetable :: u64
  p_trapframe :: u64
  p_context :: ctx
  p_ofile :: "nat \<Rightarrow> nat option"
  p_cwd :: "nat option"
  p_name :: string

record pstate = memory +
  procs :: "nat \<Rightarrow> proc"
  nextpid :: c_int
  ticks :: u32
  initproc :: "nat option"
  cur :: "nat option"
  kout :: string
  pr_locking :: bool

definition upd_proc :: "nat \<Rightarrow> (proc \<Rightarrow> proc) \<Rightarrow> 'a pstate_scheme \<Rightarrow> 'a pstate_scheme" where
  "upd_proc p f s = s\<lparr>procs := (procs s)(p := f (procs s p))\<rparr>"

text \<open>
  \<open>myproc()\<close> may be null; dereferencing it faults, and a fault in the kernel ends in
  \<open>panic("kerneltrap")\<close>.
\<close>

definition myproc :: "'a pstate_scheme \<Rightarrow> stop + nat" where
  "myproc s = (case cur s of None \<Rightarrow> Inl (Panic ''kerneltrap'') | Some p \<Rightarrow> Inr p)"

definition with_proc :: "nat \<Rightarrow> (proc \<Rightarrow> proc) \<Rightarrow> 'a pstate_scheme \<Rightarrow> stop + 'a pstate_scheme" where
  "with_proc p f = with_lock lacquire lrelease (ProcLock p) (\<lambda>s. Inr (upd_proc p f s))"

section \<open>Boot and process ids\<close>

definition KSTACK :: "nat \<Rightarrow> u64" where
  "KSTACK p = TRAMPOLINE - (of_nat p + 1) * 2 * PGSIZE"

definition procinit :: "'a pstate_scheme \<Rightarrow> stop + 'a pstate_scheme" where
  "procinit s = foldE (\<lambda>p s. Inr (upd_proc p (\<lambda>r. r\<lparr>p_kstack := KSTACK p\<rparr>) s)) [0..<NPROC] s"

definition allocpid :: "'a pstate_scheme \<Rightarrow> stop + c_int \<times> 'a pstate_scheme" where
  "allocpid s =
     bindE (lacquire PidLock s) (\<lambda>s.
     let pid = nextpid s; s = s\<lparr>nextpid := nextpid s + 1\<rparr>
     in bindE (lrelease PidLock s) (\<lambda>s. Inr (pid, s)))"

section \<open>Choosing the next process\<close>

text \<open>
  FCFS, SRT and CFSD scan the whole table for the RUNNABLE process with the smallest key,
  keeping the lock of the best one found so far. They differ in the key they keep and in
  the comparison that lets a later process replace it.
\<close>

fun min_scan ::
  "(proc \<Rightarrow> 'k) \<Rightarrow> ('k \<Rightarrow> 'k \<Rightarrow> bool) \<Rightarrow> nat list \<Rightarrow> (nat \<times> 'k) option \<Rightarrow> 'a pstate_scheme \<Rightarrow>
   stop + (nat \<times> 'k) option \<times> 'a pstate_scheme" where
  "min_scan key better [] minP s = Inr (minP, s)"
| "min_scan key better (p # ps) minP s =
     bindE (lacquire (ProcLock p) s) (\<lambda>s.
     if p_state (procs s p) = RUNNABLE then
       (case minP of
          Some (q, kq) \<Rightarrow>
            if better (key (procs s p)) kq
            then bindE (lrelease (ProcLock q) s) (\<lambda>s.
                 min_scan key better ps (Some (p, key (procs s p))) s)
            else bindE (lrelease (ProcLock p) s) (min_scan key better ps minP)
        | None \<Rightarrow> min_scan key better ps (Some (p, key (procs s p))) s)
     else bindE (lrelease (ProcLock p) s) (min_scan key better ps minP))"

text \<open>FCFS compares \<open>readyTime\<close> (a \<open>long long\<close>), SRT \<open>average_bursttime\<close> (an \<open>int\<close>).\<close>

definition fcfs_better :: "64 word \<Rightarrow> 64 word \<Rightarrow> bool" where
  "fcfs_better a b \<longleftrightarrow> a <s b"

definition srt_better :: "c_int \<Rightarrow> c_int \<Rightarrow> bool" where
  "srt_better a b \<longleftrightarrow> a <s b"

text \<open>
  CFSD keeps the run-time ratio as a fraction \<open>rutime * priority / (rutime + stime)\<close> and
  compares fractions by cross-multiplying, in \<open>int\<close> arithmetic.
\<close>

definition rtt :: "proc \<Rightarrow> c_int \<times> c_int" where
  "rtt p = (p_rutime p * p_priority p, p_rutime p + p_stime p)"

definition cfsd_better :: "c_int \<times> c_int \<Rightarrow> c_int \<times> c_int \<Rightarrow> bool" where
  "cfsd_better r m = (case r of (up, down) \<Rightarrow> case m of (min_up, min_down) \<Rightarrow>
     up * min_down <s min_up * down)"

datatype policy = DEFAULT | FCFS | SRT | CFSD

definition min_pick :: "policy \<Rightarrow> 'a pstate_scheme \<Rightarrow> stop + nat option \<times> 'a pstate_scheme" where
  "min_pick pol s =
     (case pol of
        FCFS \<Rightarrow> bindE (min_scan p_readyTime fcfs_better [0..<NPROC] None s) (\<lambda>(m, s). Inr (map_option fst m, s))
      | SRT \<Rightarrow> bindE (min_scan p_average_bursttime srt_better [0..<NPROC] None s) (\<lambda>(m, s). Inr (map_option fst m, s))
      | CFSD \<Rightarrow> bindE (min_scan rtt cfsd_better [0..<NPROC] None s) (\<lambda>(m, s). Inr (map_option fst m, s))
      | DEFAULT \<Rightarrow> Inr (None, s))"

section \<open>Switching\<close>

definition update_burst :: "proc \<Rightarrow> proc" where
  "update_burst r = r\<lparr>p_average_bursttime :=
     (ALPHA * p_tickcounter r) + c_div ((100 - ALPHA) * p_average_bursttime r) 100\<rparr>"

text \<open>
  The scheduler's side of a switch: mark the process RUNNING, run it until it switches
  back, then update its burst estimate and drop its lock.
\<close>

definition dispatch ::
  "(nat \<Rightarrow> 'a pstate_scheme \<Rightarrow> stop + 'a pstate_scheme) \<Rightarrow> nat \<Rightarrow> 'a pstate_scheme \<Rightarrow> stop + 'a pstate_scheme" where
  "dispatch swtch p s =
     (let s = upd_proc p (\<lambda>r. r\<lparr>p_state := RUNNING, p_tickcounter := 0\<rparr>) s;
          s = s\<lparr>cur := Some p\<rparr>
      in bindE (swtch p s) (\<lambda>s.
         let s = upd_proc p update_burst s;
             s = s\<lparr>cur := None\<rparr>
         in lrelease (ProcLock p) s))"

definition scheduler_round ::
  "policy \<Rightarrow> (nat \<Rightarrow> 'a pstate_scheme \<Rightarrow> stop + 'a pstate_scheme) \<Rightarrow> 'a pstate_scheme \<Rightarrow> stop + 'a pstate_scheme" where
  "scheduler_round pol swtch s =
     (if pol = DEFAULT then
        foldE (\<lambda>p s. bindE (lacquire (ProcLock p) s) (\<lambda>s.
            if p_state (procs s p) \<noteq> RUNNABLE then lrelease (ProcLock p) s
            else dispatch swtch p s)) [0..<NPROC] s
      else bindE (min_pick pol s) (\<lambda>(m, s).
            case m of None \<Rightarrow> Inr s | Some p \<Rightarrow> dispatch swtch p s))"

text \<open>The scheduler never returns; \<open>scheduler n\<close> is its first \<open>n\<close> rounds.\<close>

fun scheduler ::
  "nat \<Rightarrow> policy \<Rightarrow> (nat \<Rightarrow> 'a pstate_scheme \<Rightarrow> stop + 'a pstate_scheme) \<Rightarrow> 'a pstate_scheme \<Rightarrow> stop + 'a pstate_scheme" where
  "scheduler 0 pol swtch s = Inr (s\<lparr>cur := None\<rparr>)"
| "scheduler (Suc n) pol swtch s = bindE (scheduler n pol swtch s) (scheduler_round pol swtch)"

text \<open>
  \<open>sched\<close>: the process's side. \<open>noff\<close> is the number of locks held, and interrupts are on
  only when none is.
\<close>

definition sched :: "('a pstate_scheme \<Rightarrow> stop + 'a pstate_scheme) \<Rightarrow> 'a pstate_scheme \<Rightarrow> stop + 'a pstate_scheme" where
  "sched swtch s =
     bindE (myproc s) (\<lambda>p.
     if \<not> lholding (ProcLock p) s then Inl (Panic ''sched p->lock'')
     else if length (held s) \<noteq> 1 then Inl (Panic ''sched locks'')
     else if p_state (procs s p) = RUNNING then Inl (Panic ''sched running'')
     else if held s = [] then Inl (Panic ''sched interruptible'')
     else swtch s)"

definition yield :: "('a pstate_scheme \<Rightarrow> stop + 'a pstate_scheme) \<Rightarrow> 'a pstate_scheme \<Rightarrow> stop + 'a pstate_scheme" where
  "yield swtch s =
     bindE (myproc s) (\<lambda>p.
     bindE (lacquire (ProcLock p) s) (\<lambda>s.
     let s = (if p_state (procs s p) \<noteq> RUNNABLE
              then upd_proc p (\<lambda>r. r\<lparr>p_readyTime := ucast (ticks s)\<rparr>) s else s);
         s = upd_proc p (\<lambda>r. r\<lparr>p_state := RUNNABLE\<rparr>) s
     in bindE (sched swtch s) (lrelease (ProcLock p))))"

definition sleep ::
  "('a pstate_scheme \<Rightarrow> stop + 'a pstate_scheme) \<Rightarrow> wchan \<Rightarrow> lock \<Rightarrow> 'a pstate_scheme \<Rightarrow> stop + 'a pstate_scheme" where
  "sleep swtch chan lk s =
     bindE (myproc s) (\<lambda>p.
     bindE (lacquire (ProcLock p) s) (\<lambda>s.
     bindE (lrelease lk s) (\<lambda>s.
     let s = upd_proc p (\<lambda>r. r\<lparr>p_chan := Some chan, p_sleepTime := ucast (ticks s), p_state := SLEEPING\<rparr>) s
     in bindE (sched swtch s) (\<lambda>s.
        let s = upd_proc p (\<lambda>r. r\<lparr>p_chan := None\<rparr>) s
        in bindE (lrelease (ProcLock p) s) (lacquire lk)))))"

definition wakeup :: "wchan option \<Rightarrow> 'a pstate_scheme \<Rightarrow> stop + 'a pstate_scheme" where
  "wakeup chan s =
     foldE (\<lambda>p s. if Some p = cur s then Inr s
        else with_proc p (\<lambda>r. if p_state r = SLEEPING \<and> p_chan r = chan
               then r\<lparr>p_state := RUNNABLE, p_readyTime := ucast (ticks s)\<rparr> else r) s) [0..<NPROC] s"

section \<open>System calls on the table\<close>

definition set_priority :: "c_int \<Rightarrow> 'a pstate_scheme \<Rightarrow> stop + c_int \<times> 'a pstate_scheme" where
  "set_priority prio s =
     (if prio \<noteq> TEST_HIGH_PRIORITY \<and> prio \<noteq> HIGH_PRIORITY \<and> prio \<noteq> NORMAL_PRIORITY \<and>
         prio \<noteq> LOW_PRIORITY \<and> prio \<noteq> TEST_LOW_PRIORITY then Inr (-1, s)
      else bindE (myproc s) (\<lambda>p.
           bindE (with_proc p (\<lambda>r. r\<lparr>p_priority := prio\<rparr>) s) (\<lambda>s. Inr (0, s))))"

definition trace :: "c_int \<Rightarrow> c_int \<Rightarrow> 'a pstate_scheme \<Rightarrow> stop + c_int \<times> 'a pstate_scheme" where
  "trace mask_input pid s =
     bindE (foldE (\<lambda>p. with_proc p (\<lambda>r. if p_pid r = pid then r\<lparr>p_mask := mask_input\<rparr> else r)) [0..<NPROC] s)
       (\<lambda>s. Inr (0, s))"

definition kill_one :: "c_int \<Rightarrow> nat \<Rightarrow> 'a pstate_scheme \<Rightarrow> stop + c_int option \<times> 'a pstate_scheme" where
  "kill_one pid p s =
     bindE (lacquire (ProcLock p) s) (\<lambda>s.
     if p_pid (procs s p) = pid then
       let s = upd_proc p (\<lambda>r. r\<lparr>p_killed := True\<rparr>) s;
           s = (if p_state (procs s p) = SLEEPING
                then upd_proc p (\<lambda>r. r\<lparr>p_state := RUNNABLE, p_readyTime := ucast (ticks s)\<rparr>) s else s)
       in bindE (lrelease (ProcLock p) s) (\<lambda>s. Inr (Some 0, s))
     else bindE (lrelease (ProcLock p) s) (\<lambda>s. Inr (None, s)))"

definition kill :: "c_int \<Rightarrow> 'a pstate_scheme \<Rightarrow> stop + c_int \<times> 'a pstate_scheme" where
  "kill pid s = bindE (scanE (kill_one pid) [0..<NPROC] s) (\<lambda>(r, s).
     Inr (case r of Some v \<Rightarrow> v | None \<Rightarrow> -1, s))"

section \<open>Accounting\<close>

text \<open>
  The file defines \<open>update_clock_ticks\<close> twice. The first definition also counts the ticks
  since the process was last switched in; \<open>update_clock_ticks_2\<close> is the second one, which
  does not.
\<close>

definition tick_proc :: "proc \<Rightarrow> proc" where
  "tick_proc r = (case p_state r of
       SLEEPING \<Rightarrow> r\<lparr>p_stime := p_stime r + 1\<rparr>
     | RUNNING \<Rightarrow> r\<lparr>p_tickcounter := p_tickcounter r + 1, p_rutime := p_rutime r + 1\<rparr>
     | RUNNABLE \<Rightarrow> r\<lparr>p_retime := p_retime r + 1\<rparr>
     | _ \<Rightarrow> r)"

definition update_clock_ticks :: "'a pstate_scheme \<Rightarrow> stop + 'a pstate_scheme" where
  "update_clock_ticks s = foldE (\<lambda>p. with_proc p tick_proc) [0..<NPROC] s"

definition tick_proc_2 :: "proc \<Rightarrow> proc" where
  "tick_proc_2 r = (case p_state r of
       SLEEPING \<Rightarrow> r\<lparr>p_stime := p_stime r + 1\<rparr>
     | RUNNING \<Rightarrow> r\<lparr>p_rutime := p_rutime r + 1\<rparr>
     | RUNNABLE \<Rightarrow> r\<lparr>p_retime := p_retime r + 1\<rparr>
     | _ \<Rightarrow> r)"

definition update_clock_ticks_2 :: "'a pstate_scheme \<Rightarrow> stop + 'a pstate_scheme" where
  "update_clock_ticks_2 s = foldE (\<lambda>p. with_proc p tick_proc_2) [0..<NPROC] s"

section \<open>The table as a whole\<close>

definition no_plocks :: "'a pstate_scheme \<Rightarrow> bool" where
  "no_plocks s \<longleftrightarrow> (\<forall>p < NPROC. ProcLock p \<notin> set (held s))"

definition table_map :: "(nat \<Rightarrow> proc \<Rightarrow> proc) \<Rightarrow> 'a pstate_scheme \<Rightarrow> 'a pstate_scheme" where
  "table_map f s = s\<lparr>procs := (\<lambda>p. if p < NPROC then f p (procs s p) else procs s p)\<rparr>"

lemma upd_proc_simps [simp]:
  "held (upd_proc p f s) = held s" "kend (upd_proc p f s) = kend s" "pmem (upd_proc p f s) = pmem s"
  "freelist (upd_proc p f s) = freelist s" "ticks (upd_proc p f s) = ticks s" "cur (upd_proc p f s) = cur s"
  "nextpid (upd_proc p f s) = nextpid s" "initproc (upd_proc p f s) = initproc s"
  "kout (upd_proc p f s) = kout s" "pr_locking (upd_proc p f s) = pr_locking s" "pstate.more (upd_proc p f s) = pstate.more s"
  "procs (upd_proc p f s) q = (if q = p then f (procs s p) else procs s q)"
  by (simp_all add: upd_proc_def)

lemma table_map_simps [simp]:
  "held (table_map f s) = held s" "kend (table_map f s) = kend s" "pmem (table_map f s) = pmem s"
  "freelist (table_map f s) = freelist s" "ticks (table_map f s) = ticks s" "cur (table_map f s) = cur s"
  "nextpid (table_map f s) = nextpid s" "initproc (table_map f s) = initproc s"
  "kout (table_map f s) = kout s" "pr_locking (table_map f s) = pr_locking s" "pstate.more (table_map f s) = pstate.more s"
  "procs (table_map f s) q = (if q < NPROC then f q (procs s q) else procs s q)"
  by (simp_all add: table_map_def)

lemma with_proc_eq [simp]:
  "ProcLock p \<notin> set (held s) \<Longrightarrow> with_proc p f s = Inr (upd_proc p f s)"
  unfolding with_proc_def by (rule with_lock_update) (simp_all add: upd_proc_def)

text \<open>A loop over the table whose body changes only the entry it visits.\<close>

lemma foldE_procs:
  assumes "distinct ps"
    and "\<And>p X. p \<in> set ps \<Longrightarrow> body p (s\<lparr>procs := X\<rparr>) = Inr (upd_proc p (f p) (s\<lparr>procs := X\<rparr>))"
  shows "foldE body ps (s\<lparr>procs := X\<rparr>) =
         Inr (s\<lparr>procs := (\<lambda>p. if p \<in> set ps then f p (X p) else X p)\<rparr>)"
  using assms
proof (induction ps arbitrary: X)
  case Nil
  then show ?case by simp
next
  case (Cons p ps)
  have "foldE body (p # ps) (s\<lparr>procs := X\<rparr>) = foldE body ps (s\<lparr>procs := X(p := f p (X p))\<rparr>)"
    using Cons.prems(2) [of p X] by (simp add: upd_proc_def)
  also have "\<dots> = Inr (s\<lparr>procs := (\<lambda>q. if q \<in> set ps then f q ((X(p := f p (X p))) q) else (X(p := f p (X p))) q)\<rparr>)"
    by (rule Cons.IH) (use Cons.prems in auto)
  also have "(\<lambda>q. if q \<in> set ps then f q ((X(p := f p (X p))) q) else (X(p := f p (X p))) q) =
             (\<lambda>q. if q \<in> set (p # ps) then f q (X q) else X q)"
    using Cons.prems(1) by (auto simp: fun_eq_iff)
  finally show ?case .
qed

lemma foldE_table:
  assumes "\<And>p X. p < NPROC \<Longrightarrow> body p (s\<lparr>procs := X\<rparr>) = Inr (upd_proc p (f p) (s\<lparr>procs := X\<rparr>))"
  shows "foldE body [0..<NPROC] s = Inr (table_map f s)"
  using foldE_procs [of "[0..<NPROC]" body s f "procs s"] assms by (simp add: table_map_def del: upt_conv_Cons)

lemma procinit_eq: "procinit s = Inr (table_map (\<lambda>p r. r\<lparr>p_kstack := KSTACK p\<rparr>) s)"
  unfolding procinit_def by (rule foldE_table) simp

text \<open>The table after a \<open>wakeup\<close>.\<close>

definition awake :: "wchan option \<Rightarrow> 'a pstate_scheme \<Rightarrow> 'a pstate_scheme" where
  "awake chan s = table_map (\<lambda>p r. if cur s \<noteq> Some p \<and> p_state r = SLEEPING \<and> p_chan r = chan
     then r\<lparr>p_state := RUNNABLE, p_readyTime := ucast (ticks s)\<rparr> else r) s"

lemma awake_simps [simp]:
  "held (awake c s) = held s" "kend (awake c s) = kend s" "pmem (awake c s) = pmem s"
  "freelist (awake c s) = freelist s" "ticks (awake c s) = ticks s" "cur (awake c s) = cur s"
  "nextpid (awake c s) = nextpid s" "initproc (awake c s) = initproc s"
  "kout (awake c s) = kout s" "pr_locking (awake c s) = pr_locking s" "pstate.more (awake c s) = pstate.more s"
  "p_pid (procs (awake c s) p) = p_pid (procs s p)" "p_parent (procs (awake c s) p) = p_parent (procs s p)"
  by (simp_all add: awake_def)

lemma awake_held: "awake c (s\<lparr>held := h\<rparr>) = (awake c s)\<lparr>held := h\<rparr>"
  by (simp add: awake_def table_map_def cong: if_cong)

lemma wakeup_eq:
  assumes "no_plocks s"
  shows "wakeup chan s = Inr (awake chan s)"
  unfolding wakeup_def awake_def
  by (rule foldE_table) (use assms in \<open>auto simp: no_plocks_def upd_proc_def\<close>)

lemma with_proc_frame: "with_proc p f s = Inr s' \<Longrightarrow> \<exists>P H. s' = s\<lparr>procs := P, held := H\<rparr>"
  by (clarsimp simp: with_proc_def with_lock_def lacquire_def lrelease_def bindE_Inr_iff upd_proc_def) blast

lemma wakeup_frame:
  assumes "wakeup c s = Inr s'"
  shows "\<exists>P H. s' = s\<lparr>procs := P, held := H\<rparr>"
proof (rule foldE_invariant [where I = "\<lambda>t. \<exists>P H. t = s\<lparr>procs := P, held := H\<rparr>"])
  show "foldE (\<lambda>p s. if Some p = cur s then Inr s
        else with_proc p (\<lambda>r. if p_state r = SLEEPING \<and> p_chan r = c
               then r\<lparr>p_state := RUNNABLE, p_readyTime := ucast (ticks s)\<rparr> else r) s) [0..<NPROC] s = Inr s'"
    using assms by (simp only: wakeup_def)
  show "\<exists>P H. s = s\<lparr>procs := P, held := H\<rparr>" by (rule exI [of _ "procs s"], rule exI [of _ "held s"]) simp
qed (force split: if_splits dest: with_proc_frame)

lemma trace_eq:
  assumes "no_plocks s"
  shows "trace m pid s = Inr (0, table_map (\<lambda>p r. if p_pid r = pid then r\<lparr>p_mask := m\<rparr> else r) s)"
proof -
  have "foldE (\<lambda>p. with_proc p (\<lambda>r. if p_pid r = pid then r\<lparr>p_mask := m\<rparr> else r)) [0..<NPROC] s =
        Inr (table_map (\<lambda>p r. if p_pid r = pid then r\<lparr>p_mask := m\<rparr> else r) s)"
    by (rule foldE_table) (use assms in \<open>simp add: no_plocks_def\<close>)
  then show ?thesis by (simp only: trace_def bindE.simps)
qed

lemma update_clock_ticks_eq:
  "no_plocks s \<Longrightarrow> update_clock_ticks s = Inr (table_map (\<lambda>_. tick_proc) s)"
  unfolding update_clock_ticks_def by (rule foldE_table) (simp add: no_plocks_def)

lemma update_clock_ticks_2_eq:
  "no_plocks s \<Longrightarrow> update_clock_ticks_2 s = Inr (table_map (\<lambda>_. tick_proc_2) s)"
  unfolding update_clock_ticks_2_def by (rule foldE_table) (simp add: no_plocks_def)

lemma set_priority_eq:
  assumes "cur s = Some p" "ProcLock p \<notin> set (held s)"
  shows "set_priority prio s =
    (if prio \<in> {1, 3, 5, 7, 25} then Inr (0, upd_proc p (\<lambda>r. r\<lparr>p_priority := prio\<rparr>) s) else Inr (-1, s))"
  using assms by (auto simp: set_priority_def myproc_def)

definition killed_proc :: "u32 \<Rightarrow> proc \<Rightarrow> proc" where
  "killed_proc now r = (if p_state r = SLEEPING
     then r\<lparr>p_killed := True, p_state := RUNNABLE, p_readyTime := ucast now\<rparr> else r\<lparr>p_killed := True\<rparr>)"

lemma kill_one_eq:
  assumes "ProcLock p \<notin> set (held s)"
  shows "kill_one pid p s = (if p_pid (procs s p) = pid
     then Inr (Some 0, upd_proc p (killed_proc (ticks s)) s) else Inr (None, s))"
  using assms by (auto simp: kill_one_def lock_simps Let_def upd_proc_def killed_proc_def)

lemma kill_scan:
  assumes "no_plocks s" "\<forall>p\<in>set ps. p < NPROC"
  shows "scanE (kill_one pid) ps s = (case List.find (\<lambda>p. p_pid (procs s p) = pid) ps of
     None \<Rightarrow> Inr (None, s) | Some p \<Rightarrow> Inr (Some 0, upd_proc p (killed_proc (ticks s)) s))"
  using assms(2)
proof (induction ps)
  case Nil
  then show ?case by simp
next
  case (Cons p ps)
  have "kill_one pid p s = (if p_pid (procs s p) = pid
     then Inr (Some 0, upd_proc p (killed_proc (ticks s)) s) else Inr (None, s))"
    by (rule kill_one_eq) (use assms(1) Cons.prems in \<open>auto simp: no_plocks_def\<close>)
  with Cons show ?case by simp
qed

lemma kill_eq:
  assumes "no_plocks s"
  shows "kill pid s = (case List.find (\<lambda>p. p_pid (procs s p) = pid) [0..<NPROC] of
     None \<Rightarrow> Inr (-1, s) | Some p \<Rightarrow> Inr (0, upd_proc p (killed_proc (ticks s)) s))"
proof -
  have "scanE (kill_one pid) [0..<NPROC] s = (case List.find (\<lambda>p. p_pid (procs s p) = pid) [0..<NPROC] of
     None \<Rightarrow> Inr (None, s) | Some p \<Rightarrow> Inr (Some 0, upd_proc p (killed_proc (ticks s)) s))"
    by (rule kill_scan [OF assms]) (simp del: upt_conv_Cons)
  then show ?thesis unfolding kill_def by (simp split: option.splits)
qed

end
