(* ===== verification/Scheduler.thy ===== *)
theory Scheduler
  imports Proc
begin

text \<open>
  What the scheduling policies of \<^verbatim>\<open>kernel/proc.c\<close> choose. The table scan that FCFS, SRT and
  CFSD share is reduced to a scan without locks; a locale says what a key comparison has
  to satisfy for the scan to find the first least process, and is interpreted on the
  comparisons of the three policies. Also here: the burst estimate, and that a scheduling
  round gives back every lock it takes.
\<close>

section \<open>The scan without locks\<close>

fun pick :: "(nat \<Rightarrow> bool) \<Rightarrow> (nat \<Rightarrow> 'k) \<Rightarrow> ('k \<Rightarrow> 'k \<Rightarrow> bool) \<Rightarrow> nat list \<Rightarrow> nat option \<Rightarrow> nat option" where
  "pick R key better [] m = m"
| "pick R key better (p # ps) m = pick R key better ps
     (if R p \<and> (case m of None \<Rightarrow> True | Some q \<Rightarrow> better (key p) (key q)) then Some p else m)"

definition runnable :: "'a pstate_scheme \<Rightarrow> nat \<Rightarrow> bool" where
  "runnable s p \<longleftrightarrow> p_state (procs s p) = RUNNABLE"

lemma runnable_held [simp]: "runnable (s\<lparr>held := h\<rparr>) = runnable s"
  by (simp add: runnable_def fun_eq_iff)

definition hold_opt :: "nat option \<Rightarrow> lock list \<Rightarrow> lock list" where
  "hold_opt m h = (case m of None \<Rightarrow> h | Some q \<Rightarrow> ProcLock q # h)"

lemma min_scan_pick:
  assumes "distinct ps" "\<forall>p\<in>set ps. ProcLock p \<notin> set h" "\<forall>q. m = Some q \<longrightarrow> q \<notin> set ps \<and> ProcLock q \<notin> set h"
  shows "min_scan key better ps (map_option (\<lambda>q. (q, key (procs s q))) m) (s\<lparr>held := hold_opt m h\<rparr>) =
    (let r = pick (runnable s) (\<lambda>p. key (procs s p)) better ps m
     in Inr (map_option (\<lambda>q. (q, key (procs s q))) r, s\<lparr>held := hold_opt r h\<rparr>))"
  using assms
proof (induction ps arbitrary: m)
  case Nil
  then show ?case by simp
next
  case (Cons p ps)
  have free: "ProcLock p \<notin> set (hold_opt m h)"
    using Cons.prems by (cases m) (auto simp: hold_opt_def)
  have IH_keep: "min_scan key better ps (map_option (\<lambda>q. (q, key (procs s q))) m) (s\<lparr>held := hold_opt m h\<rparr>) =
    (let r = pick (runnable s) (\<lambda>p. key (procs s p)) better ps m
     in Inr (map_option (\<lambda>q. (q, key (procs s q))) r, s\<lparr>held := hold_opt r h\<rparr>))"
    by (rule Cons.IH) (use Cons.prems in auto)
  have IH_new: "min_scan key better ps (map_option (\<lambda>q. (q, key (procs s q))) (Some p)) (s\<lparr>held := hold_opt (Some p) h\<rparr>) =
    (let r = pick (runnable s) (\<lambda>p. key (procs s p)) better ps (Some p)
     in Inr (map_option (\<lambda>q. (q, key (procs s q))) r, s\<lparr>held := hold_opt r h\<rparr>))"
    by (rule Cons.IH) (use Cons.prems in auto)
  show ?case
    using free IH_keep IH_new Cons.prems
    by (cases m) (auto simp: lock_simps hold_opt_def runnable_def [symmetric] Let_def)
qed

lemma min_scan_table:
  assumes "no_plocks s"
  shows "min_scan key better [0..<NPROC] None s =
    (let r = pick (runnable s) (\<lambda>p. key (procs s p)) better [0..<NPROC] None
     in Inr (map_option (\<lambda>q. (q, key (procs s q))) r, s\<lparr>held := hold_opt r (held s)\<rparr>))"
proof -
  have *: "map_option (\<lambda>q. (q, key (procs s q))) None = None" "s\<lparr>held := hold_opt None (held s)\<rparr> = s"
    by (simp_all add: hold_opt_def)
  show ?thesis
    using min_scan_pick [of "[0..<NPROC]" "held s" None key better s] assms
    unfolding * no_plocks_def by (simp del: upt_conv_Cons)
qed

section \<open>First least process\<close>

text \<open>
  A comparison under which the scan is meaningful: on the keys in \<open>K\<close>, \<open>better\<close> is a strict
  weak order.
\<close>

locale policy_order =
  fixes better :: "'k \<Rightarrow> 'k \<Rightarrow> bool" and K :: "'k set"
  assumes better_irrefl: "a \<in> K \<Longrightarrow> \<not> better a a"
    and better_trans: "a \<in> K \<Longrightarrow> b \<in> K \<Longrightarrow> c \<in> K \<Longrightarrow> better a b \<Longrightarrow> better b c \<Longrightarrow> better a c"
    and better_split: "a \<in> K \<Longrightarrow> b \<in> K \<Longrightarrow> c \<in> K \<Longrightarrow> better a c \<Longrightarrow> better a b \<or> better b c"
begin

definition first_least :: "(nat \<Rightarrow> bool) \<Rightarrow> (nat \<Rightarrow> 'k) \<Rightarrow> nat \<Rightarrow> nat option \<Rightarrow> bool" where
  "first_least R key n r = (case r of
     None \<Rightarrow> (\<forall>p < n. \<not> R p)
   | Some q \<Rightarrow> q < n \<and> R q \<and> (\<forall>p < n. R p \<longrightarrow> \<not> better (key p) (key q)) \<and> (\<forall>p < q. R p \<longrightarrow> better (key q) (key p)))"

lemma pick_first_least:
  assumes "\<And>p. p < n \<Longrightarrow> R p \<Longrightarrow> key p \<in> K"
  shows "first_least R key n (pick R key better [0..<n] None)"
proof -
  have app: "pick R key better (xs @ ys) m = pick R key better ys (pick R key better xs m)" for xs ys m
    by (induction xs arbitrary: m) auto
  show ?thesis using assms
  proof (induction n)
    case 0
    then show ?case by (simp add: first_least_def)
  next
    case (Suc n)
    let ?r = "pick R key better [0..<n] None"
    have IH: "first_least R key n ?r" by (rule Suc.IH) (use Suc.prems in auto)
    have key: "\<And>p. p \<le> n \<Longrightarrow> R p \<Longrightarrow> key p \<in> K" using Suc.prems by auto
    show ?case
    proof (cases ?r)
      case None
      with IH key show ?thesis
        by (auto simp: first_least_def app less_Suc_eq better_irrefl)
    next
      case (Some q)
      then have q: "q < n" "R q" "\<And>p. p < n \<Longrightarrow> R p \<Longrightarrow> \<not> better (key p) (key q)"
          "\<And>p. p < q \<Longrightarrow> R p \<Longrightarrow> better (key q) (key p)"
        using IH by (auto simp: first_least_def)
      show ?thesis
      proof (cases "R n \<and> better (key n) (key q)")
        case True
        have "better (key n) (key p)" if "p < n" "R p" for p
          using better_split [of "key n" "key p" "key q"] True q(1,2) q(3) [OF that] key that by auto
        moreover have "\<not> better (key p) (key n)" if "p \<le> n" "R p" for p
          using better_trans [of "key p" "key n" "key q"] better_irrefl [of "key n"] True q key that
          by (cases "p = n") auto
        ultimately show ?thesis using Some True by (simp add: first_least_def app less_Suc_eq_le)
      next
        case False
        then show ?thesis using Some q by (auto simp: first_least_def app less_Suc_eq)
      qed
    qed
  qed
qed

lemma first_least_unique:
  "\<lbrakk> first_least R key n (Some q); first_least R key n (Some q') \<rbrakk> \<Longrightarrow> q = q'"
  by (cases q q' rule: linorder_cases) (auto simp: first_least_def)

lemma first_least_SomeD:
  assumes "first_least R key n r" "\<exists>p < n. R p"
  obtains q where "r = Some q" "q < n" "R q" "\<And>p. p < n \<Longrightarrow> R p \<Longrightarrow> \<not> better (key p) (key q)"
    "\<And>p. p < q \<Longrightarrow> R p \<Longrightarrow> better (key q) (key p)"
  using assms by (cases r) (auto simp: first_least_def)

end

interpretation fcfs: policy_order fcfs_better UNIV
  by unfold_locales (auto simp: fcfs_better_def word_sless_alt)

interpretation srt: policy_order srt_better UNIV
  by unfold_locales (auto simp: srt_better_def word_sless_alt)

text \<open>
  For CFSD the cross-multiplication compares the fractions only when the denominators are
  positive and the products fit in an \<open>int\<close>.
\<close>

definition rtt_ok :: "c_int \<times> c_int \<Rightarrow> bool" where
  "rtt_ok r \<longleftrightarrow> 0 \<le> sint (fst r) \<and> sint (fst r) \<le> 46340 \<and> 0 < sint (snd r) \<and> sint (snd r) \<le> 46340"

lemma prod_fits:
  assumes "0 \<le> a" "a \<le> (46340 :: int)" "0 \<le> b" "b \<le> 46340"
  shows "- (2 ^ 31) \<le> a * b" "a * b < 2 ^ 31"
proof -
  have "0 \<le> a * b" using assms by simp
  then show "- (2 ^ 31) \<le> a * b" by simp
  have "a * b \<le> 46340 * 46340" by (rule mult_mono) (use assms in auto)
  then show "a * b < 2 ^ 31" by simp
qed

lemma cfsd_better_iff:
  assumes "rtt_ok a" "rtt_ok b"
  shows "cfsd_better a b \<longleftrightarrow> sint (fst a) * sint (snd b) < sint (fst b) * sint (snd a)"
proof -
  have "sint (fst a * snd b) = sint (fst a) * sint (snd b)"
    "sint (fst b * snd a) = sint (fst b) * sint (snd a)"
    using assms prod_fits [of "sint (fst a)" "sint (snd b)"] prod_fits [of "sint (fst b)" "sint (snd a)"]
    by (simp_all add: rtt_ok_def sint_mult_small)
  then show ?thesis by (simp add: cfsd_better_def word_sless_alt case_prod_beta)
qed

text \<open>The ratio itself, in exact integers, and when the \<open>int\<close> terms of the code are equal to it.\<close>

definition run_ratio :: "proc \<Rightarrow> int \<times> int" where
  "run_ratio r = (sint (p_rutime r) * sint (p_priority r), sint (p_rutime r) + sint (p_stime r))"

definition ratio_ok :: "proc \<Rightarrow> bool" where
  "ratio_ok r \<longleftrightarrow> fst (run_ratio r) \<in> {0..46340} \<and> snd (run_ratio r) \<in> {1..46340}"

definition ratio_le :: "proc \<Rightarrow> proc \<Rightarrow> bool" where
  "ratio_le a b \<longleftrightarrow> fst (run_ratio a) * snd (run_ratio b) \<le> fst (run_ratio b) * snd (run_ratio a)"

lemma rtt_exact:
  assumes "ratio_ok r"
  shows "sint (fst (rtt r)) = fst (run_ratio r)" "sint (snd (rtt r)) = snd (run_ratio r)"
  using assms by (simp_all add: ratio_ok_def run_ratio_def rtt_def sint_mult_small sint_add_small)

lemma rtt_ok_ratio: "ratio_ok r \<Longrightarrow> rtt_ok (rtt r)"
  by (simp add: rtt_ok_def rtt_exact) (simp add: ratio_ok_def)

lemma cfsd_better_ratio:
  assumes "ratio_ok a" "ratio_ok b"
  shows "cfsd_better (rtt a) (rtt b) \<longleftrightarrow> \<not> ratio_le b a"
  using assms by (simp add: cfsd_better_iff rtt_ok_ratio rtt_exact ratio_le_def not_le)

lemma frac_trans:
  assumes "0 < d" "0 < d'" "0 < (d'' :: int)" "a * d' < a' * d" "a' * d'' \<le> a'' * d'"
  shows "a * d'' < a'' * d"
proof -
  have "(a * d') * d'' < (a' * d) * d''" using assms by simp
  moreover have "(a' * d'') * d \<le> (a'' * d') * d" using assms by (intro mult_right_mono) auto
  ultimately have "d' * (a * d'') < d' * (a'' * d)" by (simp add: algebra_simps)
  then show ?thesis using assms by simp
qed

lemma frac_split:
  assumes "0 < d" "0 < d'" "0 < (d'' :: int)" "a * d'' < a'' * d"
  shows "a * d' < a' * d \<or> a' * d'' < a'' * d'"
proof (rule ccontr)
  assume "\<not> ?thesis"
  then have le: "a' * d \<le> a * d'" "a'' * d' \<le> a' * d''" by auto
  have "(a'' * d') * d \<le> (a' * d'') * d" "(a' * d) * d'' \<le> (a * d') * d''"
    using le assms by (auto intro: mult_right_mono)
  then have "d' * (a'' * d) \<le> d' * (a * d'')" by (simp add: algebra_simps)
  then show False using assms by simp
qed

interpretation cfsd: policy_order cfsd_better "Collect rtt_ok"
proof
  fix a b c
  assume K: "a \<in> Collect rtt_ok" "b \<in> Collect rtt_ok" "c \<in> Collect rtt_ok"
  then have pos: "0 < sint (snd a)" "0 < sint (snd b)" "0 < sint (snd c)" by (auto simp: rtt_ok_def)
  {
    assume "cfsd_better a b" "cfsd_better b c"
    then show "cfsd_better a c" using K pos
      by (simp add: cfsd_better_iff) (rule frac_trans [of _ "sint (snd b)" _ _ "sint (fst b)"], auto)
  }
  {
    assume "cfsd_better a c"
    then show "cfsd_better a b \<or> cfsd_better b c" using K pos
      by (simp add: cfsd_better_iff frac_split)
  }
qed (simp add: cfsd_better_iff)

lemma min_pick_eq:
  assumes "no_plocks s" "pol \<noteq> DEFAULT"
  shows "\<exists>r. min_pick pol s = Inr (r, s\<lparr>held := hold_opt r (held s)\<rparr>) \<and>
    r = (case pol of
        SRT \<Rightarrow> pick (runnable s) (\<lambda>p. p_average_bursttime (procs s p)) srt_better [0..<NPROC] None
      | CFSD \<Rightarrow> pick (runnable s) (\<lambda>p. rtt (procs s p)) cfsd_better [0..<NPROC] None
      | _ \<Rightarrow> pick (runnable s) (\<lambda>p. p_readyTime (procs s p)) fcfs_better [0..<NPROC] None)"
  using assms(2)
  by (cases pol) (simp_all add: min_pick_def min_scan_table [OF assms(1)] Let_def option.map_comp comp_def
      option.map_ident del: upt_conv_Cons upt_rec_numeral)

lemma min_pick_fcfs:
  assumes "no_plocks s"
  shows "\<exists>r. min_pick FCFS s = Inr (r, s\<lparr>held := hold_opt r (held s)\<rparr>) \<and>
             fcfs.first_least (runnable s) (\<lambda>p. p_readyTime (procs s p)) NPROC r"
  using min_pick_eq [OF assms, of FCFS] fcfs.pick_first_least [of NPROC "runnable s" "\<lambda>p. p_readyTime (procs s p)"]
  by (auto simp del: upt_conv_Cons upt_rec_numeral)

lemma min_pick_srt:
  assumes "no_plocks s"
  shows "\<exists>r. min_pick SRT s = Inr (r, s\<lparr>held := hold_opt r (held s)\<rparr>) \<and>
             srt.first_least (runnable s) (\<lambda>p. p_average_bursttime (procs s p)) NPROC r"
  using min_pick_eq [OF assms, of SRT] srt.pick_first_least [of NPROC "runnable s" "\<lambda>p. p_average_bursttime (procs s p)"]
  by (auto simp del: upt_conv_Cons upt_rec_numeral)

lemma min_pick_cfsd:
  assumes "no_plocks s" "\<And>p. p < NPROC \<Longrightarrow> runnable s p \<Longrightarrow> rtt_ok (rtt (procs s p))"
  shows "\<exists>r. min_pick CFSD s = Inr (r, s\<lparr>held := hold_opt r (held s)\<rparr>) \<and>
             cfsd.first_least (runnable s) (\<lambda>p. rtt (procs s p)) NPROC r"
  using min_pick_eq [OF assms(1), of CFSD] cfsd.pick_first_least [of NPROC "runnable s" "\<lambda>p. rtt (procs s p)"] assms(2)
  by (auto simp del: upt_conv_Cons upt_rec_numeral)

section \<open>A scheduling round\<close>

text \<open>
  What a process owes the scheduler: when it switches back it holds its own lock and no
  other (this is what \<open>sched\<close> checks).
\<close>

definition switches_back :: "(nat \<Rightarrow> 'a pstate_scheme \<Rightarrow> stop + 'a pstate_scheme) \<Rightarrow> bool" where
  "switches_back swtch \<longleftrightarrow>
     (\<forall>p t. held t = [ProcLock p] \<longrightarrow> (\<exists>t'. swtch p t = Inr t' \<and> held t' = [ProcLock p]))"

definition before_switch :: "nat \<Rightarrow> 'a pstate_scheme \<Rightarrow> 'a pstate_scheme" where
  "before_switch p s = (upd_proc p (\<lambda>r. r\<lparr>p_state := RUNNING, p_tickcounter := 0\<rparr>) s)\<lparr>cur := Some p, held := [ProcLock p]\<rparr>"

definition after_switch :: "nat \<Rightarrow> 'a pstate_scheme \<Rightarrow> 'a pstate_scheme" where
  "after_switch p s = (upd_proc p update_burst s)\<lparr>cur := None, held := []\<rparr>"

lemma dispatch_ok:
  assumes "switches_back swtch" "held s = [ProcLock p]"
  shows "\<exists>t. swtch p (before_switch p s) = Inr t \<and> dispatch swtch p s = Inr (after_switch p t)"
proof -
  have eq: "(upd_proc p (\<lambda>r. r\<lparr>p_state := RUNNING, p_tickcounter := 0\<rparr>) s)\<lparr>cur := Some p\<rparr> = before_switch p s"
    using assms(2) by (simp add: before_switch_def upd_proc_def)
  have "held (before_switch p s) = [ProcLock p]" by (simp add: before_switch_def)
  then obtain t where t: "swtch p (before_switch p s) = Inr t" "held t = [ProcLock p]"
    using assms(1) unfolding switches_back_def by blast
  then have "lrelease (ProcLock p) ((upd_proc p update_burst t)\<lparr>cur := None\<rparr>) = Inr (after_switch p t)"
    by (simp add: lock_simps after_switch_def)
  with t(1) show ?thesis by (simp add: dispatch_def Let_def eq)
qed

definition idle :: "'a pstate_scheme \<Rightarrow> bool" where
  "idle s \<longleftrightarrow> held s = [] \<and> cur s = None"

lemma idle_no_plocks: "idle s \<Longrightarrow> no_plocks s"
  by (simp add: idle_def no_plocks_def)

lemma after_switch_idle [simp]: "idle (after_switch p t)"
  by (simp add: idle_def after_switch_def)

definition default_turn ::
  "(nat \<Rightarrow> 'a pstate_scheme \<Rightarrow> stop + 'a pstate_scheme) \<Rightarrow> nat \<Rightarrow> 'a pstate_scheme \<Rightarrow> stop + 'a pstate_scheme" where
  "default_turn swtch p s = bindE (lacquire (ProcLock p) s) (\<lambda>s.
     if p_state (procs s p) \<noteq> RUNNABLE then lrelease (ProcLock p) s else dispatch swtch p s)"

lemma default_turn_ok:
  assumes "switches_back swtch" "idle s"
  shows "if runnable s p
     then \<exists>t. swtch p (before_switch p s) = Inr t \<and> default_turn swtch p s = Inr (after_switch p t)
     else default_turn swtch p s = Inr s"
proof (cases "runnable s p")
  case True
  have "before_switch p (s\<lparr>held := [ProcLock p]\<rparr>) = before_switch p s"
    by (simp add: before_switch_def upd_proc_def)
  then show ?thesis
    using dispatch_ok [OF assms(1), of "s\<lparr>held := [ProcLock p]\<rparr>" p] True assms(2)
    by (simp add: default_turn_def idle_def lock_simps runnable_def)
next
  case False
  then show ?thesis using assms(2) by (simp add: default_turn_def idle_def lock_simps runnable_def)
qed

lemma default_turns_ok:
  assumes "switches_back swtch" "idle s"
  shows "\<exists>t. foldE (default_turn swtch) ps s = Inr t \<and> idle t"
  using assms(2)
proof (induction ps arbitrary: s)
  case Nil
  then show ?case by simp
next
  case (Cons p ps)
  obtain t where "default_turn swtch p s = Inr t" "idle t"
    using default_turn_ok [OF assms(1) Cons.prems, of p] Cons.prems by (auto split: if_splits)
  with Cons.IH [of t] show ?case by auto
qed

lemma scheduler_round_default: "scheduler_round DEFAULT swtch s = foldE (default_turn swtch) [0..<NPROC] s"
  by (simp add: scheduler_round_def default_turn_def [abs_def] del: upt_conv_Cons upt_rec_numeral)

lemma scheduler_round_min:
  assumes "switches_back swtch" "idle s" "pol \<noteq> DEFAULT"
  shows "\<exists>r. min_pick pol s = Inr (r, s\<lparr>held := hold_opt r []\<rparr>) \<and>
    (case r of None \<Rightarrow> scheduler_round pol swtch s = Inr s
     | Some p \<Rightarrow> \<exists>t. swtch p (before_switch p s) = Inr t \<and> scheduler_round pol swtch s = Inr (after_switch p t))"
proof -
  obtain r where r: "min_pick pol s = Inr (r, s\<lparr>held := hold_opt r []\<rparr>)"
    using min_pick_eq [OF idle_no_plocks [OF assms(2)] assms(3)] assms(2) by (auto simp: idle_def)
  show ?thesis
  proof (cases r)
    case None
    with r assms show ?thesis by (simp add: scheduler_round_def hold_opt_def idle_def)
  next
    case (Some p)
    have "before_switch p (s\<lparr>held := [ProcLock p]\<rparr>) = before_switch p s"
      by (simp add: before_switch_def upd_proc_def)
    with dispatch_ok [OF assms(1), of "s\<lparr>held := [ProcLock p]\<rparr>" p] r Some assms(3)
    show ?thesis by (simp add: scheduler_round_def hold_opt_def)
  qed
qed

lemma scheduler_round_idle:
  assumes "switches_back swtch" "idle s"
  shows "\<exists>t. scheduler_round pol swtch s = Inr t \<and> idle t"
proof (cases "pol = DEFAULT")
  case True
  then show ?thesis using default_turns_ok [OF assms] by (simp only: scheduler_round_default)
next
  case False
  from scheduler_round_min [OF assms False] show ?thesis
    using assms(2) after_switch_idle by (auto split: option.splits)
qed

text \<open>
  A process that only changes its own entry and notes that it ran: the notes of a round are
  the processes found RUNNABLE, in table order.
\<close>

definition notes_run :: "(nat \<Rightarrow> nat list pstate_scheme \<Rightarrow> stop + nat list pstate_scheme) \<Rightarrow> bool" where
  "notes_run swtch \<longleftrightarrow> (\<forall>p t t'. swtch p t = Inr t' \<longrightarrow>
     pstate.more t' = pstate.more t @ [p] \<and> (\<forall>q. q \<noteq> p \<longrightarrow> procs t' q = procs t q))"

lemma default_turns_log:
  assumes "switches_back swtch" "notes_run swtch" "idle s" "distinct ps"
  shows "\<exists>t. foldE (default_turn swtch) ps s = Inr t \<and> pstate.more t = pstate.more s @ filter (runnable s) ps"
  using assms(3,4)
proof (induction ps arbitrary: s)
  case Nil
  then show ?case by simp
next
  case (Cons p ps)
  show ?case
  proof (cases "runnable s p")
    case False
    with default_turn_ok [OF assms(1) Cons.prems(1), of p] Cons.IH [OF Cons.prems(1)] Cons.prems
    show ?thesis by auto
  next
    case True
    then obtain t where t: "swtch p (before_switch p s) = Inr t" "default_turn swtch p s = Inr (after_switch p t)"
      using default_turn_ok [OF assms(1) Cons.prems(1), of p] by auto
    have more: "pstate.more (after_switch p t) = pstate.more s @ [p]"
      and same: "\<And>q. q \<noteq> p \<Longrightarrow> procs (after_switch p t) q = procs s q"
      using assms(2) t(1) by (auto simp: notes_run_def after_switch_def before_switch_def)
    have "runnable (after_switch p t) q = runnable s q" if "q \<in> set ps" for q
    proof -
      have "q \<noteq> p" using that Cons.prems(2) by auto
      from same [OF this] show ?thesis by (simp add: runnable_def)
    qed
    then have "filter (runnable (after_switch p t)) ps = filter (runnable s) ps" by (rule filter_cong [OF refl])
    with Cons.IH [OF after_switch_idle, of p t] Cons.prems(2) True t(2) more show ?thesis by simp
  qed
qed

text \<open>The state in which \<open>sleep\<close> switches away.\<close>

definition gone_to_sleep :: "nat \<Rightarrow> wchan \<Rightarrow> 'a pstate_scheme \<Rightarrow> 'a pstate_scheme" where
  "gone_to_sleep p chan s = (upd_proc p (\<lambda>r. r\<lparr>p_chan := Some chan, p_sleepTime := ucast (ticks s), p_state := SLEEPING\<rparr>) s)\<lparr>held := [ProcLock p]\<rparr>"

lemma sleep_eq:
  assumes "cur s = Some p" "held s = [lk]" "lk \<noteq> ProcLock p" "swtch (gone_to_sleep p chan s) = Inr t" "held t = [ProcLock p]"
  shows "sleep swtch chan lk s = Inr ((upd_proc p (\<lambda>r. r\<lparr>p_chan := None\<rparr>) t)\<lparr>held := [lk]\<rparr>)"
proof -
  have "sched swtch (gone_to_sleep p chan s) = swtch (gone_to_sleep p chan s)"
    using assms(1) by (simp add: sched_def myproc_def lholding_def gone_to_sleep_def)
  moreover have "upd_proc p (\<lambda>r. r\<lparr>p_chan := Some chan, p_sleepTime := ucast (ticks s), p_state := SLEEPING\<rparr>) (s\<lparr>held := [ProcLock p]\<rparr>) = gone_to_sleep p chan s"
    by (simp add: gone_to_sleep_def upd_proc_def)
  ultimately show ?thesis using assms by (simp add: sleep_def myproc_def lock_simps)
qed

section \<open>A small machine\<close>

definition blank_proc :: proc where
  "blank_proc = \<lparr>p_state = UNUSED, p_chan = None, p_killed = False, p_xstate = 0, p_pid = 0, p_mask = 0,
     p_tickcounter = 0, p_priority = 5, p_ctime = 0, p_ttime = 0, p_stime = 0, p_retime = 0, p_rutime = 0,
     p_average_bursttime = 500, p_readyTime = 0, p_runningTime = 0, p_sleepTime = 0, p_parent = None,
     p_kstack = 0, p_sz = 0, p_pagetable = 0, p_trapframe = 0,
     p_context = \<lparr>ctx_ra = 0, ctx_sp = 0, ctx_s = (\<lambda>_. 0)\<rparr>, p_ofile = (\<lambda>_. None), p_cwd = None, p_name = []\<rparr>"

text \<open>Three RUNNABLE processes in slots 0, 1 and 2, the others unused.\<close>

definition demo_procs :: "nat \<Rightarrow> proc" where
  "demo_procs = (\<lambda>_. blank_proc)
     (0 := blank_proc\<lparr>p_state := RUNNABLE, p_pid := 1, p_readyTime := 9, p_average_bursttime := 400, p_rutime := 4, p_stime := 4\<rparr>,
      1 := blank_proc\<lparr>p_state := RUNNABLE, p_pid := 2, p_readyTime := 3, p_average_bursttime := 500, p_rutime := 6, p_stime := 2\<rparr>,
      2 := blank_proc\<lparr>p_state := RUNNABLE, p_pid := 3, p_readyTime := 7, p_average_bursttime := 100, p_rutime := 1, p_stime := 9\<rparr>)"

definition demo_pstate :: "nat list pstate_scheme" where
  "demo_pstate = \<lparr>held = [], pmem = (\<lambda>_. 0), freelist = 0, kend = 0x80030000, procs = demo_procs, nextpid = 4,
     ticks = 20, initproc = Some 0, cur = None, kout = [], pr_locking = True, \<dots> = []\<rparr>"

text \<open>A process that gives the CPU back at once, leaving a note that it ran.\<close>

definition run_briefly :: "nat \<Rightarrow> nat list pstate_scheme \<Rightarrow> stop + nat list pstate_scheme" where
  "run_briefly p s = (let s = upd_proc p (\<lambda>r. r\<lparr>p_state := RUNNABLE\<rparr>) s in Inr (pstate.more_update (\<lambda>l. l @ [p]) s))"

lemma demo_simps:
  "no_plocks demo_pstate" "idle demo_pstate" "held demo_pstate = []" "procs demo_pstate = demo_procs" "cur demo_pstate = None"
  "pstate.more demo_pstate = []" "ticks demo_pstate = 20"
  by (simp_all add: demo_pstate_def no_plocks_def idle_def)

lemma demo_runnable: "runnable demo_pstate p \<longleftrightarrow> p < 3"
proof -
  have "p < 3 \<longleftrightarrow> p = 0 \<or> p = 1 \<or> p = 2" by arith
  then show ?thesis by (simp add: runnable_def demo_simps demo_procs_def blank_proc_def)
qed

lemma run_briefly_back: "switches_back run_briefly"
  by (simp add: switches_back_def run_briefly_def Let_def)

lemma less_3_cases: "(q :: nat) < 3 \<Longrightarrow> q = 0 \<or> q = 1 \<or> q = 2"
  by arith

lemma demo_fields:
  "p_readyTime (demo_procs 0) = 9" "p_readyTime (demo_procs (Suc 0)) = 3" "p_readyTime (demo_procs 2) = 7"
  "p_average_bursttime (demo_procs 0) = 400" "p_average_bursttime (demo_procs (Suc 0)) = 500"
  "p_average_bursttime (demo_procs 2) = 100" "run_ratio (demo_procs 0) = (20, 8)" "run_ratio (demo_procs (Suc 0)) = (30, 8)"
  "run_ratio (demo_procs 2) = (5, 10)"
  by (simp_all add: demo_procs_def blank_proc_def run_ratio_def)

section \<open>Properties\<close>

text \<open>C4: Under FCFS the scheduler takes the RUNNABLE process that became ready first, the lowest
  table slot among several: the scan returns it with its lock held and no other lock
  added, and returns nothing, with no lock added, exactly when no process is RUNNABLE.\<close>

theorem fcfs_picks_earliest:
  assumes "no_plocks s"
  shows "if \<exists>p < NPROC. runnable s p
    then \<exists>q < NPROC. min_pick FCFS s = Inr (Some q, s\<lparr>held := ProcLock q # held s\<rparr>) \<and> runnable s q \<and>
           (\<forall>p < NPROC. runnable s p \<longrightarrow> sint (p_readyTime (procs s q)) \<le> sint (p_readyTime (procs s p))) \<and>
           (\<forall>p < q. runnable s p \<longrightarrow> sint (p_readyTime (procs s q)) < sint (p_readyTime (procs s p)))
    else min_pick FCFS s = Inr (None, s)"
proof -
  obtain r where r: "min_pick FCFS s = Inr (r, s\<lparr>held := hold_opt r (held s)\<rparr>)"
      "fcfs.first_least (runnable s) (\<lambda>p. p_readyTime (procs s p)) NPROC r"
    using min_pick_fcfs [OF assms] by blast
  show ?thesis
  proof (cases r)
    case None
    with r show ?thesis by (auto simp: fcfs.first_least_def hold_opt_def)
  next
    case (Some q)
    with r show ?thesis
      by (auto simp: fcfs.first_least_def hold_opt_def fcfs_better_def word_sless_alt not_less intro!: exI [of _ q])
  qed
qed

theorem fcfs_picks_earliest_witness:
  "min_pick FCFS demo_pstate = Inr (Some 1, demo_pstate\<lparr>held := [ProcLock 1]\<rparr>)"
proof -
  have "\<exists>p < NPROC. runnable demo_pstate p" by (rule exI [of _ 0]) (simp add: demo_runnable)
  then obtain q where q: "min_pick FCFS demo_pstate = Inr (Some q, demo_pstate\<lparr>held := [ProcLock q]\<rparr>)" "q < 3"
      "\<forall>p < NPROC. p < 3 \<longrightarrow> sint (p_readyTime (demo_procs q)) \<le> sint (p_readyTime (demo_procs p))"
    using fcfs_picks_earliest [of demo_pstate] by (auto simp: demo_simps demo_runnable)
  have "sint (p_readyTime (demo_procs q)) \<le> sint (p_readyTime (demo_procs 1))" using q(3) by simp
  with less_3_cases [OF q(2)] have "q = 1" by (auto simp: demo_fields)
  with q(1) show ?thesis by simp
qed

text \<open>C5: Under SRT the scheduler takes the RUNNABLE process with the smallest estimated burst, the
  lowest slot among several, with its lock held and no other lock added.\<close>

theorem srt_picks_shortest:
  assumes "no_plocks s"
  shows "if \<exists>p < NPROC. runnable s p
    then \<exists>q < NPROC. min_pick SRT s = Inr (Some q, s\<lparr>held := ProcLock q # held s\<rparr>) \<and> runnable s q \<and>
           (\<forall>p < NPROC. runnable s p \<longrightarrow> sint (p_average_bursttime (procs s q)) \<le> sint (p_average_bursttime (procs s p))) \<and>
           (\<forall>p < q. runnable s p \<longrightarrow> sint (p_average_bursttime (procs s q)) < sint (p_average_bursttime (procs s p)))
    else min_pick SRT s = Inr (None, s)"
proof -
  obtain r where r: "min_pick SRT s = Inr (r, s\<lparr>held := hold_opt r (held s)\<rparr>)"
      "srt.first_least (runnable s) (\<lambda>p. p_average_bursttime (procs s p)) NPROC r"
    using min_pick_srt [OF assms] by blast
  show ?thesis
  proof (cases r)
    case None
    with r show ?thesis by (auto simp: srt.first_least_def hold_opt_def)
  next
    case (Some q)
    with r show ?thesis
      by (auto simp: srt.first_least_def hold_opt_def srt_better_def word_sless_alt not_less intro!: exI [of _ q])
  qed
qed

theorem srt_picks_shortest_witness:
  "min_pick SRT demo_pstate = Inr (Some 2, demo_pstate\<lparr>held := [ProcLock 2]\<rparr>)"
proof -
  have "\<exists>p < NPROC. runnable demo_pstate p" by (rule exI [of _ 0]) (simp add: demo_runnable)
  then obtain q where q: "min_pick SRT demo_pstate = Inr (Some q, demo_pstate\<lparr>held := [ProcLock q]\<rparr>)" "q < 3"
      "\<forall>p < NPROC. p < 3 \<longrightarrow> sint (p_average_bursttime (demo_procs q)) \<le> sint (p_average_bursttime (demo_procs p))"
    using srt_picks_shortest [of demo_pstate] by (auto simp: demo_simps demo_runnable)
  have "sint (p_average_bursttime (demo_procs q)) \<le> sint (p_average_bursttime (demo_procs 2))" using q(3) by simp
  with less_3_cases [OF q(2)] have "q = 2" by (auto simp: demo_fields)
  with q(1) show ?thesis by simp
qed

text \<open>C6: Under CFSD the scheduler takes the RUNNABLE process whose run-time ratio
  \<open>rutime * priority / (rutime + stime)\<close> is least, the lowest slot among several, with its lock
  held and no other lock added. The ratios are exact fractions of integers, compared by
  cross-multiplication; the \<open>int\<close> arithmetic of the code agrees with them provided every
  RUNNABLE process has a numerator up to 46340 and a positive denominator up to 46340.\<close>

theorem cfsd_picks_least_ratio:
  assumes "no_plocks s" "\<And>p. p < NPROC \<Longrightarrow> runnable s p \<Longrightarrow> ratio_ok (procs s p)" "\<exists>p < NPROC. runnable s p"
  shows "\<exists>q < NPROC. min_pick CFSD s = Inr (Some q, s\<lparr>held := ProcLock q # held s\<rparr>) \<and> runnable s q \<and>
    (\<forall>p < NPROC. runnable s p \<longrightarrow> ratio_le (procs s q) (procs s p)) \<and>
    (\<forall>p < q. runnable s p \<longrightarrow> \<not> ratio_le (procs s p) (procs s q))"
proof -
  obtain r where r: "min_pick CFSD s = Inr (r, s\<lparr>held := hold_opt r (held s)\<rparr>)"
      "cfsd.first_least (runnable s) (\<lambda>p. rtt (procs s p)) NPROC r"
    using min_pick_cfsd [OF assms(1) rtt_ok_ratio [OF assms(2)]] by blast
  from cfsd.first_least_SomeD [OF r(2) assms(3)] obtain q where q: "r = Some q" "q < NPROC" "runnable s q"
      "\<And>p. p < NPROC \<Longrightarrow> runnable s p \<Longrightarrow> \<not> cfsd_better (rtt (procs s p)) (rtt (procs s q))"
      "\<And>p. p < q \<Longrightarrow> runnable s p \<Longrightarrow> cfsd_better (rtt (procs s q)) (rtt (procs s p))"
    by metis
  have "ratio_le (procs s q) (procs s p)" if "p < NPROC" "runnable s p" for p
    using q(4) [OF that] by (simp add: cfsd_better_ratio assms(2) that q(2,3))
  moreover have "\<not> ratio_le (procs s p) (procs s q)" if "p < q" "runnable s p" for p
    using q(5) [OF that] by (simp add: cfsd_better_ratio assms(2) less_trans [OF that(1) q(2)] that(2) q(2,3))
  ultimately show ?thesis using r(1) q(1-3) by (auto simp: hold_opt_def intro!: exI [of _ q])
qed

theorem cfsd_picks_least_ratio_witness:
  "min_pick CFSD demo_pstate = Inr (Some 2, demo_pstate\<lparr>held := [ProcLock 2]\<rparr>)"
proof -
  have "ratio_ok (procs demo_pstate p)" if "p < NPROC" "runnable demo_pstate p" for p
    using that less_3_cases [of p] by (auto simp: demo_runnable demo_simps demo_fields ratio_ok_def)
  moreover have "\<exists>p < NPROC. runnable demo_pstate p" by (rule exI [of _ 0]) (simp add: demo_runnable)
  ultimately obtain q where q: "min_pick CFSD demo_pstate = Inr (Some q, demo_pstate\<lparr>held := [ProcLock q]\<rparr>)" "q < 3"
      "\<forall>p < NPROC. p < 3 \<longrightarrow> ratio_le (demo_procs q) (demo_procs p)"
    using cfsd_picks_least_ratio [of demo_pstate] by (auto simp: demo_simps demo_runnable)
  have "ratio_le (demo_procs q) (demo_procs 2)" using q(3) by simp
  with less_3_cases [OF q(2)] have "q = 2" by (auto simp: demo_fields ratio_le_def)
  with q(1) show ?thesis by simp
qed





text \<open>C11: As long as every process switches back holding exactly its own lock, the scheduler never
  panics and never leaks a lock, under any of the four policies and for any number of
  rounds: each round ends with no lock held and no current process.\<close>

theorem scheduler_never_panics:
  assumes "switches_back swtch" "held s = []"
  shows "\<exists>t. scheduler n pol swtch s = Inr t \<and> held t = [] \<and> cur t = None"
proof (induction n)
  case 0
  then show ?case using assms(2) by simp
next
  case (Suc n)
  then obtain t where "scheduler n pol swtch s = Inr t" "idle t" by (auto simp: idle_def)
  with scheduler_round_idle [OF assms(1), of t pol] show ?case by (auto simp: idle_def)
qed

theorem scheduler_never_panics_witness:
  "\<exists>t. scheduler 7 SRT run_briefly demo_pstate = Inr t \<and> held t = []"
  using scheduler_never_panics [OF run_briefly_back, of demo_pstate 7 SRT] by (auto simp: demo_simps)





text \<open>C37: \<open>kill\<close> marks the first process with the given pid as killed and, if it is asleep, makes
  it RUNNABLE as of the current tick; it changes nothing else and returns 0. With no such
  process it returns -1 and changes nothing.\<close>

theorem kill_first_match:
  assumes "no_plocks s"
  shows "if \<exists>p < NPROC. p_pid (procs s p) = pid
    then \<exists>p < NPROC. p_pid (procs s p) = pid \<and> (\<forall>q < p. p_pid (procs s q) \<noteq> pid) \<and>
           kill pid s = Inr (0, upd_proc p (\<lambda>r. r\<lparr>p_killed := True,
              p_state := (if p_state r = SLEEPING then RUNNABLE else p_state r),
              p_readyTime := (if p_state r = SLEEPING then ucast (ticks s) else p_readyTime r)\<rparr>) s)
    else kill pid s = Inr (-1, s)"
proof -
  have kp: "killed_proc now = (\<lambda>r. r\<lparr>p_killed := True,
      p_state := (if p_state r = SLEEPING then RUNNABLE else p_state r),
      p_readyTime := (if p_state r = SLEEPING then ucast now else p_readyTime r)\<rparr>)" for now
    by (simp add: fun_eq_iff killed_proc_def)
  show ?thesis
  proof (cases "List.find (\<lambda>p. p_pid (procs s p) = pid) [0..<NPROC]")
    case None
    then have "\<forall>p < NPROC. p_pid (procs s p) \<noteq> pid" by (simp only: find_upt_None not_False_eq_True)
    then show ?thesis unfolding kill_eq [OF assms] None by auto
  next
    case (Some p)
    then have "p < NPROC" "p_pid (procs s p) = pid" "\<forall>q < p. p_pid (procs s q) \<noteq> pid"
      unfolding find_upt_Some by auto
    then show ?thesis unfolding kill_eq [OF assms] Some kp by auto
  qed
qed

theorem kill_first_match_witness:
  "\<exists>s'. kill 3 demo_pstate = Inr (0, s') \<and> p_killed (procs s' 2)"
proof -
  have ex: "\<exists>p < NPROC. p_pid (procs demo_pstate p) = 3"
    by (rule exI [of _ 2]) (simp add: demo_simps demo_procs_def)
  have "p = 2" if "p_pid (procs demo_pstate p) = 3" for p
    using that by (auto simp: demo_simps demo_procs_def blank_proc_def split: if_splits)
  moreover obtain p s' where "p_pid (procs demo_pstate p) = 3" "kill 3 demo_pstate = Inr (0, s')" "p_killed (procs s' p)"
    using kill_first_match [OF demo_simps(1), of 3] ex by auto
  ultimately show ?thesis by blast
qed

end
