(* ===== verification/Vm.thy ===== *)
theory Vm
  imports Proc
begin

text \<open>
  Page tables, \<^verbatim>\<open>kernel/vm.c\<close>: the three-level Sv39 tables as they lie in physical memory,
  mapping and unmapping of pages, growing, shrinking and copying a user image, and the
  copies between kernel and user space. Kernel objects outside the page pool are passed to
  \<open>copyout\<close> as the bytes they consist of, and \<open>copyin\<close> and \<open>copyinstr\<close> return the bytes they
  write to their kernel destination, also when they fail half-way.
\<close>

section \<open>Page-table entries\<close>

abbreviation (input) PTE_V :: u64 where "PTE_V \<equiv> 1"
abbreviation (input) PTE_R :: u64 where "PTE_R \<equiv> 2"
abbreviation (input) PTE_W :: u64 where "PTE_W \<equiv> 4"
abbreviation (input) PTE_X :: u64 where "PTE_X \<equiv> 8"
abbreviation (input) PTE_U :: u64 where "PTE_U \<equiv> 16"

definition PA2PTE :: "u64 \<Rightarrow> u64" where
  "PA2PTE pa = push_bit 10 (drop_bit 12 pa)"

definition PTE2PA :: "u64 \<Rightarrow> u64" where
  "PTE2PA pte = push_bit 12 (drop_bit 10 pte)"

definition PTE_FLAGS :: "u64 \<Rightarrow> u64" where
  "PTE_FLAGS pte = and pte 0x3FF"

definition PX :: "nat \<Rightarrow> u64 \<Rightarrow> u64" where
  "PX level va = and (drop_bit (12 + 9 * level) va) 0x1FF"

definition pte_at :: "u64 \<Rightarrow> nat \<Rightarrow> u64 \<Rightarrow> u64" where
  "pte_at pagetable level va = pagetable + 8 * PX level va"

definition flag :: "u64 \<Rightarrow> u64 \<Rightarrow> bool" where
  "flag pte f \<longleftrightarrow> and pte f \<noteq> 0"

section \<open>Walking\<close>

fun walk_from :: "nat \<Rightarrow> u64 \<Rightarrow> u64 \<Rightarrow> bool \<Rightarrow> 'a memory_scheme \<Rightarrow> stop + u64 \<times> 'a memory_scheme" where
  "walk_from 0 pagetable va alloc s = Inr (pte_at pagetable 0 va, s)"
| "walk_from (Suc level) pagetable va alloc s =
     (let pte = pte_at pagetable (Suc level) va; v = load64 (pmem s) pte in
      if flag v PTE_V then walk_from level (PTE2PA v) va alloc s
      else if \<not> alloc then Inr (0, s)
      else bindE (kalloc s) (\<lambda>(page, s).
           if page = 0 then Inr (0, s)
           else let s = s\<lparr>pmem := memset page 0 4096 (pmem s)\<rparr>;
                    s = s\<lparr>pmem := store64 (pmem s) pte (or (PA2PTE page) PTE_V)\<rparr>
                in walk_from level page va alloc s))"

definition walk :: "u64 \<Rightarrow> u64 \<Rightarrow> bool \<Rightarrow> 'a memory_scheme \<Rightarrow> stop + u64 \<times> 'a memory_scheme" where
  "walk pagetable va alloc s =
     (if MAXVA \<le> va then Inl (Panic ''walk'') else walk_from 2 pagetable va alloc s)"

definition walkaddr :: "u64 \<Rightarrow> u64 \<Rightarrow> 'a memory_scheme \<Rightarrow> stop + u64" where
  "walkaddr pagetable va s =
     (if MAXVA \<le> va then Inr 0
      else bindE (walk pagetable va False s) (\<lambda>(pte, s).
           if pte = 0 then Inr 0
           else let v = load64 (pmem s) pte in
             if \<not> flag v PTE_V then Inr 0
             else if \<not> flag v PTE_U then Inr 0
             else Inr (PTE2PA v)))"

section \<open>Mapping\<close>

function mappages_loop ::
  "u64 \<Rightarrow> u64 \<Rightarrow> u64 \<Rightarrow> u64 \<Rightarrow> c_int \<Rightarrow> 'a memory_scheme \<Rightarrow> stop + c_int \<times> 'a memory_scheme" where
  "mappages_loop pagetable a last_page pa perm s =
     bindE (walk pagetable a True s) (\<lambda>(pte, s).
     if pte = 0 then Inr (-1, s)
     else if flag (load64 (pmem s) pte) PTE_V then Inl (Panic ''remap'')
     else let s = s\<lparr>pmem := store64 (pmem s) pte (or (or (PA2PTE pa) (scast perm)) PTE_V)\<rparr> in
       if a = last_page then Inr (0, s)
       else mappages_loop pagetable (a + PGSIZE) last_page (pa + PGSIZE) perm s)"
  by pat_completeness auto
termination
proof (relation "measure (\<lambda>(pagetable, a, last_page, pa, perm, s). unat MAXVA - unat a)", goal_cases)
  case 1
  then show ?case by simp
next
  case (2 pagetable a last_page pa perm s x pte t u)
  then have "unat a < unat MAXVA" by (auto simp: walk_def word_less_nat_alt not_le split: if_splits)
  moreover from this have "unat (a + PGSIZE) = unat a + 4096"
    by (subst unat_add_lt) simp_all
  ultimately show ?case by simp
qed

declare mappages_loop.simps [simp del]

definition mappages ::
  "u64 \<Rightarrow> u64 \<Rightarrow> u64 \<Rightarrow> u64 \<Rightarrow> c_int \<Rightarrow> 'a memory_scheme \<Rightarrow> stop + c_int \<times> 'a memory_scheme" where
  "mappages pagetable va nbytes pa perm s =
     mappages_loop pagetable (PGROUNDDOWN va) (PGROUNDDOWN (va + nbytes - 1)) pa perm s"

definition kvmmap :: "u64 \<Rightarrow> u64 \<Rightarrow> u64 \<Rightarrow> u64 \<Rightarrow> c_int \<Rightarrow> 'a memory_scheme \<Rightarrow> stop + 'a memory_scheme" where
  "kvmmap kpgtbl va pa sz perm s =
     bindE (mappages kpgtbl va sz pa perm s) (\<lambda>(r, s). if r \<noteq> 0 then Inl (Panic ''kvmmap'') else Inr s)"

text \<open>
  The page-wise loops \<open>for(a = start; a < end; a += PGSIZE)\<close>. Every body calls \<open>walk\<close>, which
  panics from MAXVA on, so the loop never gets to the point where \<open>a\<close> would wrap around.
\<close>

definition page_range :: "u64 \<Rightarrow> u64 \<Rightarrow> u64 list" where
  "page_range a b = pages_from a ((unat b - unat a + 4095) div 4096)"

definition unmap_one :: "u64 \<Rightarrow> bool \<Rightarrow> u64 \<Rightarrow> 'a memory_scheme \<Rightarrow> stop + 'a memory_scheme" where
  "unmap_one pagetable do_free a s =
     bindE (walk pagetable a False s) (\<lambda>(pte, s).
     if pte = 0 then Inl (Panic ''uvmunmap: walk'')
     else let v = load64 (pmem s) pte in
       if \<not> flag v PTE_V then Inl (Panic ''uvmunmap: not mapped'')
       else if PTE_FLAGS v = PTE_V then Inl (Panic ''uvmunmap: not a leaf'')
       else bindE (if do_free then kfree (PTE2PA v) s else Inr s) (\<lambda>s.
            Inr (s\<lparr>pmem := store64 (pmem s) pte 0\<rparr>)))"

definition uvmunmap :: "u64 \<Rightarrow> u64 \<Rightarrow> u64 \<Rightarrow> bool \<Rightarrow> 'a memory_scheme \<Rightarrow> stop + 'a memory_scheme" where
  "uvmunmap pagetable va npages do_free s =
     (if va mod PGSIZE \<noteq> 0 then Inl (Panic ''uvmunmap: not aligned'')
      else foldE (unmap_one pagetable do_free) (page_range va (va + npages * PGSIZE)) s)"

definition uvmcreate :: "'a memory_scheme \<Rightarrow> stop + u64 \<times> 'a memory_scheme" where
  "uvmcreate s = bindE (kalloc s) (\<lambda>(pagetable, s).
     if pagetable = 0 then Inr (0, s)
     else Inr (pagetable, s\<lparr>pmem := memset pagetable 0 4096 (pmem s)\<rparr>))"

definition uvminit :: "u64 \<Rightarrow> u8 list \<Rightarrow> 'a memory_scheme \<Rightarrow> stop + 'a memory_scheme" where
  "uvminit pagetable src s =
     (if 4096 \<le> length src then Inl (Panic ''inituvm: more than a page'')
      else bindE (kalloc s) (\<lambda>(page, s).
        let s = s\<lparr>pmem := memset page 0 4096 (pmem s)\<rparr> in
        bindE (mappages pagetable 0 PGSIZE page (4 + 2 + 8 + 16) s) (\<lambda>(_, s).
        Inr (s\<lparr>pmem := store_bytes (pmem s) page src\<rparr>))))"

section \<open>Growing and shrinking\<close>

definition uvmdealloc :: "u64 \<Rightarrow> u64 \<Rightarrow> u64 \<Rightarrow> 'a memory_scheme \<Rightarrow> stop + u64 \<times> 'a memory_scheme" where
  "uvmdealloc pagetable oldsz newsz s =
     (if oldsz \<le> newsz then Inr (oldsz, s)
      else if PGROUNDUP newsz < PGROUNDUP oldsz then
        let npages = (ucast ((PGROUNDUP oldsz - PGROUNDUP newsz) div PGSIZE) :: c_int) in
        bindE (uvmunmap pagetable (PGROUNDUP newsz) (scast npages) True s) (\<lambda>s. Inr (newsz, s))
      else Inr (newsz, s))"

definition uvmalloc_one ::
  "u64 \<Rightarrow> u64 \<Rightarrow> u64 \<Rightarrow> 'a memory_scheme \<Rightarrow> stop + u64 option \<times> 'a memory_scheme" where
  "uvmalloc_one pagetable oldsz a s =
     bindE (kalloc s) (\<lambda>(page, s).
     if page = 0 then bindE (uvmdealloc pagetable a oldsz s) (\<lambda>(_, s). Inr (Some 0, s))
     else
       let s = s\<lparr>pmem := memset page 0 4096 (pmem s)\<rparr> in
       bindE (mappages pagetable a PGSIZE page (4 + 8 + 2 + 16) s) (\<lambda>(r, s).
       if r \<noteq> 0 then
         bindE (kfree page s) (\<lambda>s.
         bindE (uvmdealloc pagetable a oldsz s) (\<lambda>(_, s). Inr (Some 0, s)))
       else Inr (None, s)))"

definition uvmalloc :: "u64 \<Rightarrow> u64 \<Rightarrow> u64 \<Rightarrow> 'a memory_scheme \<Rightarrow> stop + u64 \<times> 'a memory_scheme" where
  "uvmalloc pagetable oldsz newsz s =
     (if newsz < oldsz then Inr (oldsz, s)
      else let oldsz = PGROUNDUP oldsz in
        bindE (scanE (uvmalloc_one pagetable oldsz) (page_range oldsz newsz) s) (\<lambda>(r, s).
        Inr (case r of Some v \<Rightarrow> v | None \<Rightarrow> newsz, s)))"

text \<open>
  \<open>freewalk\<close> recurses once per level of the table; a table has three levels, so it is run
  with fuel 3 (\<open>uvmfree\<close>).
\<close>

fun freewalk :: "nat \<Rightarrow> u64 \<Rightarrow> 'a memory_scheme \<Rightarrow> stop + 'a memory_scheme" where
  "freewalk 0 pagetable s = Inl OutOfFuel"
| "freewalk (Suc fuel) pagetable s =
     bindE (foldE (\<lambda>i s.
       let slot = pagetable + 8 * of_nat i; pte = load64 (pmem s) slot in
       if flag pte PTE_V \<and> \<not> flag pte (2 + 4 + 8) then
         bindE (freewalk fuel (PTE2PA pte) s) (\<lambda>s. Inr (s\<lparr>pmem := store64 (pmem s) slot 0\<rparr>))
       else if flag pte PTE_V then Inl (Panic ''freewalk: leaf'')
       else Inr s) [0..<512] s) (kfree pagetable)"

definition uvmfree :: "u64 \<Rightarrow> u64 \<Rightarrow> 'a memory_scheme \<Rightarrow> stop + 'a memory_scheme" where
  "uvmfree pagetable sz s =
     bindE (if 0 < sz then uvmunmap pagetable 0 (PGROUNDUP sz div PGSIZE) True s else Inr s)
       (freewalk 3 pagetable)"

definition uvmcopy_one :: "u64 \<Rightarrow> u64 \<Rightarrow> u64 \<Rightarrow> 'a memory_scheme \<Rightarrow> stop + u64 option \<times> 'a memory_scheme" where
  "uvmcopy_one old new i s =
     bindE (walk old i False s) (\<lambda>(pte, s).
     if pte = 0 then Inl (Panic ''uvmcopy: pte should exist'')
     else let v = load64 (pmem s) pte in
       if \<not> flag v PTE_V then Inl (Panic ''uvmcopy: page not present'')
       else let pa = PTE2PA v; flags = (ucast (PTE_FLAGS v) :: u32) in
         bindE (kalloc s) (\<lambda>(page, s).
         if page = 0 then Inr (Some i, s)
         else
           let s = s\<lparr>pmem := memmove page pa 4096 (pmem s)\<rparr> in
           bindE (mappages new i PGSIZE page flags s) (\<lambda>(r, s).
           if r \<noteq> 0 then bindE (kfree page s) (\<lambda>s. Inr (Some i, s))
           else Inr (None, s))))"

definition uvmcopy :: "u64 \<Rightarrow> u64 \<Rightarrow> u64 \<Rightarrow> 'a memory_scheme \<Rightarrow> stop + c_int \<times> 'a memory_scheme" where
  "uvmcopy old new sz s =
     bindE (scanE (uvmcopy_one old new) (page_range 0 sz) s) (\<lambda>(r, s).
     case r of
       None \<Rightarrow> Inr (0, s)
     | Some i \<Rightarrow> bindE (uvmunmap new 0 (i div PGSIZE) True s) (\<lambda>s. Inr (-1, s)))"

definition uvmclear :: "u64 \<Rightarrow> u64 \<Rightarrow> 'a memory_scheme \<Rightarrow> stop + 'a memory_scheme" where
  "uvmclear pagetable va s =
     bindE (walk pagetable va False s) (\<lambda>(pte, s).
     if pte = 0 then Inl (Panic ''uvmclear'')
     else Inr (s\<lparr>pmem := store64 (pmem s) pte (and (load64 (pmem s) pte) (not PTE_U))\<rparr>))"

section \<open>Copying between kernel and user space\<close>

text \<open>How many of \<open>len\<close> bytes at user address \<open>va\<close> lie in the page of \<open>va\<close>.\<close>

definition chunk :: "u64 \<Rightarrow> nat \<Rightarrow> nat" where
  "chunk va len = min (unat (PGSIZE - (va - PGROUNDDOWN va))) len"

lemma page_offset_lt: "unat (va - PGROUNDDOWN va) < 4096"
proof -
  have "PGROUNDDOWN va \<le> va" by (simp add: word_le_nat_alt unat_PGROUNDDOWN)
  then have "unat (va - PGROUNDDOWN va) = unat va - unat va div 4096 * 4096"
    by (simp add: unat_sub unat_PGROUNDDOWN)
  also have "\<dots> = unat va mod 4096" by (simp add: minus_div_mult_eq_mod)
  finally show ?thesis by simp
qed

lemma unat_page_rest: "unat (PGSIZE - (va - PGROUNDDOWN va)) = 4096 - unat (va - PGROUNDDOWN va)"
  using page_offset_lt [of va] by (subst unat_sub) (simp_all add: word_le_nat_alt)

lemma chunk_pos: "0 < len \<Longrightarrow> 0 < chunk va len"
  using page_offset_lt [of va] by (simp add: chunk_def unat_page_rest)

function copyout :: "u64 \<Rightarrow> u64 \<Rightarrow> u8 list \<Rightarrow> 'a memory_scheme \<Rightarrow> stop + c_int \<times> 'a memory_scheme" where
  "copyout pagetable dstva src s =
     (if src = [] then Inr (0, s)
      else let va0 = PGROUNDDOWN dstva in
        bindE (walkaddr pagetable va0 s) (\<lambda>pa0.
        if pa0 = 0 then Inr (-1, s)
        else let n = chunk dstva (length src) in
          copyout pagetable (va0 + PGSIZE) (drop n src)
            (s\<lparr>pmem := store_bytes (pmem s) (pa0 + (dstva - va0)) (take n src)\<rparr>)))"
  by pat_completeness auto
termination
  by (relation "measure (\<lambda>(pagetable, dstva, src, s). length src)") (auto simp: chunk_pos)

declare copyout.simps [simp del]

function copyin :: "u64 \<Rightarrow> u64 \<Rightarrow> nat \<Rightarrow> 'a memory_scheme \<Rightarrow> stop + c_int \<times> u8 list" where
  "copyin pagetable srcva len s =
     (if len = 0 then Inr (0, [])
      else let va0 = PGROUNDDOWN srcva in
        bindE (walkaddr pagetable va0 s) (\<lambda>pa0.
        if pa0 = 0 then Inr (-1, [])
        else let n = chunk srcva len in
          bindE (copyin pagetable (va0 + PGSIZE) (len - n) s) (\<lambda>(r, bs).
          Inr (r, bytes (pmem s) (pa0 + (srcva - va0)) n @ bs))))"
  by pat_completeness auto
termination
  by (relation "measure (\<lambda>(pagetable, srcva, len, s). len)") (auto simp: chunk_pos)

declare copyin.simps [simp del]

text \<open>The bytes up to and including the first NUL, if there is one among the \<open>n\<close> at \<open>p\<close>.\<close>

fun copy_str :: "mem \<Rightarrow> u64 \<Rightarrow> nat \<Rightarrow> bool \<times> u8 list" where
  "copy_str m p 0 = (False, [])"
| "copy_str m p (Suc n) =
     (if m p = 0 then (True, [0])
      else let (got_null, bs) = copy_str m (p + 1) n in (got_null, m p # bs))"

function copyinstr :: "u64 \<Rightarrow> u64 \<Rightarrow> nat \<Rightarrow> 'a memory_scheme \<Rightarrow> stop + c_int \<times> u8 list" where
  "copyinstr pagetable srcva maxlen s =
     (if maxlen = 0 then Inr (-1, [])
      else let va0 = PGROUNDDOWN srcva in
        bindE (walkaddr pagetable va0 s) (\<lambda>pa0.
        if pa0 = 0 then Inr (-1, [])
        else let n = chunk srcva maxlen; (got_null, bs) = copy_str (pmem s) (pa0 + (srcva - va0)) n in
          if got_null then Inr (0, bs)
          else bindE (copyinstr pagetable (va0 + PGSIZE) (maxlen - n) s) (\<lambda>(r, cs). Inr (r, bs @ cs))))"
  by pat_completeness auto
termination
  by (relation "measure (\<lambda>(pagetable, srcva, maxlen, s). maxlen)") (auto simp: chunk_pos)

declare copyinstr.simps [simp del]

section \<open>The kernel's own page table\<close>

definition proc_mapstacks :: "u64 \<Rightarrow> 'a memory_scheme \<Rightarrow> stop + 'a memory_scheme" where
  "proc_mapstacks kpgtbl s =
     foldE (\<lambda>p s. bindE (kalloc s) (\<lambda>(pa, s).
       if pa = 0 then Inl (Panic ''kalloc'')
       else kvmmap kpgtbl (KSTACK p) pa PGSIZE (2 + 4) s)) [0..<NPROC] s"

text \<open>The linker's \<open>etext\<close> and \<open>trampoline\<close> are arguments.\<close>

definition kvmmake :: "u64 \<Rightarrow> u64 \<Rightarrow> 'a memory_scheme \<Rightarrow> stop + u64 \<times> 'a memory_scheme" where
  "kvmmake etext trampoline s =
     bindE (kalloc s) (\<lambda>(kpgtbl, s).
     let s = s\<lparr>pmem := memset kpgtbl 0 4096 (pmem s)\<rparr> in
     bindE (kvmmap kpgtbl 0x10000000 0x10000000 PGSIZE (2 + 4) s) (\<lambda>s.
     bindE (kvmmap kpgtbl 0x10001000 0x10001000 PGSIZE (2 + 4) s) (\<lambda>s.
     bindE (kvmmap kpgtbl 0x0c000000 0x0c000000 0x400000 (2 + 4) s) (\<lambda>s.
     bindE (kvmmap kpgtbl KERNBASE KERNBASE (etext - KERNBASE) (2 + 8) s) (\<lambda>s.
     bindE (kvmmap kpgtbl etext etext (PHYSTOP - etext) (2 + 4) s) (\<lambda>s.
     bindE (kvmmap kpgtbl TRAMPOLINE trampoline PGSIZE (2 + 8) s) (\<lambda>s.
     bindE (proc_mapstacks kpgtbl s) (\<lambda>s. Inr (kpgtbl, s)))))))))"

end
