(* ===== verification/Sleeplock.thy ===== *)
theory Sleeplock
  imports Scheduler
begin

text \<open>
  Sleep-locks, \<^verbatim>\<open>kernel/sleeplock.c\<close>: long-term locks held across disk operations. The wait
  loop of \<open>acquiresleep\<close> gets fuel, one unit per call of \<open>sleep\<close>. The file system runs these
  operations with \<open>stay_blocked\<close> as the switch: a path that has to sleep ends there with the
  outcome \<^const>\<open>Blocked\<close>.
\<close>

record sleeplock =
  sl_locked :: bool
  sl_name :: string
  sl_pid :: c_int

record slstate = pstate +
  slks :: "slk_id \<Rightarrow> sleeplock"

definition upd_slk :: "slk_id \<Rightarrow> (sleeplock \<Rightarrow> sleeplock) \<Rightarrow> 'a slstate_scheme \<Rightarrow> 'a slstate_scheme" where
  "upd_slk l f s = s\<lparr>slks := (slks s)(l := f (slks s l))\<rparr>"

definition stay_blocked :: "'s \<Rightarrow> stop + 's" where
  "stay_blocked s = Inl (Blocked ''sleep'')"

definition initsleeplock :: "slk_id \<Rightarrow> string \<Rightarrow> 'a slstate_scheme \<Rightarrow> 'a slstate_scheme" where
  "initsleeplock lk name s = upd_slk lk (\<lambda>l. l\<lparr>sl_name := name, sl_locked := False, sl_pid := 0\<rparr>) s"

fun acquiresleep_loop ::
  "nat \<Rightarrow> ('a slstate_scheme \<Rightarrow> stop + 'a slstate_scheme) \<Rightarrow> slk_id \<Rightarrow> 'a slstate_scheme \<Rightarrow> stop + 'a slstate_scheme" where
  "acquiresleep_loop fuel swtch lk s =
     (if sl_locked (slks s lk) then
        (case fuel of
           0 \<Rightarrow> Inl OutOfFuel
         | Suc n \<Rightarrow> bindE (sleep swtch (ChSleepLock lk) (SleepLk lk) s) (acquiresleep_loop n swtch lk))
      else Inr s)"

declare acquiresleep_loop.simps [simp del]

definition acquiresleep ::
  "nat \<Rightarrow> ('a slstate_scheme \<Rightarrow> stop + 'a slstate_scheme) \<Rightarrow> slk_id \<Rightarrow> 'a slstate_scheme \<Rightarrow> stop + 'a slstate_scheme" where
  "acquiresleep fuel swtch lk s =
     bindE (lacquire (SleepLk lk) s) (\<lambda>s.
     bindE (acquiresleep_loop fuel swtch lk s) (\<lambda>s.
     let s = upd_slk lk (\<lambda>l. l\<lparr>sl_locked := True\<rparr>) s in
     bindE (myproc s) (\<lambda>p.
     let s = upd_slk lk (\<lambda>l. l\<lparr>sl_pid := p_pid (procs s p)\<rparr>) s in
     lrelease (SleepLk lk) s)))"

definition releasesleep :: "slk_id \<Rightarrow> 'a slstate_scheme \<Rightarrow> stop + 'a slstate_scheme" where
  "releasesleep lk s =
     bindE (lacquire (SleepLk lk) s) (\<lambda>s.
     let s = upd_slk lk (\<lambda>l. l\<lparr>sl_locked := False, sl_pid := 0\<rparr>) s in
     bindE (wakeup (Some (ChSleepLock lk)) s) (lrelease (SleepLk lk)))"

definition holdingsleep :: "slk_id \<Rightarrow> 'a slstate_scheme \<Rightarrow> stop + bool \<times> 'a slstate_scheme" where
  "holdingsleep lk s =
     bindE (lacquire (SleepLk lk) s) (\<lambda>s.
     bindE (if sl_locked (slks s lk)
            then bindE (myproc s) (\<lambda>p. Inr (sl_pid (slks s lk) = p_pid (procs s p)))
            else Inr False) (\<lambda>r.
     bindE (lrelease (SleepLk lk) s) (\<lambda>s. Inr (r, s))))"

section \<open>Effect of the operations\<close>

lemma upd_slk_simps [simp]:
  "held (upd_slk l f s) = held s" "procs (upd_slk l f s) = procs s" "cur (upd_slk l f s) = cur s"
  "pmem (upd_slk l f s) = pmem s" "freelist (upd_slk l f s) = freelist s" "kend (upd_slk l f s) = kend s"
  "ticks (upd_slk l f s) = ticks s" "nextpid (upd_slk l f s) = nextpid s" "slstate.more (upd_slk l f s) = slstate.more s"
  "slks (upd_slk l f s) k = (if k = l then f (slks s l) else slks s k)"
  by (simp_all add: upd_slk_def)

text \<open>The state after the calling process \<open>p\<close> has taken \<open>lk\<close>.\<close>

definition slk_taken :: "slk_id \<Rightarrow> nat \<Rightarrow> 'a slstate_scheme \<Rightarrow> 'a slstate_scheme" where
  "slk_taken lk p s = upd_slk lk (\<lambda>l. l\<lparr>sl_locked := True, sl_pid := p_pid (procs s p)\<rparr>) s"

lemma acquiresleep_free:
  assumes "SleepLk lk \<notin> set (held s)" "\<not> sl_locked (slks s lk)" "cur s = Some p"
  shows "acquiresleep fuel swtch lk s = Inr (slk_taken lk p s)"
  using assms
  by (simp add: acquiresleep_def lock_simps acquiresleep_loop.simps myproc_def Let_def slk_taken_def upd_slk_def)

lemma acquiresleep_blocked:
  assumes "SleepLk lk \<notin> set (held s)" "sl_locked (slks s lk)" "cur s = Some p" "ProcLock p \<notin> set (held s)"
  shows "\<exists>e. acquiresleep (Suc fuel) stay_blocked lk s = Inl e"
  using assms
  by (simp add: acquiresleep_def lock_simps acquiresleep_loop.simps sleep_def sched_def myproc_def
      lholding_def stay_blocked_def Let_def)

lemma holdingsleep_eq:
  assumes "SleepLk lk \<notin> set (held s)" "cur s = Some p"
  shows "holdingsleep lk s = Inr (sl_locked (slks s lk) \<and> sl_pid (slks s lk) = p_pid (procs s p), s)"
  using assms by (simp add: holdingsleep_def lock_simps myproc_def)

lemma releasesleep_eq:
  assumes "SleepLk lk \<notin> set (held s)" "no_plocks s"
  shows "releasesleep lk s =
    Inr (awake (Some (ChSleepLock lk)) (upd_slk lk (\<lambda>l. l\<lparr>sl_locked := False, sl_pid := 0\<rparr>) s))"
proof -
  let ?s = "upd_slk lk (\<lambda>l. l\<lparr>sl_locked := False, sl_pid := 0\<rparr>) (s\<lparr>held := SleepLk lk # held s\<rparr>)"
  have "no_plocks ?s" using assms(2) by (simp add: no_plocks_def)
  moreover have "?s = (upd_slk lk (\<lambda>l. l\<lparr>sl_locked := False, sl_pid := 0\<rparr>) s)\<lparr>held := SleepLk lk # held s\<rparr>"
    by (simp add: upd_slk_def)
  ultimately show ?thesis
    using assms(1) by (simp add: releasesleep_def wakeup_eq awake_held lock_simps Let_def)
qed

lemma slks_awake [simp]: "slks (awake c s) = slks s"
  by (simp add: awake_def table_map_def)

section \<open>Properties\<close>


definition demo_slstate :: slstate where
  "demo_slstate = \<lparr>held = [], pmem = (\<lambda>_. 0), freelist = 0, kend = 0x80030000, procs = demo_procs, nextpid = 4,
     ticks = 20, initproc = Some 0, cur = Some 1, kout = [], pr_locking = True,
     slks = (\<lambda>_. \<lparr>sl_locked = False, sl_name = ''buffer'', sl_pid = 0\<rparr>)\<rparr>"


end
