(* ===== verification/Layout.thy ===== *)
theory Layout
  imports Kalloc
begin

text \<open>
  Integers inside byte arrays, little-endian as on RISC-V: the fields of the on-disk and
  in-memory structures that the code reads by casting a \<open>char *\<close>. A read or write that
  reaches past the end of the array is undefined in C; \<open>put_bytes\<close> is only used in range.
\<close>

definition get_bytes :: "u8 list \<Rightarrow> nat \<Rightarrow> nat \<Rightarrow> u8 list" where
  "get_bytes d off n = take n (drop off d)"

definition put_bytes :: "u8 list \<Rightarrow> nat \<Rightarrow> u8 list \<Rightarrow> u8 list" where
  "put_bytes d off bs = take off d @ bs @ drop (off + length bs) d"

definition get16 :: "u8 list \<Rightarrow> nat \<Rightarrow> u16" where
  "get16 d off = ucast (word_of (get_bytes d off 2))"

definition put16 :: "u8 list \<Rightarrow> nat \<Rightarrow> u16 \<Rightarrow> u8 list" where
  "put16 d off v = put_bytes d off (bytes_of 2 (ucast v))"

definition get32 :: "u8 list \<Rightarrow> nat \<Rightarrow> u32" where
  "get32 d off = ucast (word_of (get_bytes d off 4))"

definition put32 :: "u8 list \<Rightarrow> nat \<Rightarrow> u32 \<Rightarrow> u8 list" where
  "put32 d off v = put_bytes d off (bytes_of 4 (ucast v))"

lemma length_put_bytes [simp]: "off + length bs \<le> length d \<Longrightarrow> length (put_bytes d off bs) = length d"
  by (simp add: put_bytes_def)

lemma length_put [simp]:
  "off + 2 \<le> length d \<Longrightarrow> length (put16 d off v) = length d"
  "off + 4 \<le> length d \<Longrightarrow> length (put32 d off w) = length d"
  by (simp_all add: put16_def put32_def)

lemma get_put_bytes:
  "off + length bs \<le> length d \<Longrightarrow> length bs = n \<Longrightarrow> get_bytes (put_bytes d off bs) off n = bs"
  by (simp add: get_bytes_def put_bytes_def)

text \<open>Ranges that do not meet.\<close>

lemma get_put_bytes_other:
  assumes "off + length bs \<le> length d" "off' + n \<le> off \<or> off + length bs \<le> off'"
  shows "get_bytes (put_bytes d off bs) off' n = get_bytes d off' n"
proof (rule nth_equalityI)
  show l: "length (get_bytes (put_bytes d off bs) off' n) = length (get_bytes d off' n)"
    using assms(1) by (simp add: get_bytes_def)
  fix i assume "i < length (get_bytes (put_bytes d off bs) off' n)"
  then have i: "i < n" "off' + i < length d" using assms(1) by (auto simp: get_bytes_def)
  have "put_bytes d off bs ! (off' + i) = d ! (off' + i)"
    using assms i by (auto simp: put_bytes_def nth_append)
  then show "get_bytes (put_bytes d off bs) off' n ! i = get_bytes d off' n ! i"
    using i assms(1) by (simp add: get_bytes_def)
qed

lemma take_bit_small: "LENGTH('b) \<le> n \<Longrightarrow> take_bit n (ucast (v :: 'b::len word) :: 'a::len word) = ucast v"
  by (rule bit_word_eqI) (auto simp: bit_simps dest: bit_imp_le_length)

lemma ucast_down_up: "LENGTH('b) \<le> LENGTH('a) \<Longrightarrow> ucast (ucast (v :: 'b::len word) :: 'a::len word) = v"
  by (rule bit_word_eqI) (auto simp: bit_simps)

lemma get16_put16 [simp]: "off + 2 \<le> length d \<Longrightarrow> get16 (put16 d off v) off = v"
  by (simp add: get16_def put16_def get_put_bytes word_of_bytes_of take_bit_small ucast_down_up)

lemma get32_put32 [simp]: "off + 4 \<le> length d \<Longrightarrow> get32 (put32 d off v) off = v"
  by (simp add: get32_def put32_def get_put_bytes word_of_bytes_of take_bit_small ucast_down_up)

lemma get32_put32_other:
  "off + 4 \<le> length d \<Longrightarrow> off' + 4 \<le> off \<or> off + 4 \<le> off' \<Longrightarrow> get32 (put32 d off v) off' = get32 d off'"
  by (simp add: get32_def put32_def get_put_bytes_other)

lemma get16_put16_other:
  "off + 2 \<le> length d \<Longrightarrow> off' + 2 \<le> off \<or> off + 2 \<le> off' \<Longrightarrow> get16 (put16 d off v) off' = get16 d off'"
  by (simp add: get16_def put16_def get_put_bytes_other)

end
