(* ===== verification/Bio.thy ===== *)
theory Bio
  imports Sleeplock
begin

text \<open>
  The buffer cache, \<^verbatim>\<open>kernel/bio.c\<close>: 30 buffers on a doubly linked list through the head of
  the cache, most recently used first. The pointers are modelled as they are, and the list
  they form is the abstraction the lemmas are about. The disk is an image and the sequence
  of writes completed so far; \<open>disk_rw\<close> is what \<open>virtio_disk_rw\<close> promises once the device has
  answered, a transfer of one whole block.
\<close>

section \<open>State\<close>

abbreviation NBUF :: nat where "NBUF \<equiv> 30"
abbreviation BSIZE :: nat where "BSIZE \<equiv> 1024"

datatype bref = Head | Buf nat

record buf =
  b_valid :: bool
  b_dev :: u32
  b_blockno :: u32
  b_refcnt :: u32
  b_prev :: bref
  b_next :: bref
  b_data :: "u8 list"

record bstate = slstate +
  bufs :: "nat \<Rightarrow> buf"
  bhead_prev :: bref
  bhead_next :: bref
  dimage :: "u32 \<Rightarrow> u8 list"
  dwrites :: "(u32 \<times> u8 list) list"

definition upd_buf :: "nat \<Rightarrow> (buf \<Rightarrow> buf) \<Rightarrow> 'a bstate_scheme \<Rightarrow> 'a bstate_scheme" where
  "upd_buf b f s = s\<lparr>bufs := (bufs s)(b := f (bufs s b))\<rparr>"

fun get_next :: "bref \<Rightarrow> 'a bstate_scheme \<Rightarrow> bref" where
  "get_next Head s = bhead_next s"
| "get_next (Buf b) s = b_next (bufs s b)"

fun get_prev :: "bref \<Rightarrow> 'a bstate_scheme \<Rightarrow> bref" where
  "get_prev Head s = bhead_prev s"
| "get_prev (Buf b) s = b_prev (bufs s b)"

fun set_next :: "bref \<Rightarrow> bref \<Rightarrow> 'a bstate_scheme \<Rightarrow> 'a bstate_scheme" where
  "set_next Head r s = s\<lparr>bhead_next := r\<rparr>"
| "set_next (Buf b) r s = upd_buf b (\<lambda>x. x\<lparr>b_next := r\<rparr>) s"

fun set_prev :: "bref \<Rightarrow> bref \<Rightarrow> 'a bstate_scheme \<Rightarrow> 'a bstate_scheme" where
  "set_prev Head r s = s\<lparr>bhead_prev := r\<rparr>"
| "set_prev (Buf b) r s = upd_buf b (\<lambda>x. x\<lparr>b_prev := r\<rparr>) s"

definition put_block :: "(u32 \<Rightarrow> u8 list) \<Rightarrow> u32 \<times> u8 list \<Rightarrow> u32 \<Rightarrow> u8 list" where
  "put_block d w = d(fst w := snd w)"

definition disk_now :: "'a bstate_scheme \<Rightarrow> u32 \<Rightarrow> u8 list" where
  "disk_now s = foldl put_block (dimage s) (dwrites s)"

definition disk_rw :: "nat \<Rightarrow> bool \<Rightarrow> 'a bstate_scheme \<Rightarrow> 'a bstate_scheme" where
  "disk_rw b write s =
     (if write then s\<lparr>dwrites := dwrites s @ [(b_blockno (bufs s b), b_data (bufs s b))]\<rparr>
      else upd_buf b (\<lambda>x. x\<lparr>b_data := disk_now s (b_blockno x)\<rparr>) s)"

section \<open>Operations\<close>

text \<open>\<open>b\<close> becomes the first element of the list.\<close>

definition push_front :: "nat \<Rightarrow> 'a bstate_scheme \<Rightarrow> 'a bstate_scheme" where
  "push_front b s =
     (let s = set_next (Buf b) (get_next Head s) s;
          s = set_prev (Buf b) Head s
      in s)"

definition link_front :: "nat \<Rightarrow> 'a bstate_scheme \<Rightarrow> 'a bstate_scheme" where
  "link_front b s =
     (let s = set_prev (get_next Head s) (Buf b) s;
          s = set_next Head (Buf b) s
      in s)"

definition unlink :: "nat \<Rightarrow> 'a bstate_scheme \<Rightarrow> 'a bstate_scheme" where
  "unlink b s =
     (let s = set_prev (get_next (Buf b) s) (get_prev (Buf b) s) s;
          s = set_next (get_prev (Buf b) s) (get_next (Buf b) s) s
      in s)"

definition binit :: "'a bstate_scheme \<Rightarrow> 'a bstate_scheme" where
  "binit s =
     (let s = set_prev Head Head s; s = set_next Head Head s
      in fold (\<lambda>b s. link_front b (initsleeplock (BufSlk b) ''buffer'' (push_front b s))) [0..<NBUF] s)"

text \<open>The two searches of \<open>bget\<close>, along \<open>next\<close> and along \<open>prev\<close>.\<close>

fun search :: "nat \<Rightarrow> (bref \<Rightarrow> bref) \<Rightarrow> (nat \<Rightarrow> bool) \<Rightarrow> bref \<Rightarrow> stop + nat option" where
  "search fuel step P Head = Inr None"
| "search 0 step P (Buf b) = Inl OutOfFuel"
| "search (Suc fuel) step P (Buf b) =
     (if P b then Inr (Some b) else search fuel step P (step (Buf b)))"

definition bget :: "u32 \<Rightarrow> u32 \<Rightarrow> 'a bstate_scheme \<Rightarrow> stop + nat \<times> 'a bstate_scheme" where
  "bget dev blockno s =
     bindE (lacquire BcacheLock s) (\<lambda>s.
     bindE (search NBUF (\<lambda>r. get_next r s)
              (\<lambda>b. b_dev (bufs s b) = dev \<and> b_blockno (bufs s b) = blockno) (get_next Head s)) (\<lambda>hit.
     case hit of
       Some b \<Rightarrow>
         let s = upd_buf b (\<lambda>x. x\<lparr>b_refcnt := b_refcnt x + 1\<rparr>) s in
         bindE (lrelease BcacheLock s) (\<lambda>s.
         bindE (acquiresleep 1 stay_blocked (BufSlk b) s) (\<lambda>s. Inr (b, s)))
     | None \<Rightarrow>
         bindE (search NBUF (\<lambda>r. get_prev r s) (\<lambda>b. b_refcnt (bufs s b) = 0) (get_prev Head s)) (\<lambda>free.
         case free of
           Some b \<Rightarrow>
             let s = upd_buf b (\<lambda>x. x\<lparr>b_dev := dev, b_blockno := blockno, b_valid := False, b_refcnt := 1\<rparr>) s in
             bindE (lrelease BcacheLock s) (\<lambda>s.
             bindE (acquiresleep 1 stay_blocked (BufSlk b) s) (\<lambda>s. Inr (b, s)))
         | None \<Rightarrow> Inl (Panic ''bget: no buffers''))))"

definition bread :: "u32 \<Rightarrow> u32 \<Rightarrow> 'a bstate_scheme \<Rightarrow> stop + nat \<times> 'a bstate_scheme" where
  "bread dev blockno s =
     bindE (bget dev blockno s) (\<lambda>(b, s).
     if \<not> b_valid (bufs s b) then
       let s = disk_rw b False s; s = upd_buf b (\<lambda>x. x\<lparr>b_valid := True\<rparr>) s in Inr (b, s)
     else Inr (b, s))"

definition bwrite :: "nat \<Rightarrow> 'a bstate_scheme \<Rightarrow> stop + 'a bstate_scheme" where
  "bwrite b s =
     bindE (holdingsleep (BufSlk b) s) (\<lambda>(h, s).
     if \<not> h then Inl (Panic ''bwrite'') else Inr (disk_rw b True s))"

definition brelse :: "nat \<Rightarrow> 'a bstate_scheme \<Rightarrow> stop + 'a bstate_scheme" where
  "brelse b s =
     bindE (holdingsleep (BufSlk b) s) (\<lambda>(h, s).
     if \<not> h then Inl (Panic ''brelse'')
     else
       bindE (releasesleep (BufSlk b) s) (\<lambda>s.
       bindE (lacquire BcacheLock s) (\<lambda>s.
       let s = upd_buf b (\<lambda>x. x\<lparr>b_refcnt := b_refcnt x - 1\<rparr>) s;
           s = (if b_refcnt (bufs s b) = 0 then link_front b (push_front b (unlink b s)) else s)
       in lrelease BcacheLock s)))"

definition bpin :: "nat \<Rightarrow> 'a bstate_scheme \<Rightarrow> stop + 'a bstate_scheme" where
  "bpin b = with_lock lacquire lrelease BcacheLock (\<lambda>s. Inr (upd_buf b (\<lambda>x. x\<lparr>b_refcnt := b_refcnt x + 1\<rparr>) s))"

definition bunpin :: "nat \<Rightarrow> 'a bstate_scheme \<Rightarrow> stop + 'a bstate_scheme" where
  "bunpin b = with_lock lacquire lrelease BcacheLock (\<lambda>s. Inr (upd_buf b (\<lambda>x. x\<lparr>b_refcnt := b_refcnt x - 1\<rparr>) s))"

section \<open>The list\<close>

text \<open>\<open>seg s r xs r'\<close>: from \<open>r\<close> the buffers \<open>xs\<close> follow in order, then \<open>r'\<close>, with matching back
  pointers.\<close>

fun seg :: "'a bstate_scheme \<Rightarrow> bref \<Rightarrow> nat list \<Rightarrow> bref \<Rightarrow> bool" where
  "seg s r [] r' \<longleftrightarrow> get_next r s = r' \<and> get_prev r' s = r"
| "seg s r (x # xs) r' \<longleftrightarrow> get_next r s = Buf x \<and> get_prev (Buf x) s = r \<and> seg s (Buf x) xs r'"

definition lru :: "'a bstate_scheme \<Rightarrow> nat list \<Rightarrow> bool" where
  "lru s xs \<longleftrightarrow> seg s Head xs Head \<and> distinct xs"

lemma seg_append: "seg s r (xs @ b # ys) r' \<longleftrightarrow> seg s r xs (Buf b) \<and> seg s (Buf b) ys r'"
  by (induction xs arbitrary: r) auto

lemma seg_unique: "seg s r xs Head \<Longrightarrow> seg s r ys Head \<Longrightarrow> xs = ys"
proof (induction xs arbitrary: r ys)
  case Nil
  then show ?case by (cases ys) auto
next
  case (Cons x xs)
  then show ?case by (cases ys) auto
qed

text \<open>Two states with the same pointers inside a segment have the same segment.\<close>

lemma seg_cong:
  assumes "\<And>x. x \<in> insert r (Buf ` set xs) \<Longrightarrow> get_next x t = get_next x s"
    and "\<And>x. x \<in> insert r' (Buf ` set xs) \<Longrightarrow> get_prev x t = get_prev x s"
  shows "seg t r xs r' = seg s r xs r'"
  using assms
proof (induction xs arbitrary: r)
  case Nil
  then show ?case by simp
next
  case (Cons x xs)
  have "seg t (Buf x) xs r' = seg s (Buf x) xs r'"
    by (rule Cons.IH) (use Cons.prems in auto)
  with Cons.prems(1) [of r] Cons.prems(2) [of "Buf x"] show ?case by simp
qed

lemma get_set [simp]:
  "get_next x (set_next r v s) = (if x = r then v else get_next x s)"
  "get_prev x (set_prev r v s) = (if x = r then v else get_prev x s)"
  "get_next x (set_prev r v s) = get_next x s"
  "get_prev x (set_next r v s) = get_prev x s"
  by (cases x; cases r; auto simp: upd_buf_def)+

declare get_next.simps [simp del] get_prev.simps [simp del] set_next.simps [simp del] set_prev.simps [simp del]

lemma last_seg: "seg s r xs r' \<Longrightarrow> get_prev r' s = (if xs = [] then r else Buf (last xs))"
  by (induction xs arbitrary: r) auto

lemma hd_seg: "seg s r xs r' \<Longrightarrow> get_next r s = (if xs = [] then r' else Buf (hd xs))"
  by (cases xs) auto

definition last_of :: "bref \<Rightarrow> nat list \<Rightarrow> bref" where
  "last_of r xs = (if xs = [] then r else Buf (last xs))"

lemma last_of_Cons [simp]: "last_of r (x # xs) = last_of (Buf x) xs"
  by (simp add: last_of_def)

lemma last_of_in: "last_of r xs \<in> insert r (Buf ` set xs)"
  by (simp add: last_of_def)

text \<open>Redirecting the end of a segment, and its start.\<close>

lemma seg_redirect:
  assumes "seg s r xs e" "distinct xs" "r \<notin> Buf ` set xs"
    and "\<And>x. x \<in> insert r (Buf ` set xs) \<Longrightarrow> get_next x t = (if x = last_of r xs then e' else get_next x s)"
    and "\<And>x. x \<in> Buf ` set xs \<Longrightarrow> get_prev x t = get_prev x s" "get_prev e' t = last_of r xs"
  shows "seg t r xs e'"
  using assms
proof (induction xs arbitrary: r)
  case Nil
  then show ?case by (simp add: last_of_def)
next
  case (Cons x xs)
  have "seg t (Buf x) xs e'"
    by (rule Cons.IH) (use Cons.prems in auto)
  moreover have "r \<noteq> last_of (Buf x) xs"
    using Cons.prems(3) last_of_in [of "Buf x" xs] by auto
  ultimately show ?case using Cons.prems by auto
qed

lemma seg_restart:
  assumes "seg s r xs e" "distinct xs" "e \<notin> Buf ` set xs" "r' \<notin> Buf ` set xs"
    and "get_next r' t = get_next r s" "get_prev (get_next r s) t = r'"
    and "\<And>x. x \<in> Buf ` set xs \<Longrightarrow> get_next x t = get_next x s"
    and "\<And>x. x \<in> insert e (Buf ` set xs) \<Longrightarrow> x \<noteq> get_next r s \<Longrightarrow> get_prev x t = get_prev x s"
  shows "seg t r' xs e"
proof (cases xs)
  case Nil
  then show ?thesis using assms by simp
next
  case (Cons x ys)
  have "seg t (Buf x) ys e = seg s (Buf x) ys e"
    by (rule seg_cong) (use assms Cons in auto)
  then show ?thesis using assms Cons by simp
qed

lemma unlink_lru:
  assumes "lru s (xs @ b # ys)"
  shows "lru (unlink b s) (xs @ ys)"
proof -
  have a: "seg s Head xs (Buf b)" "seg s (Buf b) ys Head" and d: "distinct (xs @ b # ys)"
    using assms by (simp_all add: lru_def seg_append)
  let ?n = "get_next (Buf b) s" and ?p = "get_prev (Buf b) s"
  have p: "?p = last_of Head xs" using last_seg [OF a(1)] by (simp add: last_of_def)
  have n: "?n = (if ys = [] then Head else Buf (hd ys))" using hd_seg [OF a(2)] by simp
  have nb: "?n \<noteq> Buf b" "?p \<noteq> Buf b" using d by (auto simp: n p last_of_def)
  have nx: "get_next x (unlink b s) = (if x = ?p then ?n else get_next x s)" for x
    using nb by (simp add: unlink_def Let_def)
  have pv: "get_prev x (unlink b s) = (if x = ?n then ?p else get_prev x s)" for x
    using nb by (simp add: unlink_def Let_def)
  have first: "seg (unlink b s) Head xs ?n"
    by (rule seg_redirect [OF a(1)]) (use d n in \<open>auto simp: nx pv p split: if_splits\<close>)
  show ?thesis
  proof (cases ys)
    case Nil
    then show ?thesis using first n d by (simp add: lru_def)
  next
    case (Cons y zs)
    have l: "last_of Head xs \<notin> Buf ` set ys" using last_of_in [of Head xs] d by auto
    have "seg (unlink b s) (Buf y) zs Head = seg s (Buf y) zs Head"
      by (rule seg_cong) (use d n l Cons in \<open>auto simp: nx pv p split: if_splits\<close>)
    then show ?thesis using first n d a(2) Cons by (simp add: lru_def seg_append)
  qed
qed

lemma push_link_lru:
  assumes "lru s xs" "b \<notin> set xs"
  shows "lru (link_front b (push_front b s)) (b # xs)"
proof -
  let ?t = "link_front b (push_front b s)" and ?n = "get_next Head s"
  have n: "?n \<noteq> Buf b" using hd_seg [of s Head xs Head] assms by (auto simp: lru_def)
  have nx: "get_next x ?t = (if x = Head then Buf b else if x = Buf b then ?n else get_next x s)" for x
    by (simp add: link_front_def push_front_def Let_def)
  have pv: "get_prev x ?t = (if x = ?n then Buf b else if x = Buf b then Head else get_prev x s)" for x
    by (simp add: link_front_def push_front_def Let_def)
  have "seg ?t (Buf b) xs Head"
    by (rule seg_restart [of s Head]) (use assms in \<open>auto simp: lru_def nx pv\<close>)
  then show ?thesis using assms n by (auto simp: lru_def nx pv)
qed

lemma lru_cong:
  assumes "\<And>x. get_next x t = get_next x s" "\<And>x. get_prev x t = get_prev x s"
  shows "lru t xs = lru s xs"
  using seg_cong [of Head xs t s Head] assms by (simp add: lru_def)

lemma search_next:
  "seg s r xs Head \<Longrightarrow> length xs \<le> fuel \<Longrightarrow>
   search fuel (\<lambda>r. get_next r s) P (get_next r s) = Inr (List.find P xs)"
proof (induction xs arbitrary: r fuel)
  case Nil
  then show ?case by simp
next
  case (Cons x xs)
  then obtain n where "fuel = Suc n" by (cases fuel) auto
  with Cons show ?case by simp
qed

lemma search_prev:
  "seg s Head xs r \<Longrightarrow> length xs \<le> fuel \<Longrightarrow>
   search fuel (\<lambda>r. get_prev r s) P (get_prev r s) = Inr (List.find P (rev xs))"
proof (induction xs arbitrary: r fuel rule: rev_induct)
  case Nil
  then show ?case by simp
next
  case (snoc x xs)
  then obtain n where n: "fuel = Suc n" by (cases fuel) auto
  have "seg s Head xs (Buf x)" "get_prev r s = Buf x" using snoc.prems by (simp_all add: seg_append)
  with snoc.IH [of "Buf x" n] snoc.prems n show ?case by simp
qed

section \<open>What the operations leave alone\<close>

lemma ptr_frame [simp]:
  "get_next r (s\<lparr>held := h\<rparr>) = get_next r s" "get_prev r (s\<lparr>held := h\<rparr>) = get_prev r s"
  "get_next r (upd_slk l f s) = get_next r s" "get_prev r (upd_slk l f s) = get_prev r s"
  "get_next r (awake c s) = get_next r s" "get_prev r (awake c s) = get_prev r s"
  "get_next r (s\<lparr>dwrites := w\<rparr>) = get_next r s" "get_prev r (s\<lparr>dwrites := w\<rparr>) = get_prev r s"
  by (cases r; simp add: get_next.simps get_prev.simps upd_slk_def awake_def table_map_def)+

lemma ptr_upd_buf [simp]:
  "(\<And>x. b_next (f x) = b_next x) \<Longrightarrow> get_next r (upd_buf b f s) = get_next r s"
  "(\<And>x. b_prev (f x) = b_prev x) \<Longrightarrow> get_prev r (upd_buf b f s) = get_prev r s"
  by (cases r; simp add: get_next.simps get_prev.simps upd_buf_def)+

lemma bufs_frame [simp]:
  "bufs (upd_slk l f s) = bufs s" "bufs (awake c s) = bufs s" "bufs (slk_taken l p s) = bufs s"
  "dimage (upd_slk l f s) = dimage s" "dimage (awake c s) = dimage s" "dimage (slk_taken l p s) = dimage s"
  "dwrites (upd_slk l f s) = dwrites s" "dwrites (awake c s) = dwrites s" "dwrites (slk_taken l p s) = dwrites s"
  "bstate.more (upd_slk l f s) = bstate.more s" "bstate.more (awake c s) = bstate.more s"
  "bstate.more (slk_taken l p s) = bstate.more s"
  by (simp_all add: upd_slk_def awake_def table_map_def slk_taken_def)

lemma upd_buf_simps [simp]:
  "held (upd_buf b f s) = held s" "procs (upd_buf b f s) = procs s" "cur (upd_buf b f s) = cur s"
  "slks (upd_buf b f s) = slks s" "dimage (upd_buf b f s) = dimage s" "dwrites (upd_buf b f s) = dwrites s"
  "pmem (upd_buf b f s) = pmem s" "ticks (upd_buf b f s) = ticks s" "bstate.more (upd_buf b f s) = bstate.more s"
  "bufs (upd_buf b f s) c = (if c = b then f (bufs s b) else bufs s c)"
  by (simp_all add: upd_buf_def)

lemma disk_now_frame [simp]:
  "disk_now (upd_slk l f s) = disk_now s" "disk_now (awake c s) = disk_now s" "disk_now (slk_taken l p s) = disk_now s"
  "disk_now (upd_buf b g s) = disk_now s" "disk_now (s\<lparr>held := h\<rparr>) = disk_now s"
  "disk_now (s\<lparr>slks := k\<rparr>) = disk_now s" "disk_now (s\<lparr>bufs := B\<rparr>) = disk_now s"
  by (simp_all add: disk_now_def)

lemma set_ptr_simps [simp]:
  "held (set_next r v s) = held s" "held (set_prev r v s) = held s" "cur (set_next r v s) = cur s"
  "cur (set_prev r v s) = cur s" "slks (set_next r v s) = slks s" "slks (set_prev r v s) = slks s"
  "procs (set_next r v s) = procs s" "procs (set_prev r v s) = procs s"
  "dimage (set_next r v s) = dimage s" "dimage (set_prev r v s) = dimage s"
  "dwrites (set_next r v s) = dwrites s" "dwrites (set_prev r v s) = dwrites s"
  "bstate.more (set_next r v s) = bstate.more s" "bstate.more (set_prev r v s) = bstate.more s"
  by (cases r; simp add: set_next.simps set_prev.simps)+

text \<open>The part of a buffer that is not a list pointer.\<close>

definition content :: "buf \<Rightarrow> bool \<times> u32 \<times> u32 \<times> u32 \<times> u8 list" where
  "content x = (b_valid x, b_dev x, b_blockno x, b_refcnt x, b_data x)"

lemma content_set_ptr [simp]:
  "content (bufs (set_next r v s) b) = content (bufs s b)" "content (bufs (set_prev r v s) b) = content (bufs s b)"
  by (cases r; simp add: set_next.simps set_prev.simps content_def)+

definition to_front :: "nat \<Rightarrow> 'a bstate_scheme \<Rightarrow> 'a bstate_scheme" where
  "to_front b s = link_front b (push_front b (unlink b s))"

lemma to_front_simps [simp]:
  "held (to_front b s) = held s" "cur (to_front b s) = cur s" "slks (to_front b s) = slks s"
  "procs (to_front b s) = procs s" "dimage (to_front b s) = dimage s" "dwrites (to_front b s) = dwrites s"
  "bstate.more (to_front b s) = bstate.more s" "content (bufs (to_front b s) c) = content (bufs s c)"
  by (simp_all add: to_front_def link_front_def push_front_def unlink_def Let_def)

lemma set_ptr_held:
  "set_next r v (s\<lparr>held := h\<rparr>) = (set_next r v s)\<lparr>held := h\<rparr>" "set_prev r v (s\<lparr>held := h\<rparr>) = (set_prev r v s)\<lparr>held := h\<rparr>"
  by (cases r; simp add: set_next.simps set_prev.simps upd_buf_def)+

lemma upd_buf_held: "upd_buf b f (s\<lparr>held := h\<rparr>) = (upd_buf b f s)\<lparr>held := h\<rparr>"
  by (simp add: upd_buf_def)

lemma to_front_held: "to_front b (s\<lparr>held := h\<rparr>) = (to_front b s)\<lparr>held := h\<rparr>"
  by (simp add: to_front_def link_front_def push_front_def unlink_def Let_def set_ptr_held)

lemma lru_to_front:
  assumes "lru s xs" "b \<in> set xs"
  shows "lru (to_front b s) (b # remove1 b xs)"
proof -
  obtain ys zs where xs: "xs = ys @ b # zs" "b \<notin> set ys" using split_list_first [OF assms(2)] by blast
  have "lru (unlink b s) (ys @ zs)" using assms(1) xs(1) by (simp add: unlink_lru)
  moreover have "b \<notin> set (ys @ zs)" using assms(1) xs(1) by (simp add: lru_def)
  ultimately have "lru (to_front b s) (b # ys @ zs)" unfolding to_front_def by (rule push_link_lru)
  then show ?thesis using xs by (simp add: remove1_append)
qed

section \<open>The operations on the list\<close>

definition caches :: "u32 \<Rightarrow> u32 \<Rightarrow> buf \<Rightarrow> bool" where
  "caches dev blockno x \<longleftrightarrow> b_dev x = dev \<and> b_blockno x = blockno"

definition recycled :: "u32 \<Rightarrow> u32 \<Rightarrow> buf \<Rightarrow> buf" where
  "recycled dev blockno x = x\<lparr>b_dev := dev, b_blockno := blockno, b_valid := False, b_refcnt := 1\<rparr>"

definition ref_up :: "buf \<Rightarrow> buf" where
  "ref_up x = x\<lparr>b_refcnt := b_refcnt x + 1\<rparr>"

lemma bget_eq:
  assumes "lru s xs" "length xs \<le> NBUF" "BcacheLock \<notin> set (held s)"
  shows "bget dev blockno s =
    (case List.find (\<lambda>b. caches dev blockno (bufs s b)) xs of
       Some b \<Rightarrow> bindE (acquiresleep 1 stay_blocked (BufSlk b) (upd_buf b ref_up s)) (\<lambda>s. Inr (b, s))
     | None \<Rightarrow>
         (case List.find (\<lambda>b. b_refcnt (bufs s b) = 0) (rev xs) of
            Some b \<Rightarrow> bindE (acquiresleep 1 stay_blocked (BufSlk b) (upd_buf b (recycled dev blockno) s)) (\<lambda>s. Inr (b, s))
          | None \<Rightarrow> Inl (Panic ''bget: no buffers'')))"
proof -
  have seg: "seg s Head xs Head" using assms(1) by (simp add: lru_def)
  have "upd_buf b f (s\<lparr>held := BcacheLock # held s\<rparr>)\<lparr>held := held s\<rparr> = upd_buf b f s" for b f
    by (simp add: upd_buf_def)
  with search_next [OF seg assms(2)] search_prev [OF seg assms(2)] assms(3) show ?thesis
    by (simp add: bget_def lock_simps caches_def recycled_def [abs_def] ref_up_def [abs_def] Let_def split: option.splits)
qed

lemma brelse_eq:
  assumes "cur s = Some p" "SleepLk (BufSlk b) \<notin> set (held s)" "BcacheLock \<notin> set (held s)" "no_plocks s"
  shows "brelse b s =
    (if sl_locked (slks s (BufSlk b)) \<and> sl_pid (slks s (BufSlk b)) = p_pid (procs s p) then
       let t = upd_buf b (\<lambda>x. x\<lparr>b_refcnt := b_refcnt x - 1\<rparr>)
                 (awake (Some (ChSleepLock (BufSlk b))) (upd_slk (BufSlk b) (\<lambda>l. l\<lparr>sl_locked := False, sl_pid := 0\<rparr>) s))
       in Inr (if b_refcnt (bufs s b) = 1 then to_front b t else t)
     else Inl (Panic ''brelse''))"
proof (cases "sl_locked (slks s (BufSlk b)) \<and> sl_pid (slks s (BufSlk b)) = p_pid (procs s p)")
  case False
  then show ?thesis using assms by (auto simp: brelse_def holdingsleep_eq)
next
  case True
  have sub: "b_refcnt (bufs s b) - 1 = 0 \<longleftrightarrow> b_refcnt (bufs s b) = 1" by simp
  show ?thesis
    unfolding brelse_def holdingsleep_eq [OF assms(2,1)] bindE.simps prod.case releasesleep_eq [OF assms(2,4)]
    using True assms(3) sub
    by (simp add: lock_simps Let_def upd_buf_held to_front_def [symmetric] to_front_held)
qed

section \<open>The cache as a block store\<close>

text \<open>
  The current contents of a block: those of the buffer that holds it, if there is one with
  valid data, and those on disk otherwise. In a consistent cache no block is in two buffers
  and a buffer nobody refers to has been written back.
\<close>

definition logical :: "'a bstate_scheme \<Rightarrow> u32 \<Rightarrow> u32 \<Rightarrow> u8 list" where
  "logical s dev n =
     (case List.find (\<lambda>b. caches dev n (bufs s b) \<and> b_valid (bufs s b)) [0..<NBUF] of
        Some b \<Rightarrow> b_data (bufs s b)
      | None \<Rightarrow> disk_now s n)"

definition unique_blocks :: "(nat \<Rightarrow> buf) \<Rightarrow> bool" where
  "unique_blocks B \<longleftrightarrow> (\<forall>b < NBUF. \<forall>c < NBUF. b_dev (B b) \<noteq> 0 \<and> caches (b_dev (B b)) (b_blockno (B b)) (B c) \<longrightarrow> b = c)"

definition clean_unused :: "(nat \<Rightarrow> buf) \<Rightarrow> (u32 \<Rightarrow> u8 list) \<Rightarrow> bool" where
  "clean_unused B d \<longleftrightarrow> (\<forall>b < NBUF. b_refcnt (B b) = 0 \<and> b_valid (B b) \<longrightarrow> b_data (B b) = d (b_blockno (B b)))"

definition binv :: "'a bstate_scheme \<Rightarrow> bool" where
  "binv s \<longleftrightarrow> (\<exists>xs. lru s xs \<and> set xs = {..<NBUF}) \<and> unique_blocks (bufs s) \<and> clean_unused (bufs s) (disk_now s) \<and>
     (\<forall>b < NBUF. (b_refcnt (bufs s b) = 0 \<longrightarrow> \<not> sl_locked (slks s (BufSlk b))) \<and> (b_valid (bufs s b) \<longrightarrow> b_dev (bufs s b) = 1))"

lemma logical_cached:
  assumes "unique_blocks (bufs s)" "b < NBUF" "caches dev n (bufs s b)" "dev \<noteq> 0"
  shows "logical s dev n = (if b_valid (bufs s b) then b_data (bufs s b) else disk_now s n)"
proof -
  have uniq: "c = b" if "c < NBUF" "caches dev n (bufs s c)" for c
    using assms that by (auto simp: unique_blocks_def caches_def)
  show ?thesis
  proof (cases "List.find (\<lambda>b. caches dev n (bufs s b) \<and> b_valid (bufs s b)) [0..<NBUF]")
    case None
    then have "\<not> b_valid (bufs s b)" using assms(2,3) unfolding find_upt_None by blast
    then show ?thesis unfolding logical_def None by simp
  next
    case (Some c)
    then have c: "c < NBUF" "caches dev n (bufs s c)" "b_valid (bufs s c)" unfolding find_upt_Some by auto
    from uniq [OF c(1,2)] show ?thesis unfolding logical_def Some using c by simp
  qed
qed

lemma logical_uncached: "(\<And>b. b < NBUF \<Longrightarrow> \<not> caches dev n (bufs s b)) \<Longrightarrow> logical s dev n = disk_now s n"
proof -
  assume "\<And>b. b < NBUF \<Longrightarrow> \<not> caches dev n (bufs s b)"
  then have "List.find (\<lambda>b. caches dev n (bufs s b) \<and> b_valid (bufs s b)) [0..<NBUF] = None"
    unfolding find_upt_None by blast
  then show ?thesis by (simp only: logical_def option.case)
qed

lemma unique_blocks_upd:
  assumes "unique_blocks B" "b < NBUF" "caches dev n y" "dev \<noteq> 0" "\<And>c. c < NBUF \<Longrightarrow> caches dev n (B c) \<Longrightarrow> c = b"
  shows "unique_blocks (B(b := y))"
proof -
  have "c = d" if h: "c < NBUF" "d < NBUF" "b_dev ((B(b := y)) c) \<noteq> 0"
      "caches (b_dev ((B(b := y)) c)) (b_blockno ((B(b := y)) c)) ((B(b := y)) d)" for c d
  proof (cases "c = b"; cases "d = b")
    assume a: "c = b" "d \<noteq> b"
    then have "caches dev n (B d)" using h(4) assms(3) by (simp add: caches_def)
    with assms(5) [OF h(2)] a show ?thesis by simp
  next
    assume a: "c \<noteq> b" "d = b"
    then have "caches dev n (B c)" using h(4) assms(3) by (simp add: caches_def)
    with assms(5) [OF h(1)] a show ?thesis by simp
  next
    assume "c \<noteq> b" "d \<noteq> b"
    then show ?thesis using h assms(1) unfolding unique_blocks_def by simp
  qed simp
  then show ?thesis unfolding unique_blocks_def by blast
qed

text \<open>Bringing a block into a buffer changes the contents of no block.\<close>

lemma fetch_ok:
  assumes inv: "unique_blocks (bufs s)" "clean_unused (bufs s) (disk_now s)" and b: "b < NBUF" "dev \<noteq> 0"
    and which: "caches dev n (bufs s b) \<or> b_refcnt (bufs s b) = 0 \<and> (\<forall>c < NBUF. \<not> caches dev n (bufs s c))"
    and y: "b_valid y" "caches dev n y" "b_data y = logical s dev n" "b_refcnt y \<noteq> 0"
    and t: "bufs t = (bufs s)(b := y)" "disk_now t = disk_now s"
  shows "unique_blocks (bufs t)" "clean_unused (bufs t) (disk_now t)" "dev' \<noteq> 0 \<Longrightarrow> logical t dev' n' = logical s dev' n'"
proof -
  have only: "c = b" if "c < NBUF" "caches dev n (bufs s c)" for c
    using which inv(1) b that by (auto simp: unique_blocks_def caches_def)
  show u: "unique_blocks (bufs t)" unfolding t by (rule unique_blocks_upd [OF inv(1) b(1) y(2) b(2) only])
  show "clean_unused (bufs t) (disk_now t)" using inv(2) y(4) by (auto simp: clean_unused_def t)
  show "logical t dev' n' = logical s dev' n'" if d: "dev' \<noteq> 0"
  proof (cases "\<exists>c < NBUF. caches dev' n' (bufs t c)")
    case True
    then obtain c where c: "c < NBUF" "caches dev' n' (bufs t c)" by blast
    have lt: "logical t dev' n' = (if b_valid (bufs t c) then b_data (bufs t c) else disk_now t n')"
      by (rule logical_cached [OF u c d])
    show ?thesis
    proof (cases "c = b")
      case True
      then have "dev' = dev" "n' = n" using c y(2) t by (auto simp: caches_def)
      then show ?thesis using lt True y t by simp
    next
      case False
      then have "caches dev' n' (bufs s c)" using c t by simp
      from logical_cached [OF inv(1) c(1) this d] lt False t show ?thesis by simp
    qed
  next
    case False
    then have lt: "logical t dev' n' = disk_now s n'" using logical_uncached [of dev' n' t] t by auto
    show ?thesis
    proof (cases "\<exists>c < NBUF. caches dev' n' (bufs s c)")
      case True
      then obtain c where c: "c < NBUF" "caches dev' n' (bufs s c)" by blast
      with False have "c = b" using t by (metis fun_upd_other)
      moreover have "\<not> caches dev n (bufs s b)"
      proof
        assume "caches dev n (bufs s b)"
        then have "dev' = dev" "n' = n" using c \<open>c = b\<close> by (auto simp: caches_def)
        then have "caches dev' n' (bufs t b)" using y(2) t by simp
        with False b(1) show False by blast
      qed
      ultimately have "b_refcnt (bufs s c) = 0" using which by simp
      then have "b_valid (bufs s c) \<Longrightarrow> b_data (bufs s c) = disk_now s n'"
        using inv(2) c by (auto simp: clean_unused_def caches_def)
      with logical_cached [OF inv(1) c d] lt show ?thesis by simp
    next
      case False
      then show ?thesis using logical_uncached [of dev' n' s] lt by auto
    qed
  qed
qed

section \<open>Reading a block\<close>

definition locked_by :: "c_int \<Rightarrow> nat \<Rightarrow> 'a slstate_scheme \<Rightarrow> slk_id \<Rightarrow> sleeplock" where
  "locked_by pid b s = (slks s)(BufSlk b := (slks s (BufSlk b))\<lparr>sl_locked := True, sl_pid := pid\<rparr>)"

definition read_into :: "nat \<Rightarrow> buf \<Rightarrow> 'a bstate_scheme \<Rightarrow> 'a bstate_scheme" where
  "read_into b y s = s\<lparr>slks := locked_by (p_pid (procs s (the (cur s)))) b s, bufs := (bufs s)(b := y)\<rparr>"

lemma distinct_full: "distinct xs \<Longrightarrow> set xs = {..<NBUF} \<Longrightarrow> length xs = NBUF"
  using distinct_card [of xs] by simp

lemma find_in: "List.find P xs = Some x \<Longrightarrow> x \<in> set xs \<and> P x"
  by (induction xs) (auto split: if_splits)

lemma find_none: "List.find P xs = None \<longleftrightarrow> (\<forall>x \<in> set xs. \<not> P x)"
  by (induction xs) auto

lemma bread_fetch:
  assumes "cur s = Some p" "held s = []" "\<not> sl_locked (slks s (BufSlk b))"
    and bg: "bget dev n s = bindE (acquiresleep 1 stay_blocked (BufSlk b) (upd_buf b f s)) (\<lambda>s. Inr (b, s))"
  shows "bread dev n s = Inr (b, read_into b
     (if b_valid (f (bufs s b)) then f (bufs s b)
      else (f (bufs s b))\<lparr>b_data := disk_now s (b_blockno (f (bufs s b))), b_valid := True\<rparr>) s)"
proof -
  have "acquiresleep 1 stay_blocked (BufSlk b) (upd_buf b f s) = Inr (slk_taken (BufSlk b) p (upd_buf b f s))"
    by (rule acquiresleep_free) (use assms in simp_all)
  then have "bget dev n s = Inr (b, slk_taken (BufSlk b) p (upd_buf b f s))" by (simp only: bg bindE.simps)
  then show ?thesis using assms(1)
    by (simp add: bread_def disk_rw_def Let_def read_into_def locked_by_def slk_taken_def upd_slk_def upd_buf_def)
qed

lemma bread_ok:
  assumes inv: "binv s" and q: "held s = []" "cur s = Some p" and dev: "dev \<noteq> 0"
    and free: "\<And>b. b < NBUF \<Longrightarrow> caches dev n (bufs s b) \<Longrightarrow> \<not> sl_locked (slks s (BufSlk b)) \<and> b_refcnt (bufs s b) \<noteq> - 1"
    and room: "\<exists>b < NBUF. caches dev n (bufs s b) \<or> b_refcnt (bufs s b) = 0"
  shows "\<exists>b y. bread dev n s = Inr (b, read_into b y s) \<and> b < NBUF \<and> \<not> sl_locked (slks s (BufSlk b)) \<and>
    b_valid y \<and> caches dev n y \<and> b_data y = logical s dev n \<and> b_next y = b_next (bufs s b) \<and> b_prev y = b_prev (bufs s b) \<and>
    (if caches dev n (bufs s b) then b_refcnt y = b_refcnt (bufs s b) + 1
     else b_refcnt y = 1 \<and> b_refcnt (bufs s b) = 0 \<and> (\<forall>c < NBUF. \<not> caches dev n (bufs s c)))"
proof -
  obtain xs where xs: "lru s xs" "set xs = {..<NBUF}" using inv by (auto simp: binv_def)
  then have len: "length xs \<le> NBUF" using distinct_full [of xs] by (simp add: lru_def)
  note bg = bget_eq [OF xs(1) len, of dev n]
  show ?thesis
  proof (cases "List.find (\<lambda>b. caches dev n (bufs s b)) xs")
    case (Some b)
    then have b: "b < NBUF" "caches dev n (bufs s b)" using find_in [OF Some] xs(2) by auto
    have "bread dev n s = Inr (b, read_into b (if b_valid (ref_up (bufs s b)) then ref_up (bufs s b)
      else (ref_up (bufs s b))\<lparr>b_data := disk_now s (b_blockno (ref_up (bufs s b))), b_valid := True\<rparr>) s)"
      by (rule bread_fetch [OF q(2,1)]) (use free [OF b] bg q(1) Some in simp_all)
    moreover have "logical s dev n = (if b_valid (bufs s b) then b_data (bufs s b) else disk_now s n)"
      using inv b dev by (intro logical_cached) (auto simp: binv_def)
    ultimately show ?thesis using b free [OF b] by (auto simp: ref_up_def caches_def)
  next
    case None
    then have un: "\<forall>c < NBUF. \<not> caches dev n (bufs s c)" using xs(2) by (auto simp: find_none)
    show ?thesis
    proof (cases "List.find (\<lambda>b. b_refcnt (bufs s b) = 0) (rev xs)")
      case None
      then show ?thesis using room un xs(2) by (auto simp: find_none)
    next
      case (Some b)
      then have b: "b < NBUF" "b_refcnt (bufs s b) = 0" using find_in [OF Some] xs(2) by auto
      let ?f = "recycled dev n"
      have "bread dev n s = Inr (b, read_into b (if b_valid (?f (bufs s b)) then ?f (bufs s b)
        else (?f (bufs s b))\<lparr>b_data := disk_now s (b_blockno (?f (bufs s b))), b_valid := True\<rparr>) s)"
        by (rule bread_fetch [OF q(2,1)]) (use inv b bg q(1) None Some in \<open>simp_all add: binv_def\<close>)
      moreover have "logical s dev n = disk_now s n" using un by (intro logical_uncached) simp
      ultimately show ?thesis using b un inv by (auto simp: recycled_def caches_def binv_def)
    qed
  qed
qed

lemma read_into_simps [simp]:
  "bufs (read_into b y s) = (bufs s)(b := y)" "disk_now (read_into b y s) = disk_now s" "held (read_into b y s) = held s"
  "cur (read_into b y s) = cur s" "procs (read_into b y s) = procs s" "dwrites (read_into b y s) = dwrites s"
  "dimage (read_into b y s) = dimage s" "bstate.more (read_into b y s) = bstate.more s"
  "slks (read_into b y s) = locked_by (p_pid (procs s (the (cur s)))) b s"
  by (simp_all add: read_into_def disk_now_def)

lemma lru_bufs_upd:
  assumes "\<And>r. get_next r t = get_next r s" "\<And>r. get_prev r t = get_prev r s" "\<exists>xs. lru s xs \<and> set xs = {..<NBUF}"
  shows "\<exists>xs. lru t xs \<and> set xs = {..<NBUF}"
  using assms lru_cong [of t s] by auto

lemma read_into_ok:
  assumes inv: "binv s" and b: "b < NBUF"
    and which: "caches 1 n (bufs s b) \<or> b_refcnt (bufs s b) = 0 \<and> (\<forall>c < NBUF. \<not> caches 1 n (bufs s c))"
    and y: "b_valid y" "caches 1 n y" "b_data y = logical s 1 n" "b_refcnt y \<noteq> 0" "b_next y = b_next (bufs s b)" "b_prev y = b_prev (bufs s b)"
  shows "binv (read_into b y s)" "dev' \<noteq> 0 \<Longrightarrow> logical (read_into b y s) dev' n' = logical s dev' n'"
proof -
  have i: "unique_blocks (bufs s)" "clean_unused (bufs s) (disk_now s)" using inv by (auto simp: binv_def)
  note f = fetch_ok [OF i b _ which y(1-4), of "read_into b y s"]
  have ptr: "get_next r (read_into b y s) = get_next r s" "get_prev r (read_into b y s) = get_prev r s" for r
    using y(5,6) by (cases r; simp add: get_next.simps get_prev.simps read_into_def)+
  show "binv (read_into b y s)"
    using f(1,2) lru_bufs_upd [OF ptr] inv y(1,2,4) by (auto simp: binv_def locked_by_def caches_def)
  show "logical (read_into b y s) dev' n' = logical s dev' n'" if "dev' \<noteq> 0"
    using f(3) that by simp
qed

section \<open>Writing and releasing\<close>

text \<open>Contents depend on the buffers' contents only.\<close>

lemma logical_cong:
  assumes "\<And>b. b < NBUF \<Longrightarrow> b_valid (bufs t b) = b_valid (bufs s b) \<and> b_dev (bufs t b) = b_dev (bufs s b) \<and>
      b_blockno (bufs t b) = b_blockno (bufs s b) \<and> b_data (bufs t b) = b_data (bufs s b)"
    and "disk_now t = disk_now s"
  shows "logical t dev n = logical s dev n"
proof -
  have f: "List.find (\<lambda>b. caches dev n (bufs t b) \<and> b_valid (bufs t b)) [0..<NBUF] =
        List.find (\<lambda>b. caches dev n (bufs s b) \<and> b_valid (bufs s b)) [0..<NBUF]"
    by (rule find_cong) (use assms(1) in \<open>auto simp: caches_def simp del: upt_rec_numeral\<close>)
  show ?thesis
  proof (cases "List.find (\<lambda>b. caches dev n (bufs s b) \<and> b_valid (bufs s b)) [0..<NBUF]")
    case None
    then show ?thesis using assms(2) by (simp only: logical_def f option.case)
  next
    case (Some b)
    then have "b < NBUF" unfolding find_upt_Some by simp
    with assms(1) Some show ?thesis by (simp only: logical_def f option.case)
  qed
qed

lemma disk_now_write: "disk_now (s\<lparr>dwrites := dwrites s @ [(n, d)]\<rparr>) = (disk_now s)(n := d)"
  by (simp add: disk_now_def put_block_def)

lemma bwrite_eq:
  assumes "cur s = Some p" "SleepLk (BufSlk b) \<notin> set (held s)"
  shows "bwrite b s = (if sl_locked (slks s (BufSlk b)) \<and> sl_pid (slks s (BufSlk b)) = p_pid (procs s p)
     then Inr (s\<lparr>dwrites := dwrites s @ [(b_blockno (bufs s b), b_data (bufs s b))]\<rparr>) else Inl (Panic ''bwrite''))"
  using assms by (simp add: bwrite_def holdingsleep_eq disk_rw_def)

lemma bwrite_ok:
  assumes inv: "binv s" and b: "b < NBUF" "b_valid (bufs s b)"
    and t: "t = s\<lparr>dwrites := dwrites s @ [(b_blockno (bufs s b), b_data (bufs s b))]\<rparr>"
  shows "binv t" "logical t 1 n = logical s 1 n"
proof -
  have bufs: "bufs t = bufs s" "slks t = slks s" and d: "disk_now t = (disk_now s)(b_blockno (bufs s b) := b_data (bufs s b))"
    by (simp_all add: t disk_now_write)
  have uniq: "c = b" if "c < NBUF" "caches 1 (b_blockno (bufs s b)) (bufs s c)" for c
    using inv b that by (auto simp: binv_def unique_blocks_def caches_def)
  have u: "unique_blocks (bufs t)" using inv by (simp add: binv_def bufs)
  have "clean_unused (bufs t) (disk_now t)"
    unfolding clean_unused_def bufs d
  proof (intro allI impI)
    fix c assume c: "c < NBUF" "b_refcnt (bufs s c) = 0 \<and> b_valid (bufs s c)"
    then have "b_dev (bufs s c) = 1" "b_data (bufs s c) = disk_now s (b_blockno (bufs s c))"
      using inv by (auto simp: binv_def clean_unused_def)
    with uniq [OF c(1)] show "b_data (bufs s c) = ((disk_now s)(b_blockno (bufs s b) := b_data (bufs s b))) (b_blockno (bufs s c))"
      by (auto simp: caches_def)
  qed
  with u show "binv t"
    using lru_bufs_upd [of t s] inv by (auto simp: binv_def bufs t)
  show "logical t 1 n = logical s 1 n"
  proof (cases "\<exists>c < NBUF. caches 1 n (bufs s c)")
    case True
    then obtain c where c: "c < NBUF" "caches 1 n (bufs s c)" by blast
    have "logical t 1 n = (if b_valid (bufs s c) then b_data (bufs s c) else disk_now t n)"
      using logical_cached [OF u c(1), of 1 n] c(2) by (simp add: bufs)
    moreover have "logical s 1 n = (if b_valid (bufs s c) then b_data (bufs s c) else disk_now s n)"
      using logical_cached [of s c 1 n] inv c by (simp add: binv_def)
    moreover have "\<not> b_valid (bufs s c) \<Longrightarrow> n \<noteq> b_blockno (bufs s b)" using uniq [OF c(1)] c(2) b(2) by auto
    ultimately show ?thesis by (simp add: d)
  next
    case False
    have "logical t 1 n = disk_now t n" by (rule logical_uncached) (use False bufs in auto)
    moreover have "logical s 1 n = disk_now s n" by (rule logical_uncached) (use False in auto)
    moreover have "n \<noteq> b_blockno (bufs s b)" using False b inv by (auto simp: binv_def caches_def)
    ultimately show ?thesis by (simp add: d)
  qed
qed

text \<open>
  Giving up a reference. The last one may be given up only once the block is on disk as it
  is in the buffer; that is what \<open>log_write\<close>'s pin is for.
\<close>

lemma brelse_ok:
  assumes inv: "binv s" and q: "cur s = Some p" "held s = []" and b: "b < NBUF"
    and own: "sl_locked (slks s (BufSlk b))" "sl_pid (slks s (BufSlk b)) = p_pid (procs s p)"
    and wb: "b_refcnt (bufs s b) = 1 \<Longrightarrow> b_valid (bufs s b) \<Longrightarrow> b_data (bufs s b) = disk_now s (b_blockno (bufs s b))"
    and xs: "lru s xs"
  shows "\<exists>s'. brelse b s = Inr s' \<and> binv s' \<and> lru s' (if b_refcnt (bufs s b) = 1 then b # remove1 b xs else xs) \<and>
    held s' = [] \<and> cur s' = cur s \<and> (\<forall>q. p_pid (procs s' q) = p_pid (procs s q)) \<and>
    (\<forall>c. content (bufs s' c) = (if c = b then content ((bufs s b)\<lparr>b_refcnt := b_refcnt (bufs s b) - 1\<rparr>) else content (bufs s c))) \<and>
    slks s' = (slks s)(BufSlk b := (slks s (BufSlk b))\<lparr>sl_locked := False, sl_pid := 0\<rparr>) \<and>
    dwrites s' = dwrites s \<and> dimage s' = dimage s \<and> bstate.more s' = bstate.more s \<and> (\<forall>n. logical s' 1 n = logical s 1 n)"
proof -
  let ?t = "upd_buf b (\<lambda>x. x\<lparr>b_refcnt := b_refcnt x - 1\<rparr>)
      (awake (Some (ChSleepLock (BufSlk b))) (upd_slk (BufSlk b) (\<lambda>l. l\<lparr>sl_locked := False, sl_pid := 0\<rparr>) s))"
  let ?s' = "if b_refcnt (bufs s b) = 1 then to_front b ?t else ?t"
  have run: "brelse b s = Inr ?s'"
    using brelse_eq [of s p b] q own by (simp add: no_plocks_def Let_def)
  have full: "set xs = {..<NBUF}"
  proof -
    obtain ys where ys: "lru s ys" "set ys = {..<NBUF}" using inv by (auto simp: binv_def)
    then have "xs = ys" using xs seg_unique [of s Head xs ys] by (simp add: lru_def)
    then show ?thesis using ys(2) by simp
  qed
  have lt: "lru ?t xs" using xs lru_cong [of ?t s xs] by simp
  have lru': "lru ?s' (if b_refcnt (bufs s b) = 1 then b # remove1 b xs else xs)"
    using lt lru_to_front [OF lt] b full by simp
  have c: "content (bufs ?s' c) = (if c = b then content ((bufs s b)\<lparr>b_refcnt := b_refcnt (bufs s b) - 1\<rparr>) else content (bufs s c))" for c
    by simp
  have flds: "b_valid (bufs ?s' c) = b_valid (bufs s c)" "b_dev (bufs ?s' c) = b_dev (bufs s c)"
      "b_blockno (bufs ?s' c) = b_blockno (bufs s c)" "b_data (bufs ?s' c) = b_data (bufs s c)"
      "b_refcnt (bufs ?s' c) = (if c = b then b_refcnt (bufs s b) - 1 else b_refcnt (bufs s c))" for c
    using c [of c] by (simp_all only: content_def prod.inject split: if_splits) (simp_all split: if_splits)
  have sl: "slks ?s' = (slks s)(BufSlk b := (slks s (BufSlk b))\<lparr>sl_locked := False, sl_pid := 0\<rparr>)"
    by (simp add: upd_slk_def)
  have d: "disk_now ?s' = disk_now s" by (simp add: disk_now_def)
  have "binv ?s'"
  proof -
    have "set (if b_refcnt (bufs s b) = 1 then b # remove1 b xs else xs) = {..<NBUF}"
      using full b xs by (auto simp: lru_def)
    then have l: "\<exists>ys. lru ?s' ys \<and> set ys = {..<NBUF}" using lru' by blast
    have "unique_blocks (bufs ?s')" using inv unfolding binv_def unique_blocks_def caches_def flds by blast
    moreover have "clean_unused (bufs ?s') (disk_now ?s')"
      using inv wb unfolding binv_def clean_unused_def flds d by auto
    moreover have "\<forall>c < NBUF. (b_refcnt (bufs ?s' c) = 0 \<longrightarrow> \<not> sl_locked (slks ?s' (BufSlk c))) \<and> (b_valid (bufs ?s' c) \<longrightarrow> b_dev (bufs ?s' c) = 1)"
      using inv unfolding binv_def flds sl by auto
    ultimately show ?thesis using l by (simp only: binv_def)
  qed
  moreover have "logical ?s' 1 n = logical s 1 n" for n
    by (rule logical_cong) (simp_all only: flds d simp_thms)
  ultimately show ?thesis using run lru' c sl q by (intro exI [of _ ?s']) (simp del: content_def)
qed

lemma binit_lru: "lru (binit s) (rev [0..<NBUF])"
proof -
  let ?step = "\<lambda>b s. link_front b (initsleeplock (BufSlk b) ''buffer'' (push_front b s))"
  let ?s0 = "set_next Head Head (set_prev Head Head s)"
  have slk: "link_front b (upd_slk l f t) = upd_slk l f (link_front b t)" for b l f and t :: "'a bstate_scheme"
  proof -
    have "set_next r v (upd_slk l f t) = upd_slk l f (set_next r v t)" "set_prev r v (upd_slk l f t) = upd_slk l f (set_prev r v t)"
      for r v and t :: "'a bstate_scheme"
      by (cases r; simp add: set_next.simps set_prev.simps upd_slk_def upd_buf_def)+
    then show ?thesis by (simp add: link_front_def Let_def)
  qed
  have "lru (fold ?step [0..<n] ?s0) (rev [0..<n])" for n
  proof (induction n)
    case 0
    then show ?case by (simp add: lru_def)
  next
    case (Suc n)
    from push_link_lru [OF Suc, of n] have "lru (link_front n (push_front n (fold ?step [0..<n] ?s0))) (rev [0..<Suc n])"
      by simp
    then show ?case by (simp add: initsleeplock_def slk lru_cong [of "upd_slk _ _ _" _ _])
  qed
  then show ?thesis unfolding binit_def Let_def by blast
qed

section \<open>A small disk\<close>

definition demo_buf :: buf where
  "demo_buf = \<lparr>b_valid = False, b_dev = 0, b_blockno = 0, b_refcnt = 0, b_prev = Head, b_next = Head, b_data = []\<rparr>"

definition demo_boot :: bstate where
  "demo_boot = \<lparr>held = [], pmem = (\<lambda>_. 0), freelist = 0, kend = 0x80030000, procs = demo_procs, nextpid = 4,
     ticks = 20, initproc = Some 0, cur = Some 1, kout = [], pr_locking = True,
     slks = (\<lambda>_. \<lparr>sl_locked = False, sl_name = [], sl_pid = 0\<rparr>),
     bufs = (\<lambda>_. demo_buf), bhead_prev = Head, bhead_next = Head,
     dimage = (\<lambda>n. replicate BSIZE (ucast n)), dwrites = []\<rparr>"

definition demo_bstate :: bstate where
  "demo_bstate = binit demo_boot"

lemma binit_frame:
  "held (binit s) = held s" "cur (binit s) = cur s" "procs (binit s) = procs s" "dimage (binit s) = dimage s"
  "dwrites (binit s) = dwrites s" "content (bufs (binit s) c) = content (bufs s c)"
  "b < NBUF \<Longrightarrow> \<not> sl_locked (slks (binit s) (BufSlk b))"
proof -
  let ?step = "\<lambda>b s. link_front b (initsleeplock (BufSlk b) ''buffer'' (push_front b s))"
  let ?s0 = "set_next Head Head (set_prev Head Head s)"
  have fr: "held (?step b t) = held t \<and> cur (?step b t) = cur t \<and> procs (?step b t) = procs t \<and> dimage (?step b t) = dimage t \<and>
      dwrites (?step b t) = dwrites t \<and> content (bufs (?step b t) c) = content (bufs t c) \<and>
      (\<not> sl_locked (slks (?step b t) (BufSlk a)) \<longleftrightarrow> a = b \<or> \<not> sl_locked (slks t (BufSlk a)))" for a b and t :: "'a bstate_scheme"
    by (simp add: link_front_def push_front_def initsleeplock_def Let_def)
  have "held (fold ?step bs t) = held t \<and> cur (fold ?step bs t) = cur t \<and> procs (fold ?step bs t) = procs t \<and>
      dimage (fold ?step bs t) = dimage t \<and> dwrites (fold ?step bs t) = dwrites t \<and>
      content (bufs (fold ?step bs t) c) = content (bufs t c) \<and> (a \<in> set bs \<longrightarrow> \<not> sl_locked (slks (fold ?step bs t) (BufSlk a)))"
    for a bs and t :: "'a bstate_scheme"
    by (induction bs rule: rev_induct) (auto simp: fr)
  from this [of "[0..<NBUF]" ?s0 b] show
    "held (binit s) = held s" "cur (binit s) = cur s" "procs (binit s) = procs s" "dimage (binit s) = dimage s"
    "dwrites (binit s) = dwrites s" "content (bufs (binit s) c) = content (bufs s c)"
    "b < NBUF \<Longrightarrow> \<not> sl_locked (slks (binit s) (BufSlk b))"
    by (simp_all add: binit_def Let_def del: upt_rec_numeral)
qed

lemma demo_bufs:
  "b_valid (bufs demo_bstate b) = False" "b_dev (bufs demo_bstate b) = 0" "b_blockno (bufs demo_bstate b) = 0"
  "b_refcnt (bufs demo_bstate b) = 0"
  using binit_frame(6) [of demo_boot b] by (simp_all add: demo_bstate_def content_def demo_boot_def demo_buf_def)

lemma demo_binv: "binv demo_bstate"
proof -
  have "set (rev [0..<NBUF]) = {..<NBUF}" by auto
  then have "\<exists>xs. lru demo_bstate xs \<and> set xs = {..<NBUF}" unfolding demo_bstate_def using binit_lru by blast
  moreover have "\<not> sl_locked (slks demo_bstate (BufSlk b))" if "b < NBUF" for b
    unfolding demo_bstate_def by (rule binit_frame(7) [OF that])
  ultimately show ?thesis by (simp add: binv_def unique_blocks_def clean_unused_def demo_bufs)
qed

lemma demo_quiet: "held demo_bstate = []" "cur demo_bstate = Some 1" "dwrites demo_bstate = []"
  "disk_now demo_bstate n = replicate BSIZE (ucast n)"
  by (simp_all add: demo_bstate_def binit_frame disk_now_def) (simp_all add: demo_boot_def)

lemma bread_good:
  assumes "binv s" "held s = []" "cur s = Some p"
    and "\<And>b. b < NBUF \<Longrightarrow> caches 1 n (bufs s b) \<Longrightarrow> \<not> sl_locked (slks s (BufSlk b)) \<and> b_refcnt (bufs s b) \<noteq> - 1"
    and "\<exists>b < NBUF. caches 1 n (bufs s b) \<or> b_refcnt (bufs s b) = 0"
  shows "\<exists>b s'. bread 1 n s = Inr (b, s') \<and> b < NBUF \<and> b_dev (bufs s' b) = 1 \<and> b_blockno (bufs s' b) = n \<and>
    b_data (bufs s' b) = logical s 1 n \<and> b_valid (bufs s' b) \<and>
    sl_locked (slks s' (BufSlk b)) \<and> sl_pid (slks s' (BufSlk b)) = p_pid (procs s p) \<and>
    held s' = [] \<and> cur s' = cur s \<and> procs s' = procs s \<and> dwrites s' = dwrites s \<and> binv s' \<and> (\<forall>m. logical s' 1 m = logical s 1 m)"
proof -
  obtain b y where r: "bread 1 n s = Inr (b, read_into b y s)" "b < NBUF" "b_valid y" "caches 1 n y"
      "b_data y = logical s 1 n" "b_next y = b_next (bufs s b)" "b_prev y = b_prev (bufs s b)"
      "if caches 1 n (bufs s b) then b_refcnt y = b_refcnt (bufs s b) + 1
       else b_refcnt y = 1 \<and> b_refcnt (bufs s b) = 0 \<and> (\<forall>c < NBUF. \<not> caches 1 n (bufs s c))"
    using bread_ok [OF assms(1-3) _ assms(4,5)] by auto
  have ref: "b_refcnt y \<noteq> 0"
    using r(8) assms(4) [OF r(2)] by (auto split: if_splits simp: eq_neg_iff_add_eq_0)
  have which: "caches 1 n (bufs s b) \<or> b_refcnt (bufs s b) = 0 \<and> (\<forall>c < NBUF. \<not> caches 1 n (bufs s c))"
    using r(8) by (auto split: if_splits)
  from read_into_ok [OF assms(1) r(2) which r(3-5) ref r(6,7)] r(1-5) assms(2,3) show ?thesis
    by (intro exI [of _ b] exI [of _ "read_into b y s"]) (simp add: caches_def locked_by_def)
qed

lemma demo_bread:
  "\<exists>b s'. bread 1 7 demo_bstate = Inr (b, s') \<and> b < NBUF \<and> b_blockno (bufs s' b) = 7 \<and> b_valid (bufs s' b) \<and>
     sl_locked (slks s' (BufSlk b)) \<and> sl_pid (slks s' (BufSlk b)) = p_pid (procs demo_bstate 1) \<and> held s' = [] \<and>
     cur s' = Some 1 \<and> procs s' = procs demo_bstate \<and> binv s'"
proof -
  have room: "\<exists>b < NBUF. caches 1 7 (bufs demo_bstate b) \<or> b_refcnt (bufs demo_bstate b) = 0"
    by (rule exI [of _ 0]) (simp add: demo_bufs)
  show ?thesis
    using bread_good [OF demo_binv demo_quiet(1,2) _ room] by (force simp: demo_bufs caches_def demo_quiet)
qed

section \<open>Properties\<close>

text \<open>C21: \<open>bread\<close> returns the current contents of the block: the buffer it returns is locked by the
  caller, holds that block, and its data are those of the buffer that held the block
  before, or else those on disk. No block changes its contents, and the cache stays
  consistent (one list of all buffers, no block twice, unreferenced buffers written back
  and unlocked).\<close>

theorem bread_returns_contents:
  assumes "binv s" "held s = []" "cur s = Some p"
    and "\<And>b. b < NBUF \<Longrightarrow> caches 1 n (bufs s b) \<Longrightarrow> \<not> sl_locked (slks s (BufSlk b)) \<and> b_refcnt (bufs s b) \<noteq> - 1"
    and "\<exists>b < NBUF. caches 1 n (bufs s b) \<or> b_refcnt (bufs s b) = 0"
  shows "\<exists>b s'. bread 1 n s = Inr (b, s') \<and> b < NBUF \<and> b_dev (bufs s' b) = 1 \<and> b_blockno (bufs s' b) = n \<and>
    b_data (bufs s' b) = logical s 1 n \<and> b_valid (bufs s' b) \<and>
    sl_locked (slks s' (BufSlk b)) \<and> sl_pid (slks s' (BufSlk b)) = p_pid (procs s p) \<and>
    held s' = [] \<and> dwrites s' = dwrites s \<and> binv s' \<and> (\<forall>m. logical s' 1 m = logical s 1 m)"
  using bread_good [OF assms] by blast

theorem bread_returns_contents_witness:
  "\<exists>b s'. bread 1 7 demo_bstate = Inr (b, s') \<and> b_data (bufs s' b) = replicate BSIZE 7"
proof -
  have "logical demo_bstate 1 7 = replicate BSIZE (ucast (7 :: u32))"
    using logical_uncached [of 1 7 demo_bstate] by (simp add: demo_bufs caches_def demo_quiet)
  moreover have "\<exists>b < NBUF. caches 1 7 (bufs demo_bstate b) \<or> b_refcnt (bufs demo_bstate b) = 0"
    by (rule exI [of _ 0]) (simp add: demo_bufs)
  ultimately show ?thesis
    using bread_returns_contents [OF demo_binv demo_quiet(1,2), of 7] by (force simp: demo_bufs caches_def)
qed



text \<open>C22: \<open>brelse\<close> keeps the least-recently-used order: giving up the last reference moves the buffer
  to the front of the list and leaves the order of the others alone; giving up an earlier
  one leaves the whole list alone. No block changes its contents, provided a buffer whose
  last reference is given up has been written back.\<close>

theorem brelse_keeps_lru_order:
  assumes "binv s" "cur s = Some p" "held s = []" "b < NBUF" "lru s xs"
    and "sl_locked (slks s (BufSlk b))" "sl_pid (slks s (BufSlk b)) = p_pid (procs s p)"
    and "b_refcnt (bufs s b) = 1 \<Longrightarrow> b_valid (bufs s b) \<Longrightarrow> b_data (bufs s b) = disk_now s (b_blockno (bufs s b))"
  shows "\<exists>s'. brelse b s = Inr s' \<and> lru s' (if b_refcnt (bufs s b) = 1 then b # remove1 b xs else xs) \<and>
    b_refcnt (bufs s' b) = b_refcnt (bufs s b) - 1 \<and> \<not> sl_locked (slks s' (BufSlk b)) \<and>
    held s' = [] \<and> binv s' \<and> (\<forall>n. logical s' 1 n = logical s 1 n)"
proof -
  obtain s' where s': "brelse b s = Inr s'" "binv s'" "lru s' (if b_refcnt (bufs s b) = 1 then b # remove1 b xs else xs)"
      "held s' = []" "content (bufs s' b) = content ((bufs s b)\<lparr>b_refcnt := b_refcnt (bufs s b) - 1\<rparr>)"
      "slks s' = (slks s)(BufSlk b := (slks s (BufSlk b))\<lparr>sl_locked := False, sl_pid := 0\<rparr>)"
      "\<forall>n. logical s' 1 n = logical s 1 n"
    using brelse_ok [OF assms(1-4,6,7,8,5)] by auto
  then show ?thesis by (intro exI [of _ s']) (simp add: content_def)
qed

theorem brelse_keeps_lru_order_witness:
  "\<exists>b s' s''. bread 1 7 demo_bstate = Inr (b, s') \<and> brelse b s' = Inr s'' \<and> held s'' = []"
proof -
  have room: "\<exists>b < NBUF. caches 1 7 (bufs demo_bstate b) \<or> b_refcnt (bufs demo_bstate b) = 0"
    by (rule exI [of _ 0]) (simp add: demo_bufs)
  obtain b s' where b: "bread 1 7 demo_bstate = Inr (b, s')" "b < NBUF" "b_blockno (bufs s' b) = 7"
      "sl_locked (slks s' (BufSlk b))" "sl_pid (slks s' (BufSlk b)) = p_pid (procs s' 1)" "held s' = []" "cur s' = Some 1" "binv s'"
      "b_data (bufs s' b) = logical demo_bstate 1 7" "dwrites s' = []" "dimage s' = dimage demo_bstate"
    using bread_ok [OF demo_binv demo_quiet(1,2) _ _ room] bread_good [OF demo_binv demo_quiet(1,2) _ room]
    by (auto simp: demo_bufs caches_def demo_quiet)
  have "logical demo_bstate 1 7 = disk_now demo_bstate 7"
    by (rule logical_uncached) (simp add: demo_bufs caches_def)
  then have "b_data (bufs s' b) = disk_now s' (b_blockno (bufs s' b))"
    using b by (simp add: disk_now_def demo_quiet)
  moreover obtain xs where "lru s' xs" using b(8) by (auto simp: binv_def)
  ultimately show ?thesis
    using brelse_keeps_lru_order [OF b(8) b(7) b(6) b(2) _ b(4,5)] b(1) by blast
qed

end
