(* ===== verification/Log.thy ===== *)
theory Log
  imports Bio Layout
begin

text \<open>
  The write-ahead log, \<^verbatim>\<open>kernel/log.c\<close>: system calls bracket their block updates with
  \<open>begin_op\<close> and \<open>end_op\<close>; the last one commits. The wait loop of \<open>begin_op\<close> gets fuel and a
  switch, like the one of \<open>acquiresleep\<close>. \<open>struct logheader\<close> is 124 bytes, less than a
  block, so the panic of \<open>initlog\<close> cannot happen.
\<close>

section \<open>State\<close>

abbreviation (input) MAXOPBLOCKS :: c_int where "MAXOPBLOCKS \<equiv> 10"
abbreviation LOGSIZE :: nat where "LOGSIZE \<equiv> 30"

record lstate = bstate +
  log_start :: c_int
  log_size :: c_int
  log_outstanding :: c_int
  log_committing :: bool
  log_dev :: c_int
  lh_n :: c_int
  lh_block :: "nat \<Rightarrow> c_int"

text \<open>The number of rounds of the loops \<open>for(i = 0; i < log.lh.n; i++)\<close>.\<close>

definition lh_len :: "'a lstate_scheme \<Rightarrow> nat" where
  "lh_len s = nat (sint (lh_n s))"

definition set_data :: "nat \<Rightarrow> u8 list \<Rightarrow> 'a bstate_scheme \<Rightarrow> 'a bstate_scheme" where
  "set_data b d s = upd_buf b (\<lambda>x. x\<lparr>b_data := d\<rparr>) s"

section \<open>Operations\<close>

definition install_one :: "bool \<Rightarrow> nat \<Rightarrow> 'a lstate_scheme \<Rightarrow> stop + 'a lstate_scheme" where
  "install_one recovering tail s =
     bindE (bread (log_dev s) (log_start s + of_nat tail + 1) s) (\<lambda>(lbuf, s).
     bindE (bread (log_dev s) (lh_block s tail) s) (\<lambda>(dbuf, s).
     let s = set_data dbuf (b_data (bufs s lbuf)) s in
     bindE (bwrite dbuf s) (\<lambda>s.
     bindE (if \<not> recovering then bunpin dbuf s else Inr s) (\<lambda>s.
     bindE (brelse lbuf s) (\<lambda>s.
     brelse dbuf s)))))"

definition install_trans :: "bool \<Rightarrow> 'a lstate_scheme \<Rightarrow> stop + 'a lstate_scheme" where
  "install_trans recovering s = foldE (install_one recovering) [0..<lh_len s] s"

text \<open>A header that claims more than LOGSIZE blocks makes \<open>read_head\<close> run past the array.\<close>

definition read_head :: "'a lstate_scheme \<Rightarrow> stop + 'a lstate_scheme" where
  "read_head s =
     bindE (bread (log_dev s) (log_start s) s) (\<lambda>(buf, s).
     let d = b_data (bufs s buf); s = s\<lparr>lh_n := get32 d 0\<rparr> in
     if LOGSIZE < lh_len s then Inl OutOfBounds
     else
       let s = s\<lparr>lh_block := fold (\<lambda>i f. f(i := get32 d (4 + 4 * i))) [0..<lh_len s] (lh_block s)\<rparr>
       in brelse buf s)"

definition head_data :: "c_int \<Rightarrow> (nat \<Rightarrow> c_int) \<Rightarrow> u8 list \<Rightarrow> u8 list" where
  "head_data n blocks d = fold (\<lambda>i d. put32 d (4 + 4 * i) (blocks i)) [0..<nat (sint n)] (put32 d 0 n)"

definition write_head :: "'a lstate_scheme \<Rightarrow> stop + 'a lstate_scheme" where
  "write_head s =
     bindE (bread (log_dev s) (log_start s) s) (\<lambda>(buf, s).
     let s = set_data buf (head_data (lh_n s) (lh_block s) (b_data (bufs s buf))) s in
     bindE (bwrite buf s) (brelse buf))"

definition recover_from_log :: "'a lstate_scheme \<Rightarrow> stop + 'a lstate_scheme" where
  "recover_from_log s =
     bindE (read_head s) (\<lambda>s.
     bindE (install_trans True s) (\<lambda>s.
     write_head (s\<lparr>lh_n := 0\<rparr>)))"

definition initlog :: "c_int \<Rightarrow> u32 \<Rightarrow> u32 \<Rightarrow> 'a lstate_scheme \<Rightarrow> stop + 'a lstate_scheme" where
  "initlog dev logstart nlog s =
     recover_from_log (s\<lparr>log_start := logstart, log_size := nlog, log_dev := dev\<rparr>)"

fun begin_op_loop ::
  "nat \<Rightarrow> ('a lstate_scheme \<Rightarrow> stop + 'a lstate_scheme) \<Rightarrow> 'a lstate_scheme \<Rightarrow> stop + 'a lstate_scheme" where
  "begin_op_loop fuel swtch s =
     (if log_committing s \<or> 30 < sint (lh_n s + (log_outstanding s + 1) * MAXOPBLOCKS) then
        (case fuel of
           0 \<Rightarrow> Inl OutOfFuel
         | Suc n \<Rightarrow> bindE (sleep swtch ChLog LogLock s) (begin_op_loop n swtch))
      else lrelease LogLock (s\<lparr>log_outstanding := log_outstanding s + 1\<rparr>))"

declare begin_op_loop.simps [simp del]

definition begin_op ::
  "nat \<Rightarrow> ('a lstate_scheme \<Rightarrow> stop + 'a lstate_scheme) \<Rightarrow> 'a lstate_scheme \<Rightarrow> stop + 'a lstate_scheme" where
  "begin_op fuel swtch s = bindE (lacquire LogLock s) (begin_op_loop fuel swtch)"

definition write_log_one :: "nat \<Rightarrow> 'a lstate_scheme \<Rightarrow> stop + 'a lstate_scheme" where
  "write_log_one tail s =
     bindE (bread (log_dev s) (log_start s + of_nat tail + 1) s) (\<lambda>(to, s).
     bindE (bread (log_dev s) (lh_block s tail) s) (\<lambda>(from, s).
     let s = set_data to (b_data (bufs s from)) s in
     bindE (bwrite to s) (\<lambda>s.
     bindE (brelse from s) (\<lambda>s.
     brelse to s))))"

definition write_log :: "'a lstate_scheme \<Rightarrow> stop + 'a lstate_scheme" where
  "write_log s = foldE write_log_one [0..<lh_len s] s"

definition commit :: "'a lstate_scheme \<Rightarrow> stop + 'a lstate_scheme" where
  "commit s =
     (if 0 < sint (lh_n s) then
        bindE (write_log s) (\<lambda>s.
        bindE (write_head s) (\<lambda>s.
        bindE (install_trans False s) (\<lambda>s.
        write_head (s\<lparr>lh_n := 0\<rparr>))))
      else Inr s)"

definition end_op :: "'a lstate_scheme \<Rightarrow> stop + 'a lstate_scheme" where
  "end_op s =
     bindE (lacquire LogLock s) (\<lambda>s.
     let s = s\<lparr>log_outstanding := log_outstanding s - 1\<rparr> in
     if log_committing s then Inl (Panic ''log.committing'')
     else
       let do_commit = (log_outstanding s = 0) in
       bindE (if do_commit then Inr (s\<lparr>log_committing := True\<rparr>) else wakeup (Some ChLog) s) (\<lambda>s.
       bindE (lrelease LogLock s) (\<lambda>s.
       if do_commit then
         bindE (commit s) (\<lambda>s.
         bindE (lacquire LogLock s) (\<lambda>s.
         let s = s\<lparr>log_committing := False\<rparr> in
         bindE (wakeup (Some ChLog) s) (lrelease LogLock)))
       else Inr s)))"

text \<open>The index of the block in the header, or the number of blocks in it.\<close>

fun log_index :: "(nat \<Rightarrow> c_int) \<Rightarrow> u32 \<Rightarrow> nat \<Rightarrow> nat \<Rightarrow> nat" where
  "log_index blocks blockno 0 i = i"
| "log_index blocks blockno (Suc k) i =
     (if blocks i = blockno then i else log_index blocks blockno k (Suc i))"

definition log_write :: "nat \<Rightarrow> 'a lstate_scheme \<Rightarrow> stop + 'a lstate_scheme" where
  "log_write b s =
     bindE (lacquire LogLock s) (\<lambda>s.
     if 30 \<le> sint (lh_n s) \<or> sint (log_size s - 1) \<le> sint (lh_n s) then Inl (Panic ''too big a transaction'')
     else if sint (log_outstanding s) < 1 then Inl (Panic ''log_write outside of trans'')
     else
       let i = log_index (lh_block s) (b_blockno (bufs s b)) (lh_len s) 0;
           s = s\<lparr>lh_block := (lh_block s)(i := b_blockno (bufs s b))\<rparr>
       in bindE (if int i = sint (lh_n s)
                 then bindE (bpin b s) (\<lambda>s. Inr (s\<lparr>lh_n := lh_n s + 1\<rparr>))
                 else Inr s) (lrelease LogLock))"

end
