(* ===== verification/Fs.thy ===== *)
theory Fs
  imports Log Vm
begin

text \<open>
  The file system proper, \<^verbatim>\<open>kernel/fs.c\<close>: block allocation, the inode table, file contents,
  directories and path names. In-memory inodes are indices into the table. Path names and
  directory names are the bytes before the terminating NUL. Where the code would sleep (on
  a buffer or an inode another process holds) the path ends with \<^const>\<open>Blocked\<close>.
\<close>

section \<open>State\<close>

abbreviation NINODE :: nat where "NINODE \<equiv> 50"
abbreviation NDIRECT :: nat where "NDIRECT \<equiv> 12"
abbreviation NINDIRECT :: nat where "NINDIRECT \<equiv> 256"
abbreviation DIRSIZ :: nat where "DIRSIZ \<equiv> 14"
abbreviation BPB :: nat where "BPB \<equiv> 8192"
abbreviation (input) IPB :: u32 where "IPB \<equiv> 16"
abbreviation (input) T_DIR :: u16 where "T_DIR \<equiv> 1"
abbreviation (input) T_FILE :: u16 where "T_FILE \<equiv> 2"
abbreviation (input) T_DEVICE :: u16 where "T_DEVICE \<equiv> 3"
abbreviation (input) ROOTDEV :: u32 where "ROOTDEV \<equiv> 1"
abbreviation (input) ROOTINO :: u32 where "ROOTINO \<equiv> 1"

record superblock =
  sb_magic :: u32
  sb_size :: u32
  sb_nblocks :: u32
  sb_ninodes :: u32
  sb_nlog :: u32
  sb_logstart :: u32
  sb_inodestart :: u32
  sb_bmapstart :: u32

record inode =
  i_dev :: u32
  i_inum :: u32
  i_ref :: c_int
  i_valid :: bool
  i_type :: u16
  i_major :: u16
  i_minor :: u16
  i_nlink :: u16
  i_size :: u32
  i_addrs :: "nat \<Rightarrow> u32"

record fstate = lstate +
  sb :: superblock
  inodes :: "nat \<Rightarrow> inode"

definition upd_inode :: "nat \<Rightarrow> (inode \<Rightarrow> inode) \<Rightarrow> 'a fstate_scheme \<Rightarrow> 'a fstate_scheme" where
  "upd_inode ip f s = s\<lparr>inodes := (inodes s)(ip := f (inodes s ip))\<rparr>"

definition IBLOCK :: "u32 \<Rightarrow> superblock \<Rightarrow> u32" where
  "IBLOCK i b = i div IPB + sb_inodestart b"

definition BBLOCK :: "u32 \<Rightarrow> superblock \<Rightarrow> u32" where
  "BBLOCK b sblk = b div of_nat BPB + sb_bmapstart sblk"

definition superblock_of :: "u8 list \<Rightarrow> superblock" where
  "superblock_of d = \<lparr>sb_magic = get32 d 0, sb_size = get32 d 4, sb_nblocks = get32 d 8, sb_ninodes = get32 d 12,
     sb_nlog = get32 d 16, sb_logstart = get32 d 20, sb_inodestart = get32 d 24, sb_bmapstart = get32 d 28\<rparr>"

section \<open>Blocks\<close>

definition readsb :: "c_int \<Rightarrow> 'a fstate_scheme \<Rightarrow> stop + 'a fstate_scheme" where
  "readsb dev s = bindE (bread dev 1 s) (\<lambda>(bp, s).
     let s = s\<lparr>sb := superblock_of (b_data (bufs s bp))\<rparr> in brelse bp s)"

definition fsinit :: "c_int \<Rightarrow> 'a fstate_scheme \<Rightarrow> stop + 'a fstate_scheme" where
  "fsinit dev s = bindE (readsb dev s) (\<lambda>s.
     if sb_magic (sb s) \<noteq> 0x10203040 then Inl (Panic ''invalid file system'')
     else initlog dev (sb_logstart (sb s)) (sb_nlog (sb s)) s)"

definition bzero :: "u32 \<Rightarrow> u32 \<Rightarrow> 'a fstate_scheme \<Rightarrow> stop + 'a fstate_scheme" where
  "bzero dev bno s = bindE (bread dev bno s) (\<lambda>(bp, s).
     let s = set_data bp (replicate BSIZE 0) s in
     bindE (log_write bp s) (brelse bp))"

definition bit_at :: "u8 list \<Rightarrow> nat \<Rightarrow> bool" where
  "bit_at d bi \<longleftrightarrow> bit (d ! (bi div 8)) (bi mod 8)"

definition set_bit_at :: "u8 list \<Rightarrow> nat \<Rightarrow> u8 list" where
  "set_bit_at d bi = d[bi div 8 := or (d ! (bi div 8)) (push_bit (bi mod 8) 1)]"

definition clear_bit_at :: "u8 list \<Rightarrow> nat \<Rightarrow> u8 list" where
  "clear_bit_at d bi = d[bi div 8 := and (d ! (bi div 8)) (not (push_bit (bi mod 8) 1))]"

definition balloc_one :: "u32 \<Rightarrow> nat \<Rightarrow> 'a fstate_scheme \<Rightarrow> stop + u32 option \<times> 'a fstate_scheme" where
  "balloc_one dev b s =
     bindE (bread dev (BBLOCK (of_nat b) (sb s)) s) (\<lambda>(bp, s).
     case List.find (\<lambda>bi. \<not> bit_at (b_data (bufs s bp)) bi) [0..<min BPB (unat (sb_size (sb s)) - b)] of
       Some bi \<Rightarrow>
         let s = set_data bp (set_bit_at (b_data (bufs s bp)) bi) s in
         bindE (log_write bp s) (\<lambda>s.
         bindE (brelse bp s) (\<lambda>s.
         bindE (bzero dev (of_nat (b + bi)) s) (\<lambda>s. Inr (Some (of_nat (b + bi)), s))))
     | None \<Rightarrow> bindE (brelse bp s) (\<lambda>s. Inr (None, s)))"

definition balloc :: "u32 \<Rightarrow> 'a fstate_scheme \<Rightarrow> stop + u32 \<times> 'a fstate_scheme" where
  "balloc dev s =
     bindE (scanE (balloc_one dev) (map (\<lambda>i. i * BPB) [0..<(unat (sb_size (sb s)) + BPB - 1) div BPB]) s) (\<lambda>(r, s).
     case r of Some b \<Rightarrow> Inr (b, s) | None \<Rightarrow> Inl (Panic ''balloc: out of blocks''))"

definition bfree :: "u32 \<Rightarrow> u32 \<Rightarrow> 'a fstate_scheme \<Rightarrow> stop + 'a fstate_scheme" where
  "bfree dev b s =
     bindE (bread dev (BBLOCK b (sb s)) s) (\<lambda>(bp, s).
     let bi = unat b mod BPB in
     if \<not> bit_at (b_data (bufs s bp)) bi then Inl (Panic ''freeing free block'')
     else
       let s = set_data bp (clear_bit_at (b_data (bufs s bp)) bi) s in
       bindE (log_write bp s) (brelse bp))"

section \<open>Inodes\<close>

definition iinit :: "'a fstate_scheme \<Rightarrow> 'a fstate_scheme" where
  "iinit s = fold (\<lambda>i s. initsleeplock (InodeSlk i) ''inode'' s) [0..<NINODE] s"

text \<open>\<open>struct dinode\<close> is 64 bytes; inode \<open>inum\<close> is the \<open>inum % IPB\<close>-th of its block.\<close>

definition dinode_off :: "u32 \<Rightarrow> nat" where
  "dinode_off inum = 64 * unat (inum mod IPB)"

definition put_dinode :: "nat \<Rightarrow> inode \<Rightarrow> u8 list \<Rightarrow> u8 list" where
  "put_dinode off i d =
     fold (\<lambda>k d. put32 d (off + 12 + 4 * k) (i_addrs i k)) [0..<NDIRECT + 1]
       (put32 (put16 (put16 (put16 (put16 d off (i_type i)) (off + 2) (i_major i)) (off + 4) (i_minor i)) (off + 6) (i_nlink i))
          (off + 8) (i_size i))"

definition get_dinode :: "nat \<Rightarrow> u8 list \<Rightarrow> inode \<Rightarrow> inode" where
  "get_dinode off d i = i\<lparr>i_type := get16 d off, i_major := get16 d (off + 2), i_minor := get16 d (off + 4),
     i_nlink := get16 d (off + 6), i_size := get32 d (off + 8),
     i_addrs := (\<lambda>k. if k \<le> NDIRECT then get32 d (off + 12 + 4 * k) else i_addrs i k)\<rparr>"

definition iupdate :: "nat \<Rightarrow> 'a fstate_scheme \<Rightarrow> stop + 'a fstate_scheme" where
  "iupdate ip s =
     bindE (bread (i_dev (inodes s ip)) (IBLOCK (i_inum (inodes s ip)) (sb s)) s) (\<lambda>(bp, s).
     let s = set_data bp (put_dinode (dinode_off (i_inum (inodes s ip))) (inodes s ip) (b_data (bufs s bp))) s in
     bindE (log_write bp s) (brelse bp))"

definition iget :: "u32 \<Rightarrow> u32 \<Rightarrow> 'a fstate_scheme \<Rightarrow> stop + nat \<times> 'a fstate_scheme" where
  "iget dev inum s =
     bindE (lacquire ItableLock s) (\<lambda>s.
     case List.find (\<lambda>ip. 0 < sint (i_ref (inodes s ip)) \<and> i_dev (inodes s ip) = dev \<and> i_inum (inodes s ip) = inum) [0..<NINODE] of
       Some ip \<Rightarrow>
         let s = upd_inode ip (\<lambda>i. i\<lparr>i_ref := i_ref i + 1\<rparr>) s in
         bindE (lrelease ItableLock s) (\<lambda>s. Inr (ip, s))
     | None \<Rightarrow>
         (case List.find (\<lambda>ip. i_ref (inodes s ip) = 0) [0..<NINODE] of
            None \<Rightarrow> Inl (Panic ''iget: no inodes'')
          | Some ip \<Rightarrow>
              let s = upd_inode ip (\<lambda>i. i\<lparr>i_dev := dev, i_inum := inum, i_ref := 1, i_valid := False\<rparr>) s in
              bindE (lrelease ItableLock s) (\<lambda>s. Inr (ip, s))))"

definition ialloc_one :: "u32 \<Rightarrow> u16 \<Rightarrow> nat \<Rightarrow> 'a fstate_scheme \<Rightarrow> stop + nat option \<times> 'a fstate_scheme" where
  "ialloc_one dev type inum s =
     bindE (bread dev (IBLOCK (of_nat inum) (sb s)) s) (\<lambda>(bp, s).
     let off = dinode_off (of_nat inum) in
     if get16 (b_data (bufs s bp)) off = 0 then
       let s = set_data bp (put16 (put_bytes (b_data (bufs s bp)) off (replicate 64 0)) off type) s in
       bindE (log_write bp s) (\<lambda>s.
       bindE (brelse bp s) (\<lambda>s.
       bindE (iget dev (of_nat inum) s) (\<lambda>(ip, s). Inr (Some ip, s))))
     else bindE (brelse bp s) (\<lambda>s. Inr (None, s)))"

definition ialloc :: "u32 \<Rightarrow> u16 \<Rightarrow> 'a fstate_scheme \<Rightarrow> stop + nat \<times> 'a fstate_scheme" where
  "ialloc dev type s =
     bindE (scanE (ialloc_one dev type) [1..<unat (sb_ninodes (sb s))] s) (\<lambda>(r, s).
     case r of Some ip \<Rightarrow> Inr (ip, s) | None \<Rightarrow> Inl (Panic ''ialloc: no inodes''))"

definition idup :: "nat \<Rightarrow> 'a fstate_scheme \<Rightarrow> stop + nat \<times> 'a fstate_scheme" where
  "idup ip s =
     bindE (lacquire ItableLock s) (\<lambda>s.
     let s = upd_inode ip (\<lambda>i. i\<lparr>i_ref := i_ref i + 1\<rparr>) s in
     bindE (lrelease ItableLock s) (\<lambda>s. Inr (ip, s)))"

definition ilock :: "nat \<Rightarrow> 'a fstate_scheme \<Rightarrow> stop + 'a fstate_scheme" where
  "ilock ip s =
     (if sint (i_ref (inodes s ip)) < 1 then Inl (Panic ''ilock'')
      else bindE (acquiresleep 1 stay_blocked (InodeSlk ip) s) (\<lambda>s.
        if \<not> i_valid (inodes s ip) then
          bindE (bread (i_dev (inodes s ip)) (IBLOCK (i_inum (inodes s ip)) (sb s)) s) (\<lambda>(bp, s).
          let s = upd_inode ip (\<lambda>i. get_dinode (dinode_off (i_inum i)) (b_data (bufs s bp)) i) s in
          bindE (brelse bp s) (\<lambda>s.
          let s = upd_inode ip (\<lambda>i. i\<lparr>i_valid := True\<rparr>) s in
          if i_type (inodes s ip) = 0 then Inl (Panic ''ilock: no type'') else Inr s))
        else Inr s))"

definition iunlock :: "nat \<Rightarrow> 'a fstate_scheme \<Rightarrow> stop + 'a fstate_scheme" where
  "iunlock ip s =
     bindE (holdingsleep (InodeSlk ip) s) (\<lambda>(h, s).
     if \<not> h \<or> sint (i_ref (inodes s ip)) < 1 then Inl (Panic ''iunlock'')
     else releasesleep (InodeSlk ip) s)"

section \<open>File contents\<close>

definition bmap :: "nat \<Rightarrow> u32 \<Rightarrow> 'a fstate_scheme \<Rightarrow> stop + u32 \<times> 'a fstate_scheme" where
  "bmap ip bn s =
     (if unat bn < NDIRECT then
        let addr = i_addrs (inodes s ip) (unat bn) in
        if addr = 0 then
          bindE (balloc (i_dev (inodes s ip)) s) (\<lambda>(addr, s).
          Inr (addr, upd_inode ip (\<lambda>i. i\<lparr>i_addrs := (i_addrs i)(unat bn := addr)\<rparr>) s))
        else Inr (addr, s)
      else
        let bn = bn - of_nat NDIRECT in
        if unat bn < NINDIRECT then
          bindE (let addr = i_addrs (inodes s ip) NDIRECT in
                 if addr = 0 then
                   bindE (balloc (i_dev (inodes s ip)) s) (\<lambda>(addr, s).
                   Inr (addr, upd_inode ip (\<lambda>i. i\<lparr>i_addrs := (i_addrs i)(NDIRECT := addr)\<rparr>) s))
                 else Inr (addr, s)) (\<lambda>(addr, s).
          bindE (bread (i_dev (inodes s ip)) addr s) (\<lambda>(bp, s).
          let addr = get32 (b_data (bufs s bp)) (4 * unat bn) in
          bindE (if addr = 0 then
                   bindE (balloc (i_dev (inodes s ip)) s) (\<lambda>(addr, s).
                   let s = set_data bp (put32 (b_data (bufs s bp)) (4 * unat bn) addr) s in
                   bindE (log_write bp s) (\<lambda>s. Inr (addr, s)))
                 else Inr (addr, s)) (\<lambda>(addr, s).
          bindE (brelse bp s) (\<lambda>s. Inr (addr, s)))))
        else Inl (Panic ''bmap: out of range''))"

definition itrunc :: "nat \<Rightarrow> 'a fstate_scheme \<Rightarrow> stop + 'a fstate_scheme" where
  "itrunc ip s =
     bindE (foldE (\<lambda>k s.
       if i_addrs (inodes s ip) k \<noteq> 0 then
         bindE (bfree (i_dev (inodes s ip)) (i_addrs (inodes s ip) k) s) (\<lambda>s.
         Inr (upd_inode ip (\<lambda>i. i\<lparr>i_addrs := (i_addrs i)(k := 0)\<rparr>) s))
       else Inr s) [0..<NDIRECT] s) (\<lambda>s.
     bindE (if i_addrs (inodes s ip) NDIRECT \<noteq> 0 then
         bindE (bread (i_dev (inodes s ip)) (i_addrs (inodes s ip) NDIRECT) s) (\<lambda>(bp, s).
         bindE (foldE (\<lambda>j s.
             let a = get32 (b_data (bufs s bp)) (4 * j) in
             if a \<noteq> 0 then bfree (i_dev (inodes s ip)) a s else Inr s) [0..<NINDIRECT] s) (\<lambda>s.
         bindE (brelse bp s) (\<lambda>s.
         bindE (bfree (i_dev (inodes s ip)) (i_addrs (inodes s ip) NDIRECT) s) (\<lambda>s.
         Inr (upd_inode ip (\<lambda>i. i\<lparr>i_addrs := (i_addrs i)(NDIRECT := 0)\<rparr>) s)))))
       else Inr s) (\<lambda>s.
     iupdate ip (upd_inode ip (\<lambda>i. i\<lparr>i_size := 0\<rparr>) s)))"

definition iput :: "nat \<Rightarrow> 'a fstate_scheme \<Rightarrow> stop + 'a fstate_scheme" where
  "iput ip s =
     bindE (lacquire ItableLock s) (\<lambda>s.
     bindE (if i_ref (inodes s ip) = 1 \<and> i_valid (inodes s ip) \<and> i_nlink (inodes s ip) = 0 then
         bindE (acquiresleep 1 stay_blocked (InodeSlk ip) s) (\<lambda>s.
         bindE (lrelease ItableLock s) (\<lambda>s.
         bindE (itrunc ip s) (\<lambda>s.
         bindE (iupdate ip (upd_inode ip (\<lambda>i. i\<lparr>i_type := 0\<rparr>) s)) (\<lambda>s.
         let s = upd_inode ip (\<lambda>i. i\<lparr>i_valid := False\<rparr>) s in
         bindE (releasesleep (InodeSlk ip) s) (lacquire ItableLock)))))
       else Inr s) (\<lambda>s.
     lrelease ItableLock (upd_inode ip (\<lambda>i. i\<lparr>i_ref := i_ref i - 1\<rparr>) s)))"

definition iunlockput :: "nat \<Rightarrow> 'a fstate_scheme \<Rightarrow> stop + 'a fstate_scheme" where
  "iunlockput ip s = bindE (iunlock ip s) (iput ip)"

text \<open>\<open>struct stat\<close>: dev, ino, type, nlink, size, at offsets 0, 4, 8, 10, 16 of 24 bytes; the four
  bytes of padding keep what the caller's variable held.\<close>

definition stati :: "nat \<Rightarrow> u8 list \<Rightarrow> 'a fstate_scheme \<Rightarrow> u8 list" where
  "stati ip st s = (let i = inodes s ip in
     put_bytes (put16 (put16 (put32 (put32 st 0 (i_dev i)) 4 (i_inum i)) 8 (i_type i)) 10 (i_nlink i)) 16 (bytes_of 8 (ucast (i_size i))))"

text \<open>
  Where \<open>readi\<close> and \<open>writei\<close> copy to and from: a user address, memory in the page pool, or a
  kernel object outside it. The bytes read are returned in every case.
\<close>

datatype target = UserVA u64 | KernPA u64 | KernObj

datatype origin = FromUser u64 | FromPA u64 | FromObj "u8 list"

definition either_copyout :: "target \<Rightarrow> nat \<Rightarrow> u8 list \<Rightarrow> 'a pstate_scheme \<Rightarrow> stop + c_int \<times> 'a pstate_scheme" where
  "either_copyout dst off src s =
     (case dst of
        UserVA a \<Rightarrow> bindE (myproc s) (\<lambda>p. copyout (p_pagetable (procs s p)) (a + of_nat off) src s)
      | KernPA a \<Rightarrow> Inr (0, s\<lparr>pmem := store_bytes (pmem s) (a + of_nat off) src\<rparr>)
      | KernObj \<Rightarrow> Inr (0, s))"

definition either_copyin :: "origin \<Rightarrow> nat \<Rightarrow> nat \<Rightarrow> 'a pstate_scheme \<Rightarrow> stop + c_int \<times> u8 list" where
  "either_copyin src off n s =
     (case src of
        FromUser a \<Rightarrow> bindE (myproc s) (\<lambda>p. copyin (p_pagetable (procs s p)) (a + of_nat off) n s)
      | FromPA a \<Rightarrow> Inr (0, bytes (pmem s) (a + of_nat off) n)
      | FromObj bs \<Rightarrow> Inr (0, take n (drop off bs)))"

definition blk_chunk :: "u32 \<Rightarrow> nat \<Rightarrow> nat" where
  "blk_chunk off left = min left (BSIZE - unat off mod BSIZE)"

lemma blk_chunk_pos: "0 < left \<Longrightarrow> 0 < blk_chunk off left"
proof -
  have "unat off mod BSIZE < BSIZE" by simp
  then show "0 < left \<Longrightarrow> 0 < blk_chunk off left" unfolding blk_chunk_def by linarith
qed

function readi_loop ::
  "nat \<Rightarrow> target \<Rightarrow> nat \<Rightarrow> u32 \<Rightarrow> nat \<Rightarrow> 'a fstate_scheme \<Rightarrow> stop + (c_int \<times> u8 list) \<times> 'a fstate_scheme" where
  "readi_loop ip dst tot off left s =
     (if left = 0 then Inr ((of_nat tot, []), s)
      else
        bindE (bmap ip (off div of_nat BSIZE) s) (\<lambda>(addr, s).
        bindE (bread (i_dev (inodes s ip)) addr s) (\<lambda>(bp, s).
        let m = blk_chunk off left; piece = get_bytes (b_data (bufs s bp)) (unat off mod BSIZE) m in
        bindE (either_copyout dst tot piece s) (\<lambda>(r, s).
        if r = -1 then bindE (brelse bp s) (\<lambda>s. Inr ((-1, []), s))
        else
          bindE (brelse bp s) (\<lambda>s.
          bindE (readi_loop ip dst (tot + m) (off + of_nat m) (left - m) s) (\<lambda>((r, bs), s).
          Inr ((r, piece @ bs), s)))))))"
  by pat_completeness auto
termination
  by (relation "measure (\<lambda>(ip, dst, tot, off, left, s). left)") (auto simp: blk_chunk_pos)

declare readi_loop.simps [simp del]

definition readi ::
  "nat \<Rightarrow> target \<Rightarrow> u32 \<Rightarrow> u32 \<Rightarrow> 'a fstate_scheme \<Rightarrow> stop + (c_int \<times> u8 list) \<times> 'a fstate_scheme" where
  "readi ip dst off n s =
     (if i_size (inodes s ip) < off \<or> off + n < off then Inr ((0, []), s)
      else
        let n = (if i_size (inodes s ip) < off + n then i_size (inodes s ip) - off else n) in
        readi_loop ip dst 0 off (unat n) s)"

text \<open>A failed \<open>either_copyin\<close> may have changed a part of the buffer, which is then released
  without being logged.\<close>

function writei_loop ::
  "nat \<Rightarrow> origin \<Rightarrow> nat \<Rightarrow> u32 \<Rightarrow> nat \<Rightarrow> 'a fstate_scheme \<Rightarrow> stop + (nat \<times> u32) \<times> 'a fstate_scheme" where
  "writei_loop ip src tot off left s =
     (if left = 0 then Inr ((tot, off), s)
      else
        bindE (bmap ip (off div of_nat BSIZE) s) (\<lambda>(addr, s).
        bindE (bread (i_dev (inodes s ip)) addr s) (\<lambda>(bp, s).
        let m = blk_chunk off left in
        bindE (either_copyin src tot m s) (\<lambda>(r, bs).
        let s = set_data bp (put_bytes (b_data (bufs s bp)) (unat off mod BSIZE) bs) s in
        if r = -1 then bindE (brelse bp s) (\<lambda>s. Inr ((tot, off), s))
        else
          bindE (log_write bp s) (\<lambda>s.
          bindE (brelse bp s) (\<lambda>s.
          writei_loop ip src (tot + m) (off + of_nat m) (left - m) s))))))"
  by pat_completeness auto
termination
  by (relation "measure (\<lambda>(ip, src, tot, off, left, s). left)") (auto simp: blk_chunk_pos)

declare writei_loop.simps [simp del]

definition writei :: "nat \<Rightarrow> origin \<Rightarrow> u32 \<Rightarrow> u32 \<Rightarrow> 'a fstate_scheme \<Rightarrow> stop + c_int \<times> 'a fstate_scheme" where
  "writei ip src off n s =
     (if i_size (inodes s ip) < off \<or> off + n < off then Inr (-1, s)
      else if of_nat ((NDIRECT + NINDIRECT) * BSIZE) < off + n then Inr (-1, s)
      else
        bindE (writei_loop ip src 0 off (unat n) s) (\<lambda>((tot, off), s).
        let s = (if i_size (inodes s ip) < off then upd_inode ip (\<lambda>i. i\<lparr>i_size := off\<rparr>) s else s) in
        bindE (iupdate ip s) (\<lambda>s. Inr (of_nat tot, s))))"

section \<open>Directories\<close>

text \<open>\<open>namecmp(s, t) == 0\<close>: the same bytes up to a NUL or to DIRSIZ of them.\<close>

definition namecmp_zero :: "u8 list \<Rightarrow> u8 list \<Rightarrow> bool" where
  "namecmp_zero s t \<longleftrightarrow> takeWhile (\<lambda>c. c \<noteq> 0) (take DIRSIZ s) = takeWhile (\<lambda>c. c \<noteq> 0) (take DIRSIZ t)"

text \<open>\<open>struct dirent\<close>: two bytes of inode number, fourteen of name, padded as by \<open>strncpy\<close>.\<close>

definition dirent_of :: "u8 list \<Rightarrow> u32 \<Rightarrow> u8 list" where
  "dirent_of name inum = bytes_of 2 (ucast inum) @ take DIRSIZ (name @ replicate DIRSIZ 0)"

definition dir_offsets :: "u32 \<Rightarrow> nat list" where
  "dir_offsets sz = map (\<lambda>k. 16 * k) [0..<(unat sz + 15) div 16]"

definition dirlookup_one ::
  "nat \<Rightarrow> u8 list \<Rightarrow> nat \<Rightarrow> 'a fstate_scheme \<Rightarrow> stop + (nat \<times> u32) option \<times> 'a fstate_scheme" where
  "dirlookup_one dp name off s =
     bindE (readi dp KernObj (of_nat off) 16 s) (\<lambda>((r, de), s).
     if r \<noteq> 16 then Inl (Panic ''dirlookup read'')
     else if get16 de 0 = 0 then Inr (None, s)
     else if namecmp_zero name (drop 2 de) then
       bindE (iget (i_dev (inodes s dp)) (ucast (get16 de 0)) s) (\<lambda>(ip, s). Inr (Some (ip, of_nat off), s))
     else Inr (None, s))"

definition dirlookup ::
  "nat \<Rightarrow> u8 list \<Rightarrow> 'a fstate_scheme \<Rightarrow> stop + (nat \<times> u32) option \<times> 'a fstate_scheme" where
  "dirlookup dp name s =
     (if i_type (inodes s dp) \<noteq> T_DIR then Inl (Panic ''dirlookup not DIR'')
      else scanE (dirlookup_one dp name) (dir_offsets (i_size (inodes s dp))) s)"

definition free_dirent_one :: "nat \<Rightarrow> nat \<Rightarrow> 'a fstate_scheme \<Rightarrow> stop + nat option \<times> 'a fstate_scheme" where
  "free_dirent_one dp off s =
     bindE (readi dp KernObj (of_nat off) 16 s) (\<lambda>((r, de), s).
     if r \<noteq> 16 then Inl (Panic ''dirlink read'')
     else if get16 de 0 = 0 then Inr (Some off, s) else Inr (None, s))"

definition dirlink :: "nat \<Rightarrow> u8 list \<Rightarrow> u32 \<Rightarrow> 'a fstate_scheme \<Rightarrow> stop + c_int \<times> 'a fstate_scheme" where
  "dirlink dp name inum s =
     bindE (dirlookup dp name s) (\<lambda>(hit, s).
     case hit of
       Some (ip, _) \<Rightarrow> bindE (iput ip s) (\<lambda>s. Inr (-1, s))
     | None \<Rightarrow>
         bindE (scanE (free_dirent_one dp) (dir_offsets (i_size (inodes s dp))) s) (\<lambda>(slot, s).
         let off = (case slot of Some off \<Rightarrow> off | None \<Rightarrow> 16 * ((unat (i_size (inodes s dp)) + 15) div 16)) in
         bindE (writei dp (FromObj (dirent_of name inum)) (of_nat off) 16 s) (\<lambda>(r, s).
         if r \<noteq> 16 then Inl (Panic ''dirlink'') else Inr (0, s))))"

section \<open>Path names\<close>

abbreviation (input) slash :: u8 where "slash \<equiv> 47"

definition skipelem :: "u8 list \<Rightarrow> (u8 list \<times> u8 list) option" where
  "skipelem path =
     (let path = dropWhile (\<lambda>c. c = slash) path in
      if path = [] then None
      else
        let elem = takeWhile (\<lambda>c. c \<noteq> slash) path; rest = dropWhile (\<lambda>c. c \<noteq> slash) path in
        Some (take DIRSIZ elem, dropWhile (\<lambda>c. c = slash) rest))"

lemma skipelem_shorter: "skipelem path = Some (name, rest) \<Longrightarrow> length rest < length path"
proof -
  assume a: "skipelem path = Some (name, rest)"
  let ?p = "dropWhile (\<lambda>c. c = slash) path"
  from a have p: "?p \<noteq> []" and r: "rest = dropWhile (\<lambda>c. c = slash) (dropWhile (\<lambda>c. c \<noteq> slash) ?p)"
    by (auto simp: skipelem_def Let_def split: if_splits)
  obtain x xs where x: "?p = x # xs" using p by (cases ?p) auto
  then have "x \<noteq> slash" using hd_dropWhile [of "\<lambda>c. c = slash" path] p by auto
  then have "rest = dropWhile (\<lambda>c. c = slash) (dropWhile (\<lambda>c. c \<noteq> slash) xs)" unfolding r x by simp
  then have "length rest \<le> length (dropWhile (\<lambda>c. c \<noteq> slash) xs)" by (simp only: length_dropWhile_le)
  also have "\<dots> \<le> length xs" by (rule length_dropWhile_le)
  also have "\<dots> < length ?p" using x by simp
  also have "\<dots> \<le> length path" by (rule length_dropWhile_le)
  finally show ?thesis .
qed

function namex_loop ::
  "bool \<Rightarrow> nat \<Rightarrow> u8 list \<Rightarrow> u8 list \<Rightarrow> 'a fstate_scheme \<Rightarrow> stop + (nat \<times> u8 list) option \<times> 'a fstate_scheme" where
  "namex_loop nameiparent ip name path s =
     (case skipelem path of
        None \<Rightarrow> if nameiparent then bindE (iput ip s) (\<lambda>s. Inr (None, s)) else Inr (Some (ip, name), s)
      | Some (name, path) \<Rightarrow>
          bindE (ilock ip s) (\<lambda>s.
          if i_type (inodes s ip) \<noteq> T_DIR then bindE (iunlockput ip s) (\<lambda>s. Inr (None, s))
          else if nameiparent \<and> path = [] then bindE (iunlock ip s) (\<lambda>s. Inr (Some (ip, name), s))
          else
            bindE (dirlookup ip name s) (\<lambda>(hit, s).
            case hit of
              None \<Rightarrow> bindE (iunlockput ip s) (\<lambda>s. Inr (None, s))
            | Some (ip', _) \<Rightarrow> bindE (iunlockput ip s) (namex_loop nameiparent ip' name path))))"
  by pat_completeness auto
termination
  by (relation "measure (\<lambda>(nameiparent, ip, name, path, s). length path)") (auto dest: skipelem_shorter)

declare namex_loop.simps [simp del]

text \<open>A process without a current directory would make \<open>idup\<close> dereference null.\<close>

definition namex :: "bool \<Rightarrow> u8 list \<Rightarrow> 'a fstate_scheme \<Rightarrow> stop + (nat \<times> u8 list) option \<times> 'a fstate_scheme" where
  "namex nameiparent path s =
     bindE (if path \<noteq> [] \<and> hd path = slash then iget ROOTDEV ROOTINO s
            else bindE (myproc s) (\<lambda>p. case p_cwd (procs s p) of
                   None \<Rightarrow> Inl (Panic ''kerneltrap'') | Some cwd \<Rightarrow> idup cwd s)) (\<lambda>(ip, s).
     namex_loop nameiparent ip [] path s)"

definition namei :: "u8 list \<Rightarrow> 'a fstate_scheme \<Rightarrow> stop + nat option \<times> 'a fstate_scheme" where
  "namei path s = bindE (namex False path s) (\<lambda>(r, s). Inr (map_option fst r, s))"

definition nameiparent :: "u8 list \<Rightarrow> 'a fstate_scheme \<Rightarrow> stop + (nat \<times> u8 list) option \<times> 'a fstate_scheme" where
  "nameiparent path s = namex True path s"

end
