(* ===== verification/KPrintf.thy ===== *)
theory KPrintf
  imports Proc
begin

text \<open>
  The kernel's formatted output, \<^verbatim>\<open>kernel/printf.c\<close>, and \<open>procdump\<close>. \<open>kout\<close> is what has been
  sent to the UART; \<open>consputc\<close> appends to it. A \<open>va_arg\<close> that does not match the format is
  undefined in C and ends the path with \<^const>\<open>OutOfBounds\<close>.
\<close>

section \<open>Characters and numbers\<close>

definition byte_char :: "u8 \<Rightarrow> char" where
  "byte_char b = char_of (unat b)"

definition consputc :: "c_int \<Rightarrow> 'a pstate_scheme \<Rightarrow> 'a pstate_scheme" where
  "consputc c s = s\<lparr>kout := kout s @
     (if c = 0x100 then [CHR 0x08, CHR '' '', CHR 0x08] else [byte_char (ucast c)])\<rparr>"

definition digits :: string where
  "digits = ''0123456789abcdef''"

text \<open>The digits of \<open>x\<close>, least significant first, as the \<open>do\<close> loop stores them.\<close>

function int_digits :: "u32 \<Rightarrow> u32 \<Rightarrow> char list" where
  "int_digits base x =
     (if base \<le> 1 then [digits ! unat (x mod base)]
      else digits ! unat (x mod base) # (if x div base \<noteq> 0 then int_digits base (x div base) else []))"
  by pat_completeness auto
termination
proof (relation "measure (\<lambda>(base, x). unat x)", goal_cases)
  case 1
  then show ?case by simp
next
  case (2 base x)
  then have "1 < unat base" by (simp add: word_less_nat_alt not_le)
  moreover have "0 < unat x" using 2 by (metis bot_nat_0.not_eq_extremum div_0 unat_eq_zero)
  ultimately show ?case by (simp add: unat_div)
qed

declare int_digits.simps [simp del]

definition printint :: "c_int \<Rightarrow> u32 \<Rightarrow> bool \<Rightarrow> string" where
  "printint xx base sign =
     (let neg = (sign \<and> sint xx < 0); x = (if neg then - xx else xx); buf = int_digits base x
      in rev (if neg then buf @ [CHR ''-''] else buf))"

fun ptr_digits :: "nat \<Rightarrow> u64 \<Rightarrow> string" where
  "ptr_digits 0 x = []"
| "ptr_digits (Suc n) x = digits ! unat (drop_bit 60 x) # ptr_digits n (push_bit 4 x)"

definition printptr :: "u64 \<Rightarrow> string" where
  "printptr x = CHR ''0'' # CHR ''x'' # ptr_digits 16 x"

section \<open>\<open>printf\<close>\<close>

datatype fmt_arg = AInt c_int | APtr u64 | AStr "string option"

fun format :: "string \<Rightarrow> fmt_arg list \<Rightarrow> stop + string" where
  "format [] args = Inr []"
| "format (c # fmt) args =
     (if c \<noteq> CHR ''%'' then bindE (format fmt args) (\<lambda>r. Inr (c # r))
      else case fmt of
        [] \<Rightarrow> Inr []
      | d # fmt \<Rightarrow>
          if d = CHR ''d'' then
            (case args of AInt x # args \<Rightarrow> bindE (format fmt args) (\<lambda>r. Inr (printint x 10 True @ r)) | _ \<Rightarrow> Inl OutOfBounds)
          else if d = CHR ''x'' then
            (case args of AInt x # args \<Rightarrow> bindE (format fmt args) (\<lambda>r. Inr (printint x 16 True @ r)) | _ \<Rightarrow> Inl OutOfBounds)
          else if d = CHR ''p'' then
            (case args of APtr x # args \<Rightarrow> bindE (format fmt args) (\<lambda>r. Inr (printptr x @ r)) | _ \<Rightarrow> Inl OutOfBounds)
          else if d = CHR ''s'' then
            (case args of
               AStr x # args \<Rightarrow>
                 bindE (format fmt args) (\<lambda>r. Inr ((case x of None \<Rightarrow> ''(null)'' | Some t \<Rightarrow> t) @ r))
             | _ \<Rightarrow> Inl OutOfBounds)
          else if d = CHR ''%'' then bindE (format fmt args) (\<lambda>r. Inr (CHR ''%'' # r))
          else bindE (format fmt args) (\<lambda>r. Inr (CHR ''%'' # d # r)))"

definition printf :: "string \<Rightarrow> fmt_arg list \<Rightarrow> 'a pstate_scheme \<Rightarrow> stop + 'a pstate_scheme" where
  "printf fmt args s =
     (let locking = pr_locking s in
      bindE (if locking then lacquire PrLock s else Inr s) (\<lambda>s.
      bindE (format fmt args) (\<lambda>out.
      let s = s\<lparr>kout := kout s @ out\<rparr> in
      if locking then lrelease PrLock s else Inr s)))"

definition printfinit :: "'a pstate_scheme \<Rightarrow> 'a pstate_scheme" where
  "printfinit s = s\<lparr>pr_locking := True\<rparr>"

text \<open>What \<open>panic\<close> leaves on the console before it loops forever; its argument is used as a
  format.\<close>

definition panic_output :: "string \<Rightarrow> 'a pstate_scheme \<Rightarrow> stop + 'a pstate_scheme" where
  "panic_output msg s =
     (let s = s\<lparr>pr_locking := False\<rparr> in
      bindE (printf ''panic: '' [] s) (\<lambda>s.
      bindE (printf msg [] s) (printf [CHR 0x0A] [])))"

section \<open>\<open>procdump\<close>\<close>

fun state_name :: "procstate \<Rightarrow> string" where
  "state_name UNUSED = ''unused''"
| "state_name USED = ''???''"
| "state_name SLEEPING = ''sleep ''"
| "state_name RUNNABLE = ''runble''"
| "state_name RUNNING = ''run   ''"
| "state_name ZOMBIE = ''zombie''"

definition procdump :: "'a pstate_scheme \<Rightarrow> stop + 'a pstate_scheme" where
  "procdump s =
     bindE (printf [CHR 0x0A] [] s) (foldE (\<lambda>p s.
       if p_state (procs s p) = UNUSED then Inr s
       else bindE (printf ''%d %s %s''
              [AInt (p_pid (procs s p)), AStr (Some (state_name (p_state (procs s p)))), AStr (Some (p_name (procs s p)))] s)
            (printf [CHR 0x0A] [])) [0..<NPROC])"

section \<open>Reading back what was printed\<close>

definition digit_val :: "char \<Rightarrow> nat" where
  "digit_val c = length (takeWhile (\<lambda>d. d \<noteq> c) digits)"

fun num_val :: "nat \<Rightarrow> char list \<Rightarrow> nat" where
  "num_val b [] = 0"
| "num_val b (c # cs) = digit_val c + b * num_val b cs"

fun read_int :: "nat \<Rightarrow> string \<Rightarrow> int" where
  "read_int b [] = 0"
| "read_int b (c # cs) = (if c = CHR ''-'' then - int (num_val b (rev cs)) else int (num_val b (rev (c # cs))))"

lemma digits_16: "k < 16 \<Longrightarrow> digit_val (digits ! k) = k \<and> digits ! k \<noteq> CHR ''-''"
proof -
  assume "k < 16"
  then have "k \<in> set [0..<16]" by simp
  moreover have "\<forall>k \<in> set [0..<16]. digit_val (digits ! k) = k \<and> digits ! k \<noteq> CHR ''-''"
    by (simp add: upt_rec digit_val_def digits_def)
  ultimately show ?thesis by blast
qed

lemma unat_mod_less: "1 < (base :: u32) \<Longrightarrow> base \<le> 16 \<Longrightarrow> unat (x mod base) < 16"
proof -
  assume "1 < base" "base \<le> 16"
  then have b: "0 < unat base" "unat base \<le> 16" by (auto simp: word_less_nat_alt word_le_nat_alt)
  have "unat (x mod base) = unat x mod unat base" by (rule unat_mod)
  also have "\<dots> < unat base" using b(1) by (rule mod_less_divisor)
  also have "\<dots> \<le> 16" by (rule b(2))
  finally show ?thesis .
qed

lemma num_val_digits:
  assumes "1 < base" "base \<le> 16"
  shows "num_val (unat base) (int_digits base x) = unat x"
  using assms
proof (induction base x rule: int_digits.induct)
  case (1 base x)
  have d: "digit_val (digits ! unat (x mod base)) = unat x mod unat base"
    using digits_16 [OF unat_mod_less [OF 1(2,3), of x]] by (simp add: unat_mod)
  have ih: "num_val (unat base) (if x div base \<noteq> 0 then int_digits base (x div base) else []) = unat x div unat base"
  proof (cases "x div base = 0")
    case True
    then have "unat x div unat base = 0" using unat_div [of x base] by simp
    then show ?thesis using True by simp
  next
    case False
    then show ?thesis using 1 by (simp add: unat_div not_le)
  qed
  have "\<not> base \<le> 1" using 1(2) by simp
  then show ?case by (subst int_digits.simps) (simp add: d ih del: if_split)
qed

lemma int_digits_set: "1 < base \<Longrightarrow> base \<le> 16 \<Longrightarrow> c \<in> set (int_digits base x) \<Longrightarrow> c \<noteq> CHR ''-''"
proof (induction base x rule: int_digits.induct)
  case (1 base x)
  have "\<not> base \<le> 1" using 1(2) by simp
  then have "c = digits ! unat (x mod base) \<or> x div base \<noteq> 0 \<and> c \<in> set (int_digits base (x div base))"
    using 1(4) by (subst (asm) int_digits.simps) (auto split: if_splits)
  then show ?case using 1(1) [OF \<open>\<not> base \<le> 1\<close> _ 1(2,3)] digits_16 [OF unat_mod_less [OF 1(2,3), of x]] by auto
qed

lemma length_int_digits: "1 < base \<Longrightarrow> unat x < unat base ^ n \<Longrightarrow> 0 < n \<Longrightarrow> length (int_digits base x) \<le> n"
proof (induction n arbitrary: x)
  case 0
  then show ?case by simp
next
  case (Suc n)
  have nb: "\<not> base \<le> 1" using Suc.prems(1) by simp
  have pos: "0 < unat base" using Suc.prems(1) by (auto simp: word_less_nat_alt)
  show ?case
  proof (cases "x div base = 0")
    case True
    then show ?thesis using nb by (subst int_digits.simps) simp
  next
    case False
    have "unat (x div base) < unat base ^ n"
      using Suc.prems(2) pos by (simp add: unat_div less_mult_imp_div_less mult.commute)
    moreover from this have "0 < n" using False by (cases n) (auto simp: unat_eq_0)
    ultimately have "length (int_digits base (x div base)) \<le> n" using Suc by simp
    then show ?thesis using False nb by (subst int_digits.simps) simp
  qed
qed

lemma unat_word_of_int: "0 \<le> k \<Longrightarrow> k < 2 ^ 32 \<Longrightarrow> int (unat (word_of_int k :: u32)) = k"
  by (simp add: unsigned_of_int take_bit_int_eq_self nat_take_bit_eq)

lemma unat_uminus_neg: "sint (xx :: c_int) < 0 \<Longrightarrow> int (unat (- xx)) = - sint xx"
  using unat_word_of_int [of "- sint xx"] sint_ge [of xx] by simp

lemma unat_pos: "0 \<le> sint (xx :: c_int) \<Longrightarrow> int (unat xx) = sint xx"
  using unat_word_of_int [of "sint xx"] sint_lt [of xx] by simp

lemma read_int_printint:
  assumes "1 < base" "base \<le> 16"
  shows "read_int (unat base) (printint xx base True) = sint xx"
proof (cases "sint xx < 0")
  case True
  then have "printint xx base True = CHR ''-'' # rev (int_digits base (- xx))" by (simp add: printint_def)
  then show ?thesis using num_val_digits [OF assms, of "- xx"] unat_uminus_neg [OF True] by simp
next
  case False
  let ?ds = "int_digits base xx"
  have p: "printint xx base True = rev ?ds" using False by (simp add: printint_def)
  have "?ds \<noteq> []" by (subst int_digits.simps) simp
  then obtain c cs where c: "rev ?ds = c # cs" by (cases "rev ?ds") auto
  then have "c \<in> set ?ds" by (metis list.set_intros(1) set_rev)
  then have "c \<noteq> CHR ''-''" using int_digits_set [OF assms] by blast
  then have "read_int (unat base) (rev ?ds) = int (num_val (unat base) (rev (rev ?ds)))" using c by simp
  then show ?thesis using num_val_digits [OF assms, of xx] unat_pos [of xx] False p by simp
qed

lemma length_printint:
  assumes "base = 10 \<or> base = 16"
  shows "length (printint xx base True) \<le> 11"
proof -
  have x: "unat (y :: u32) < unat base ^ 10" for y
  proof -
    have "unat y < 4294967296" using unsigned_less [of y, where 'a = nat] by simp
    with assms show ?thesis by auto
  qed
  have "1 < base" using assms by auto
  then have l: "length (int_digits base y) \<le> 10" for y using length_int_digits [of base y 10] x by simp
  show ?thesis using l [of xx] l [of "- xx"] by (simp add: printint_def Let_def)
qed

text \<open>The value of a nibble string, most significant first, continuing \<open>acc\<close>.\<close>

definition hex_val :: "nat \<Rightarrow> string \<Rightarrow> nat" where
  "hex_val acc ds = foldl (\<lambda>a c. 16 * a + digit_val c) acc ds"

lemma split_div_mod: "(Y mod (M * N)) div M + Y div (M * N) * N = Y div (M :: nat)"
proof (cases "M = 0")
  case False
  then have "Y mod (M * N) div M = Y div M mod N" by (simp add: mod_mult2_eq)
  then show ?thesis by (simp add: div_mult2_eq)
qed simp

lemma nibble_shift:
  fixes X :: nat
  assumes "n < 16"
  shows "16 * X mod 2 ^ 64 div 2 ^ (64 - 4 * n) + X div 2 ^ 60 * 16 ^ n = X div 2 ^ (60 - 4 * n)"
proof -
  have "4 * n + (64 - 4 * n) = 64" using assms by simp
  then have "(2::nat) ^ (4 * n) * 2 ^ (64 - 4 * n) = 2 ^ 64" by (metis power_add)
  moreover have "(16::nat) ^ n = (2 ^ 4) ^ n" by simp
  then have "(16::nat) ^ n = 2 ^ (4 * n)" by (simp only: power_mult [symmetric])
  ultimately have M: "(2::nat) ^ (64 - 4 * n) * 16 ^ n = 2 ^ 64" by (simp only: mult.commute)
  have "64 - 4 * n = Suc (Suc (Suc (Suc (60 - 4 * n))))" using assms by simp
  then have K: "(2::nat) ^ (64 - 4 * n) = 16 * 2 ^ (60 - 4 * n)" by simp
  have q: "16 * X div 2 ^ 64 = X div 2 ^ 60" using div_mult_mult1 [of 16 X "2 ^ 60"] by simp
  have "16 * X div 2 ^ (64 - 4 * n) = X div 2 ^ (60 - 4 * n)" unfolding K by (rule div_mult_mult1) simp
  with split_div_mod [of "16 * X" "2 ^ (64 - 4 * n)" "16 ^ n"] show ?thesis unfolding M q by simp
qed

lemma hex_val_ptr:
  assumes "n \<le> 16"
  shows "hex_val acc (ptr_digits n x) = acc * 16 ^ n + unat x div 2 ^ (64 - 4 * n)"
  using assms
proof (induction n arbitrary: acc x)
  case 0
  then show ?case using unsigned_less [of x, where 'a = nat] by (simp add: hex_val_def)
next
  case (Suc n)
  have X: "unat x < 2 ^ 64" using unsigned_less [of x, where 'a = nat] by simp
  have d: "unat (drop_bit 60 x) = unat x div 2 ^ 60" by (simp add: drop_bit_eq_div unat_div)
  also have "\<dots> < 16" using X by (simp add: less_mult_imp_div_less)
  finally have dv: "digit_val (digits ! unat (drop_bit 60 x)) = unat x div 2 ^ 60" using digits_16 d by simp
  have sh: "unat (push_bit 4 x) = 16 * unat x mod 2 ^ 64"
    by (simp add: push_bit_eq_mult unat_word_ariths mult.commute)
  have "hex_val acc (ptr_digits (Suc n) x) = hex_val (16 * acc + unat x div 2 ^ 60) (ptr_digits n (push_bit 4 x))"
    by (simp add: hex_val_def dv)
  also have "\<dots> = (16 * acc + unat x div 2 ^ 60) * 16 ^ n + 16 * unat x mod 2 ^ 64 div 2 ^ (64 - 4 * n)"
    using Suc by (simp add: sh)
  also have "\<dots> = acc * 16 ^ Suc n + unat x div 2 ^ (60 - 4 * n)"
    using nibble_shift [of n "unat x"] Suc.prems by (simp add: algebra_simps)
  finally show ?case by simp
qed

lemma format_plain: "CHR ''%'' \<notin> set fmt \<Longrightarrow> format fmt args = Inr fmt"
  by (induction fmt) auto

section \<open>Properties\<close>

text \<open>Reading back what \<open>printf\<close> prints for \<open>%d\<close> and \<open>%x\<close> gives the number, for every \<open>int\<close>
  including the most negative one, and the text always fits the 16-byte buffer.\<close>

lemma printint_roundtrip:
  "read_int 10 (printint xx 10 True) = sint xx \<and> read_int 16 (printint xx 16 True) = sint xx \<and>
   length (printint xx 10 True) \<le> 16 \<and> length (printint xx 16 True) \<le> 16"
  using read_int_printint [of 10 xx] read_int_printint [of 16 xx] length_printint [of 10 xx] length_printint [of 16 xx] by simp

text \<open>\<open>%p\<close> prints \<open>0x\<close> and all 16 hexadecimal digits of the address, from which the address
  can be read back.\<close>

lemma printptr_roundtrip:
  "\<exists>ds. printptr x = CHR ''0'' # CHR ''x'' # ds \<and> length ds = 16 \<and> hex_val 0 ds = unat x"
proof -
  have "length (ptr_digits n y) = n" for n y by (induction n arbitrary: y) auto
  then show ?thesis using hex_val_ptr [of 16 0 x] by (simp add: printptr_def)
qed

end
