(* ===== verification/Ring.thy ===== *)
theory Ring
  imports Prelude
begin

text \<open>
  Ring buffers. The kernel has three: pipes, the UART's transmit buffer and the console's
  input line. Each keeps free-running counters of a machine word and reduces them modulo
  the size of the buffer only to index it. The locale \<open>fifo\<close> is the contract of such a
  buffer, a bounded queue; what its clients need is proved from the contract.
\<close>

section \<open>The bounded queue\<close>

datatype 'a qop = Put 'a | Get

text \<open>The specification: a list with a capacity. A \<open>Put\<close> on a full queue and a \<open>Get\<close> on an
  empty one do nothing, as in the kernel where the caller has to wait; the result collects
  what was taken out.\<close>

fun queue_run :: "nat \<Rightarrow> 'a qop list \<Rightarrow> 'a list \<Rightarrow> 'a list \<times> 'a list" where
  "queue_run cap [] xs = ([], xs)"
| "queue_run cap (Put c # ops) xs = queue_run cap ops (if length xs = cap then xs else xs @ [c])"
| "queue_run cap (Get # ops) xs =
     (case xs of
        [] \<Rightarrow> queue_run cap ops []
      | x # xs \<Rightarrow> let (outs, ys) = queue_run cap ops xs in (x # outs, ys))"

text \<open>The same sequence on a concrete buffer.\<close>

fun ring_run ::
  "('a \<Rightarrow> 'q \<Rightarrow> 'q) \<Rightarrow> ('q \<Rightarrow> 'a) \<Rightarrow> ('q \<Rightarrow> 'q) \<Rightarrow> ('q \<Rightarrow> bool) \<Rightarrow> ('q \<Rightarrow> bool) \<Rightarrow> 'a qop list \<Rightarrow> 'q \<Rightarrow> 'a list \<times> 'q" where
  "ring_run put front pop full vacant [] q = ([], q)"
| "ring_run put front pop full vacant (Put c # ops) q =
     ring_run put front pop full vacant ops (if full q then q else put c q)"
| "ring_run put front pop full vacant (Get # ops) q =
     (if vacant q then ring_run put front pop full vacant ops q
      else let (outs, q') = ring_run put front pop full vacant ops (pop q) in (front q # outs, q'))"

locale fifo =
  fixes wf :: "'q \<Rightarrow> bool" and items :: "'q \<Rightarrow> 'a list"
    and put :: "'a \<Rightarrow> 'q \<Rightarrow> 'q" and front :: "'q \<Rightarrow> 'a" and pop :: "'q \<Rightarrow> 'q"
    and full :: "'q \<Rightarrow> bool" and vacant :: "'q \<Rightarrow> bool" and cap :: nat
  assumes put_wf: "wf q \<Longrightarrow> \<not> full q \<Longrightarrow> wf (put c q)"
    and put_items: "wf q \<Longrightarrow> \<not> full q \<Longrightarrow> items (put c q) = items q @ [c]"
    and pop_wf: "wf q \<Longrightarrow> \<not> vacant q \<Longrightarrow> wf (pop q)"
    and pop_items: "wf q \<Longrightarrow> \<not> vacant q \<Longrightarrow> items q = front q # items (pop q)"
    and vacant_items: "wf q \<Longrightarrow> vacant q \<longleftrightarrow> items q = []"
    and full_items: "wf q \<Longrightarrow> full q \<longleftrightarrow> length (items q) = cap"
    and bounded: "wf q \<Longrightarrow> length (items q) \<le> cap"
begin

lemma run_refines:
  assumes "wf q" "ring_run put front pop full vacant ops q = (outs, q')"
  shows "queue_run cap ops (items q) = (outs, items q') \<and> wf q'"
  using assms
proof (induction ops arbitrary: q outs)
  case (Cons op ops)
  show ?case
  proof (cases op)
    case (Put c)
    show ?thesis
    proof (cases "full q")
      case True
      then show ?thesis using Cons Put full_items by simp
    next
      case False
      then show ?thesis using Cons.IH [of "put c q" outs] Cons.prems Put full_items put_wf put_items by simp
    qed
  next
    case Get
    show ?thesis
    proof (cases "vacant q")
      case True
      then show ?thesis using Cons.IH [of q outs] Cons.prems Get vacant_items [of q] by simp
    next
      case False
      then obtain outs' where o: "ring_run put front pop full vacant ops (pop q) = (outs', q')" "outs = front q # outs'"
        using Cons.prems(2) Get by (auto split: prod.splits)
      then show ?thesis
        using Cons.IH [of "pop q" outs'] Get pop_items [of q] pop_wf Cons.prems(1) False by simp
    qed
  qed
qed simp

text \<open>Filling the buffer, then emptying it, gives the bytes back in order.\<close>

lemma put_many:
  assumes "wf q" "length (items q) + length cs \<le> cap"
  shows "wf (fold put cs q)" "items (fold put cs q) = items q @ cs"
  using assms
proof (induction cs arbitrary: q)
  case (Cons c cs)
  { case 1 then show ?case using Cons put_wf put_items full_items by simp }
  { case 2 then show ?case using Cons put_wf put_items full_items by simp }
qed simp_all

lemma pop_many:
  assumes "wf q" "n \<le> length (items q)"
  shows "wf ((pop ^^ n) q)" "items ((pop ^^ n) q) = drop n (items q)"
proof -
  have "wf ((pop ^^ n) q) \<and> items ((pop ^^ n) q) = drop n (items q)" using assms(2)
  proof (induction n)
    case (Suc n)
    then have IH: "wf ((pop ^^ n) q)" "items ((pop ^^ n) q) = drop n (items q)" by auto
    moreover have "\<not> vacant ((pop ^^ n) q)" using IH vacant_items Suc.prems by simp
    ultimately show ?case using pop_wf pop_items [of "(pop ^^ n) q"]
      by simp (metis drop_Suc drop_tl list.sel(3))
  qed (use assms in simp)
  then show "wf ((pop ^^ n) q)" "items ((pop ^^ n) q) = drop n (items q)" by auto
qed

end

section \<open>Free-running counters\<close>

text \<open>What lies between the read counter \<open>r\<close> and the write counter \<open>w\<close> in a buffer of size \<open>n\<close>.
  The size divides the range of the counter, so that wrapping around the counter does not
  disturb the index.\<close>

definition ring_items :: "nat \<Rightarrow> (nat \<Rightarrow> 'a) \<Rightarrow> 'l::len word \<Rightarrow> 'l word \<Rightarrow> 'a list" where
  "ring_items n buf r w = map (\<lambda>i. buf (unat (r + of_nat i) mod n)) [0..<unat (w - r)]"

lemma length_ring_items [simp]: "length (ring_items n buf r w) = unat (w - r)"
  by (simp add: ring_items_def)

lemma unat_plus_mod:
  fixes r :: "'l::len word"
  assumes "n dvd 2 ^ LENGTH('l)"
  shows "unat (r + of_nat i) mod n = (unat r + i) mod n"
proof -
  have "unat (r + of_nat i) = (unat r + i) mod 2 ^ LENGTH('l)"
    by (simp add: unat_word_ariths unat_of_nat take_bit_eq_mod mod_simps)
  then show ?thesis using assms by (simp add: mod_mod_cancel)
qed

lemma counter_full:
  fixes w r :: "'l::len word"
  assumes "n < 2 ^ LENGTH('l)"
  shows "w = r + of_nat n \<longleftrightarrow> unat (w - r) = n"
proof
  assume "w = r + of_nat n"
  then show "unat (w - r) = n" using assms by (simp add: unat_of_nat_lt)
next
  assume "unat (w - r) = n"
  then have "of_nat n = w - r" by auto
  then show "w = r + of_nat n" by simp
qed

lemma ring_put:
  fixes r w :: "'l::len word"
  assumes "n dvd 2 ^ LENGTH('l)" "0 < n" "unat (w - r) < n" "n < 2 ^ LENGTH('l)"
  shows "ring_items n (buf(unat w mod n := c)) r (w + 1) = ring_items n buf r w @ [c]"
proof -
  let ?k = "unat (w - r)"
  have w: "w = r + of_nat ?k" by (simp add: word_of_nat_eq_iff)
  then have wm: "unat w mod n = (unat r + ?k) mod n" using unat_plus_mod [OF assms(1), of r ?k] by metis
  have "w + 1 - r = (w - r) + 1" by simp
  moreover have "?k + 1 < 2 ^ LENGTH('l)" using assms by linarith
  ultimately have k: "unat (w + 1 - r) = Suc ?k" using unat_add_of_nat [of "w - r" 1] by (simp only:) simp
  have ne: "(unat r + i) mod n \<noteq> (unat r + ?k) mod n" if "i < ?k" for i
  proof
    assume "(unat r + i) mod n = (unat r + ?k) mod n"
    then have "n dvd (unat r + ?k) - (unat r + i)" using that by (subst mod_eq_dvd_iff_nat [symmetric]) auto
    then have "n dvd ?k - i" by simp
    then show False using that assms(3) by (auto dest: dvd_imp_le)
  qed
  show ?thesis unfolding ring_items_def k
    by (auto simp: unat_plus_mod [OF assms(1)] wm dest: ne)
qed

lemma unat_pred: "x \<noteq> 0 \<Longrightarrow> unat (x :: 'l::len word) = Suc (unat (x - 1))"
  using unat_minus_one [of x] measure_unat [of x] by (metis Suc_pred' gr0I not_less0 One_nat_def diff_Suc_1 Suc_diff_1)

lemma ring_pop:
  fixes r w :: "'l::len word"
  assumes "r \<noteq> w"
  shows "ring_items n buf r w = buf (unat r mod n) # ring_items n buf (r + 1) w"
proof -
  have nz: "w - r \<noteq> 0" using assms by auto
  have "w - (r + 1) = (w - r) - 1" by simp
  then have k: "unat (w - r) = Suc (unat (w - (r + 1)))" by (metis unat_pred nz)
  show ?thesis unfolding ring_items_def k upt_conv_Cons [OF zero_less_Suc]
    by (simp add: map_Suc_upt [symmetric] algebra_simps del: upt_Suc)
qed

lemma ring_unput:
  fixes r e :: "'l::len word"
  assumes "e \<noteq> r"
  shows "ring_items n buf r e = ring_items n buf r (e - 1) @ [buf (unat (e - 1) mod n)]"
proof -
  have nz: "e - r \<noteq> 0" using assms by auto
  have e: "e - 1 - r = (e - r) - 1" by simp
  have k: "unat (e - r) = Suc (unat (e - 1 - r))" unfolding e by (rule unat_pred [OF nz])
  have "r + of_nat (unat (e - 1 - r)) = e - 1" by simp
  then show ?thesis unfolding ring_items_def k by (simp only: upt_Suc_append map_append list.map le0)
qed

end
