(* ===== verification/Console.thy ===== *)
theory Console
  imports Fs KPrintf Ring
begin

text \<open>
  The console and its UART, \<^verbatim>\<open>kernel/console.c\<close> and \<^verbatim>\<open>kernel/uart.c\<close>: the input line buffer with
  its editing, the transmit ring, and the interrupt handlers. The device is a parameter:
  \<open>tx_idle\<close> says what the line status register reports about the transmitter in a state, and
  the input of an interrupt is the list of bytes waiting in the receiver. Bytes written to
  the transmitter appear in \<open>kout\<close>. The programming of the baud rate in \<open>uartinit\<close> is not
  modelled, nor is the busy wait of \<open>uartputc_sync\<close>, which ends when the device is idle. The
  waiting loops get fuel, one unit per call of \<open>sleep\<close>.
\<close>

abbreviation INPUT_BUF :: nat where "INPUT_BUF \<equiv> 128"
abbreviation UART_TX_BUF_SIZE :: nat where "UART_TX_BUF_SIZE \<equiv> 32"

record cstate = fstate +
  cons_buf :: "nat \<Rightarrow> u8"
  cons_r :: u32
  cons_w :: u32
  cons_e :: u32
  tx_buf :: "nat \<Rightarrow> u8"
  tx_w :: u64
  tx_r :: u64

section \<open>Transmitting\<close>

definition put_thr :: "u8 \<Rightarrow> 'a pstate_scheme \<Rightarrow> 'a pstate_scheme" where
  "put_thr c s = s\<lparr>kout := kout s @ [byte_char c]\<rparr>"

lemma wakeup_tx: "wakeup c s = Inr t \<Longrightarrow> tx_r t = tx_r s \<and> tx_w t = tx_w s"
  by (auto dest!: wakeup_frame)

text \<open>\<open>uart_tx_buf[uart_tx_w % UART_TX_BUF_SIZE] = c; uart_tx_w += 1\<close> and its reading counterpart.\<close>

definition tx_put :: "u8 \<Rightarrow> 'a cstate_scheme \<Rightarrow> 'a cstate_scheme" where
  "tx_put c s = s\<lparr>tx_buf := (tx_buf s)(unat (tx_w s) mod UART_TX_BUF_SIZE := c), tx_w := tx_w s + 1\<rparr>"

definition tx_head :: "'a cstate_scheme \<Rightarrow> u8" where
  "tx_head s = tx_buf s (unat (tx_r s) mod UART_TX_BUF_SIZE)"

definition tx_drop :: "'a cstate_scheme \<Rightarrow> 'a cstate_scheme" where
  "tx_drop s = s\<lparr>tx_r := tx_r s + 1\<rparr>"

definition tx_full :: "'a cstate_scheme \<Rightarrow> bool" where
  "tx_full s \<longleftrightarrow> tx_w s = tx_r s + of_nat UART_TX_BUF_SIZE"

definition tx_empty :: "'a cstate_scheme \<Rightarrow> bool" where
  "tx_empty s \<longleftrightarrow> tx_w s = tx_r s"

function uartstart :: "('a cstate_scheme \<Rightarrow> bool) \<Rightarrow> 'a cstate_scheme \<Rightarrow> stop + 'a cstate_scheme" where
  "uartstart tx_idle s =
     (if tx_empty s then Inr s
      else if \<not> tx_idle s then Inr s
      else
        let c = tx_head s in
        bindE (wakeup (Some ChUart) (tx_drop s)) (\<lambda>t. uartstart tx_idle (put_thr c t)))"
  by pat_completeness auto
termination
proof (relation "measure (\<lambda>(tx_idle, s). unat (tx_w s - tx_r s))", goal_cases)
  case 1
  then show ?case by simp
next
  case (2 tx_idle s c t)
  then have "tx_w s - tx_r s \<noteq> 0" by (simp add: tx_empty_def)
  then have "unat (tx_w s - tx_r s - 1) < unat (tx_w s - tx_r s)" by (rule measure_unat)
  then show ?case using wakeup_tx [OF 2(4)] by (simp add: put_thr_def tx_drop_def algebra_simps)
qed

declare uartstart.simps [simp del]

fun uartputc_loop ::
  "('a cstate_scheme \<Rightarrow> bool) \<Rightarrow> nat \<Rightarrow> ('a cstate_scheme \<Rightarrow> stop + 'a cstate_scheme) \<Rightarrow> u8 \<Rightarrow> 'a cstate_scheme \<Rightarrow> stop + 'a cstate_scheme" where
  "uartputc_loop tx_idle fuel swtch c s =
     (if tx_full s then
        (case fuel of
           0 \<Rightarrow> Inl OutOfFuel
         | Suc n \<Rightarrow> bindE (sleep swtch ChUart UartLock s) (uartputc_loop tx_idle n swtch c))
      else bindE (uartstart tx_idle (tx_put c s)) (lrelease UartLock))"

declare uartputc_loop.simps [simp del]

definition uartputc ::
  "('a cstate_scheme \<Rightarrow> bool) \<Rightarrow> nat \<Rightarrow> ('a cstate_scheme \<Rightarrow> stop + 'a cstate_scheme) \<Rightarrow> u8 \<Rightarrow> 'a cstate_scheme \<Rightarrow> stop + 'a cstate_scheme" where
  "uartputc tx_idle fuel swtch c s = bindE (lacquire UartLock s) (uartputc_loop tx_idle fuel swtch c)"

section \<open>Console output and input\<close>

text \<open>The \<open>for\<close> loop of \<open>consolewrite\<close>, with \<open>left\<close> bytes to go, and the number of bytes sent.\<close>

fun consolewrite_loop ::
  "('a cstate_scheme \<Rightarrow> bool) \<Rightarrow> nat \<Rightarrow> ('a cstate_scheme \<Rightarrow> stop + 'a cstate_scheme) \<Rightarrow> origin \<Rightarrow> nat \<Rightarrow> nat \<Rightarrow> 'a cstate_scheme \<Rightarrow>
   stop + c_int \<times> 'a cstate_scheme" where
  "consolewrite_loop tx_idle fuel swtch src i 0 s = Inr (of_nat i, s)"
| "consolewrite_loop tx_idle fuel swtch src i (Suc left) s =
     bindE (either_copyin src i 1 s) (\<lambda>(r, bs).
     if r = -1 then Inr (of_nat i, s)
     else bindE (uartputc tx_idle fuel swtch (hd bs) s) (consolewrite_loop tx_idle fuel swtch src (Suc i) left))"

definition consolewrite ::
  "('a cstate_scheme \<Rightarrow> bool) \<Rightarrow> nat \<Rightarrow> ('a cstate_scheme \<Rightarrow> stop + 'a cstate_scheme) \<Rightarrow> origin \<Rightarrow> c_int \<Rightarrow> 'a cstate_scheme \<Rightarrow>
   stop + c_int \<times> 'a cstate_scheme" where
  "consolewrite tx_idle fuel swtch src n s = consolewrite_loop tx_idle fuel swtch src 0 (nat (sint n)) s"

text \<open>
  One call of \<open>sleep\<close> costs a unit of fuel. \<open>i\<close> bytes have been copied, \<open>left\<close> are wanted; the
  result is the return value.
\<close>

function consoleread_loop ::
  "('a cstate_scheme \<Rightarrow> stop + 'a cstate_scheme) \<Rightarrow> target \<Rightarrow> nat \<Rightarrow> nat \<Rightarrow> nat \<Rightarrow> 'a cstate_scheme \<Rightarrow> stop + c_int \<times> 'a cstate_scheme" where
  "consoleread_loop swtch dst fuel i left s =
     (if left = 0 then bindE (lrelease ConsLock s) (\<lambda>s. Inr (of_nat i, s))
      else if cons_r s = cons_w s then
        bindE (myproc s) (\<lambda>p.
        if p_killed (procs s p) then bindE (lrelease ConsLock s) (\<lambda>s. Inr (-1, s))
        else (case fuel of
                0 \<Rightarrow> Inl OutOfFuel
              | Suc n \<Rightarrow> bindE (sleep swtch ChCons ConsLock s) (consoleread_loop swtch dst n i left)))
      else
        let c = cons_buf s (unat (cons_r s) mod INPUT_BUF); s = s\<lparr>cons_r := cons_r s + 1\<rparr> in
        if c = 4 then
          let s = (if 0 < i then s\<lparr>cons_r := cons_r s - 1\<rparr> else s) in
          bindE (lrelease ConsLock s) (\<lambda>s. Inr (of_nat i, s))
        else
          bindE (either_copyout dst i [c] s) (\<lambda>(r, s).
          if r = -1 then bindE (lrelease ConsLock s) (\<lambda>s. Inr (of_nat i, s))
          else if c = 10 then bindE (lrelease ConsLock s) (\<lambda>s. Inr (of_nat (Suc i), s))
          else consoleread_loop swtch dst fuel (Suc i) (left - 1) s))"
  by pat_completeness auto
termination
  by (relation "measures [\<lambda>(swtch, dst, fuel, i, left, s). fuel, \<lambda>(swtch, dst, fuel, i, left, s). left]") auto

declare consoleread_loop.simps [simp del]

definition consoleread ::
  "nat \<Rightarrow> ('a cstate_scheme \<Rightarrow> stop + 'a cstate_scheme) \<Rightarrow> target \<Rightarrow> c_int \<Rightarrow> 'a cstate_scheme \<Rightarrow> stop + c_int \<times> 'a cstate_scheme" where
  "consoleread fuel swtch dst n s =
     bindE (lacquire ConsLock s) (consoleread_loop swtch dst fuel 0 (nat (sint n)))"

function kill_line :: "'a cstate_scheme \<Rightarrow> 'a cstate_scheme" where
  "kill_line s =
     (if cons_e s \<noteq> cons_w s \<and> cons_buf s (unat (cons_e s - 1) mod INPUT_BUF) \<noteq> 10
      then kill_line (consputc 0x100 (s\<lparr>cons_e := cons_e s - 1\<rparr>))
      else s)"
  by pat_completeness auto
termination
proof (relation "measure (\<lambda>s. unat (cons_e s - cons_w s))", goal_cases)
  case 1
  then show ?case by simp
next
  case (2 s)
  then have "cons_e s - cons_w s \<noteq> 0" by simp
  then have "unat (cons_e s - cons_w s - 1) < unat (cons_e s - cons_w s)"
    by (metis measure_unat)
  then show ?case by (simp add: consputc_def algebra_simps)
qed

declare kill_line.simps [simp del]

text \<open>The \<open>switch\<close> of \<open>consoleintr\<close>, and its default case.\<close>

definition cons_default :: "u8 \<Rightarrow> 'a cstate_scheme \<Rightarrow> stop + 'a cstate_scheme" where
  "cons_default c s =
     (if c \<noteq> 0 \<and> cons_e s - cons_r s < of_nat INPUT_BUF then
        let c = (if c = 13 then 10 else c);
            s = consputc (ucast c) s;
            s = s\<lparr>cons_buf := (cons_buf s)(unat (cons_e s) mod INPUT_BUF := c), cons_e := cons_e s + 1\<rparr>
        in if c = 10 \<or> c = 4 \<or> cons_e s = cons_r s + of_nat INPUT_BUF
           then wakeup (Some ChCons) (s\<lparr>cons_w := cons_e s\<rparr>) else Inr s
      else Inr s)"

definition cons_switch :: "u8 \<Rightarrow> 'a cstate_scheme \<Rightarrow> stop + 'a cstate_scheme" where
  "cons_switch c s =
     (if c = 16 then procdump s
      else if c = 21 then Inr (kill_line s)
      else if c = 8 \<or> c = 0x7f then
        Inr (if cons_e s \<noteq> cons_w s then consputc 0x100 (s\<lparr>cons_e := cons_e s - 1\<rparr>) else s)
      else cons_default c s)"

definition consoleintr :: "u8 \<Rightarrow> 'a cstate_scheme \<Rightarrow> stop + 'a cstate_scheme" where
  "consoleintr c s = bindE (lacquire ConsLock s) (\<lambda>s. bindE (cons_switch c s) (lrelease ConsLock))"

definition uartintr :: "('a cstate_scheme \<Rightarrow> bool) \<Rightarrow> u8 list \<Rightarrow> 'a cstate_scheme \<Rightarrow> stop + 'a cstate_scheme" where
  "uartintr tx_idle input s =
     bindE (foldE consoleintr input s) (\<lambda>s.
     bindE (lacquire UartLock s) (\<lambda>s.
     bindE (uartstart tx_idle s) (lrelease UartLock)))"

section \<open>The transmit ring\<close>

definition tx_wf :: "'a cstate_scheme \<Rightarrow> bool" where
  "tx_wf s \<longleftrightarrow> unat (tx_w s - tx_r s) \<le> UART_TX_BUF_SIZE"

definition tx_items :: "'a cstate_scheme \<Rightarrow> u8 list" where
  "tx_items s = ring_items UART_TX_BUF_SIZE (tx_buf s) (tx_r s) (tx_w s)"

lemma tx_full_iff: "tx_full s \<longleftrightarrow> unat (tx_w s - tx_r s) = UART_TX_BUF_SIZE"
  unfolding tx_full_def by (rule counter_full) simp

interpretation tx: fifo tx_wf tx_items tx_put tx_head tx_drop tx_full tx_empty UART_TX_BUF_SIZE
proof
  fix q :: "'a cstate_scheme" and c :: u8
  assume q: "tx_wf q"
  show "length (tx_items q) \<le> UART_TX_BUF_SIZE" using q by (simp add: tx_items_def tx_wf_def)
  show "tx_full q \<longleftrightarrow> length (tx_items q) = UART_TX_BUF_SIZE" by (simp add: tx_full_iff tx_items_def)
  have "length (tx_items q) = unat (tx_w q - tx_r q)" by (simp add: tx_items_def)
  then show "tx_empty q \<longleftrightarrow> tx_items q = []" unfolding tx_empty_def by (metis eq_iff_diff_eq_0 length_0_conv unat_eq_zero)
  { assume "\<not> tx_full q"
    then have less: "unat (tx_w q - tx_r q) < UART_TX_BUF_SIZE" using q by (simp add: tx_wf_def tx_full_iff)
    have "unat (tx_w q - tx_r q + of_nat 1) = unat (tx_w q - tx_r q) + 1"
      by (rule unat_add_of_nat) (use less in simp)
    then show "tx_wf (tx_put c q)" using less by (simp add: tx_wf_def tx_put_def algebra_simps)
    show "tx_items (tx_put c q) = tx_items q @ [c]"
      unfolding tx_items_def tx_put_def using less by (simp add: ring_put) }
  { assume "\<not> tx_empty q"
    then have ne: "tx_r q \<noteq> tx_w q" "tx_w q - tx_r q \<noteq> 0" by (auto simp: tx_empty_def)
    show "tx_wf (tx_drop q)" using measure_unat [OF ne(2)] q by (simp add: tx_wf_def tx_drop_def algebra_simps)
    show "tx_items q = tx_head q # tx_items (tx_drop q)"
      unfolding tx_items_def tx_head_def tx_drop_def using ring_pop [OF ne(1)] by simp }
qed

text \<open>What has left the transmitter, followed by what is waiting in the ring.\<close>

definition tx_stream :: "'a cstate_scheme \<Rightarrow> string" where
  "tx_stream s = kout s @ map byte_char (tx_items s)"

lemma tx_frame [simp]:
  "tx_wf (awake c s) = tx_wf s" "tx_items (awake c s) = tx_items s" "tx_head (awake c s) = tx_head s"
  "kout (put_thr b s) = kout s @ [byte_char b]" "tx_wf (put_thr b s) = tx_wf s" "tx_items (put_thr b s) = tx_items s" "kout (tx_drop s) = kout s"
  "kout (tx_put b s) = kout s" "no_plocks (tx_drop s) = no_plocks s" "no_plocks (put_thr b s) = no_plocks s"
  "no_plocks (tx_put b s) = no_plocks s" "held (tx_put b s) = held s" "held (tx_drop s) = held s" "held (put_thr b s) = held s"
  by (simp_all add: tx_wf_def tx_items_def tx_head_def put_thr_def tx_drop_def tx_put_def no_plocks_def awake_def table_map_def)

lemma uartstart_stream:
  assumes "tx_wf s" "no_plocks s"
  shows "\<exists>t. uartstart tx_idle s = Inr t \<and> tx_wf t \<and> tx_stream t = tx_stream s \<and> held t = held s"
  using assms
proof (induction tx_idle s rule: uartstart.induct)
  case (1 tx_idle s)
  show ?case
  proof (cases "tx_empty s \<or> \<not> tx_idle s")
    case True
    then show ?thesis using 1 by (subst uartstart.simps) auto
  next
    case False
    let ?t = "put_thr (tx_head s) (awake (Some ChUart) (tx_drop s))"
    have w: "wakeup (Some ChUart) (tx_drop s) = Inr (awake (Some ChUart) (tx_drop s))"
      using 1(3) by (intro wakeup_eq) simp
    have st: "uartstart tx_idle s = uartstart tx_idle ?t"
      using False by (subst uartstart.simps) (simp add: w)
    have "tx_stream ?t = tx_stream s" "tx_wf ?t"
      using tx.pop_items [of s] tx.pop_wf [of s] False 1(2) by (simp_all add: tx_stream_def)
    moreover have "no_plocks ?t" "held ?t = held s" using 1(3) by (simp_all add: no_plocks_def)
    ultimately show ?thesis using 1(1) [OF _ _ refl w] False st by auto
  qed
qed

text \<open>A character given to \<open>uartputc\<close> while there is room is accepted at once, and everything
  given before it leaves the transmitter first: the characters sent so far followed by
  those still buffered grow by exactly that character at the end, whatever the device's
  status register says meanwhile.\<close>

lemma uartputc_in_order:
  assumes "tx_wf s" "no_plocks s" "UartLock \<notin> set (held s)" "\<not> tx_full s"
  shows "\<exists>t. uartputc tx_idle fuel swtch c s = Inr t \<and> tx_wf t \<and> held t = held s \<and>
           tx_stream t = tx_stream s @ [byte_char c]"
proof -
  let ?s = "tx_put c (s\<lparr>held := UartLock # held s\<rparr>)"
  have f: "tx_wf (s\<lparr>held := h\<rparr>) = tx_wf s" "tx_items (s\<lparr>held := h\<rparr>) = tx_items s" "tx_full (s\<lparr>held := h\<rparr>) = tx_full s" for h
    by (simp_all add: tx_wf_def tx_items_def tx_full_def)
  have n: "no_plocks (s\<lparr>held := UartLock # held s\<rparr>)" using assms(2) by (simp add: no_plocks_def)
  obtain t where t: "uartstart tx_idle ?s = Inr t" "tx_wf t" "tx_stream t = tx_stream ?s" "held t = held ?s"
    using uartstart_stream [of ?s tx_idle] n tx.put_wf [of "s\<lparr>held := UartLock # held s\<rparr>" c] assms f by auto
  have "uartputc tx_idle fuel swtch c s = lrelease UartLock t"
    using assms(3,4) t(1) f by (simp add: uartputc_def lacquire_simps uartputc_loop.simps)
  moreover have "tx_stream ?s = tx_stream s @ [byte_char c]"
    using tx.put_items [of "s\<lparr>held := UartLock # held s\<rparr>" c] assms(1,4) f by (simp add: tx_stream_def)
  moreover have "tx_stream (t\<lparr>held := h\<rparr>) = tx_stream t" "tx_wf (t\<lparr>held := h\<rparr>) = tx_wf t" for h
    by (simp_all add: tx_stream_def tx_items_def tx_wf_def)
  ultimately show ?thesis using t by (simp add: lrelease_simps)
qed

definition demo_superblock :: superblock where
  "demo_superblock = \<lparr>sb_magic = 0x10203040, sb_size = 1000, sb_nblocks = 954, sb_ninodes = 200, sb_nlog = 30,
     sb_logstart = 2, sb_inodestart = 32, sb_bmapstart = 45\<rparr>"

definition demo_inode :: inode where
  "demo_inode = \<lparr>i_dev = 0, i_inum = 0, i_ref = 0, i_valid = False, i_type = 0, i_major = 0, i_minor = 0, i_nlink = 0,
     i_size = 0, i_addrs = (\<lambda>_. 0)\<rparr>"

definition demo_cstate :: cstate where
  "demo_cstate = fstate.extend (lstate.extend (bstate.extend demo_bstate
       (lstate.fields 2 30 0 False 1 0 (\<lambda>_. 0))) (fstate.fields demo_superblock (\<lambda>_. demo_inode)))
     (cstate.fields (\<lambda>_. 0) 0 0 0 (\<lambda>_. 0) 0 0)"

lemmas demo_cstate_defs = demo_cstate_def fstate.defs lstate.defs bstate.defs cstate.defs

lemma demo_cstate_simps [simp]:
  "held demo_cstate = held demo_bstate" "tx_w demo_cstate = 0" "tx_r demo_cstate = 0"
  "cons_r demo_cstate = 0" "cons_w demo_cstate = 0" "cons_e demo_cstate = 0"
  by (simp_all add: demo_cstate_defs)

lemma demo_held [simp]: "held demo_bstate = []"
  by (simp add: demo_bstate_def binit_frame(1) demo_boot_def)

lemma uartputc_in_order_witness:
  "tx_wf demo_cstate \<and> no_plocks demo_cstate \<and> UartLock \<notin> set (held demo_cstate) \<and> \<not> tx_full demo_cstate \<and>
   (\<exists>t. uartputc (\<lambda>s. tx_w s \<noteq> 0) 0 stay_blocked 65 demo_cstate = Inr t \<and> tx_wf t \<and> held t = held demo_cstate \<and>
        tx_stream t = tx_stream demo_cstate @ [byte_char 65])"
proof -
  have "tx_wf demo_cstate" "no_plocks demo_cstate" "UartLock \<notin> set (held demo_cstate)" "\<not> tx_full demo_cstate"
    by (simp_all add: tx_wf_def no_plocks_def tx_full_def)
  then show ?thesis using uartputc_in_order [of demo_cstate] by blast
qed

section \<open>Line editing\<close>

text \<open>
  The specification of the input line: the bytes committed for reading and the line being
  edited, together at most \<open>INPUT_BUF\<close> of them. Control-U drops the line, backspace its last
  byte, carriage return counts as newline; newline, control-D and a full buffer commit.
\<close>

fun edit_line :: "u8 \<Rightarrow> u8 list \<times> u8 list \<Rightarrow> u8 list \<times> u8 list" where
  "edit_line c (ready, line) =
     (if c = 16 then (ready, line)
      else if c = 21 then (ready, [])
      else if c = 8 \<or> c = 0x7f then (ready, butlast line)
      else if c \<noteq> 0 \<and> length ready + length line < INPUT_BUF then
        let c = (if c = 13 then 10 else c) in
        if c = 10 \<or> c = 4 \<or> Suc (length ready + length line) = INPUT_BUF
        then (ready @ line @ [c], []) else (ready, line @ [c])
      else (ready, line))"

definition cons_all :: "'a cstate_scheme \<Rightarrow> u8 list" where
  "cons_all s = ring_items INPUT_BUF (cons_buf s) (cons_r s) (cons_e s)"

definition cons_n :: "'a cstate_scheme \<Rightarrow> nat" where
  "cons_n s = unat (cons_w s - cons_r s)"

definition cons_view :: "'a cstate_scheme \<Rightarrow> u8 list \<times> u8 list" where
  "cons_view s = (take (cons_n s) (cons_all s), drop (cons_n s) (cons_all s))"

text \<open>The read index is behind the write index, that behind the edit index, all within one
  turn of the buffer, and the line being edited has no newline.\<close>

definition cons_ok :: "'a cstate_scheme \<Rightarrow> bool" where
  "cons_ok s \<longleftrightarrow> cons_n s \<le> length (cons_all s) \<and> length (cons_all s) \<le> INPUT_BUF \<and> 10 \<notin> set (snd (cons_view s))"

definition cons_part :: "'a cstate_scheme \<Rightarrow> (nat \<Rightarrow> u8) \<times> u32 \<times> u32 \<times> u32" where
  "cons_part s = (cons_buf s, cons_r s, cons_w s, cons_e s)"

lemma cons_part_eq:
  assumes "cons_part t = cons_part s"
  shows "cons_all t = cons_all s" "cons_n t = cons_n s" "cons_view t = cons_view s" "cons_ok t = cons_ok s"
  using assms by (simp_all add: cons_part_def cons_all_def cons_n_def cons_view_def cons_ok_def)

lemma cons_frame [simp]:
  "cons_part (awake c s) = cons_part s" "cons_part (consputc x s) = cons_part s" "cons_part (s\<lparr>held := h\<rparr>) = cons_part s"
  "cons_part (s\<lparr>kout := k\<rparr>) = cons_part s"
  by (simp_all add: cons_part_def consputc_def awake_def table_map_def)

lemma printf_frame:
  assumes "printf f args s = Inr t"
  shows "\<exists>K. t = s\<lparr>kout := K\<rparr>"
proof -
  have "\<exists>K H. t = s\<lparr>kout := K, held := H\<rparr> \<and> H = held s"
    using assms unfolding printf_def Let_def
    by (auto simp: bindE_Inr_iff lacquire_Inr_iff lrelease_Inr_iff split: if_splits)
  then show ?thesis by auto
qed

lemma procdump_cons: "procdump s = Inr t \<Longrightarrow> cons_part t = cons_part s"
  unfolding procdump_def
proof (clarsimp simp: bindE_Inr_iff)
  fix u assume u: "printf [CHR 0x0A] [] s = Inr u"
    and f: "foldE (\<lambda>p s. if p_state (procs s p) = UNUSED then Inr s
       else bindE (printf ''%d %s %s''
              [AInt (p_pid (procs s p)), AStr (Some (state_name (p_state (procs s p)))), AStr (Some (p_name (procs s p)))] s)
            (printf [CHR 0x0A] [])) [0..<NPROC] u = Inr t"
  have "cons_part u = cons_part s" using printf_frame [OF u] by auto
  from f this show "cons_part t = cons_part s"
    by (rule foldE_invariant) (auto simp: bindE_Inr_iff split: if_splits dest!: printf_frame)
qed

lemma cons_erase:
  assumes "cons_ok s" "cons_e s \<noteq> cons_w s"
  defines "t \<equiv> s\<lparr>cons_e := cons_e s - 1\<rparr>"
  shows "cons_all s = cons_all t @ [cons_buf s (unat (cons_e s - 1) mod INPUT_BUF)]"
    "cons_n t = cons_n s" "cons_n s \<le> length (cons_all t)" "cons_ok t"
proof -
  have "cons_e s \<noteq> cons_r s"
  proof
    assume "cons_e s = cons_r s"
    then have "cons_n s = 0" using assms(1) by (simp add: cons_ok_def cons_all_def)
    then have "cons_w s - cons_r s = 0" by (simp add: cons_n_def unat_eq_zero)
    then show False using assms(2) \<open>cons_e s = cons_r s\<close> by simp
  qed
  from ring_unput [OF this, of INPUT_BUF "cons_buf s"]
  show all: "cons_all s = cons_all t @ [cons_buf s (unat (cons_e s - 1) mod INPUT_BUF)]"
    by (simp add: cons_all_def t_def)
  show n: "cons_n t = cons_n s" by (simp add: cons_n_def t_def)
  have "cons_w s - cons_r s \<noteq> cons_e s - cons_r s" using assms(2) by simp
  then have "cons_n s \<noteq> length (cons_all s)"
    unfolding cons_n_def cons_all_def length_ring_items by (metis unsigned_word_eqI)
  then show le: "cons_n s \<le> length (cons_all t)" using assms(1) all by (simp add: cons_ok_def)
  show "cons_ok t" using assms(1) all le n by (auto simp: cons_ok_def cons_view_def)
qed

lemma kill_line_view:
  assumes "cons_ok s"
  shows "cons_ok (kill_line s) \<and> cons_view (kill_line s) = (fst (cons_view s), []) \<and>
    held (kill_line s) = held s \<and> procs (kill_line s) = procs s \<and> pr_locking (kill_line s) = pr_locking s"
  using assms
proof (induction s rule: kill_line.induct)
  case (1 s)
  let ?x = "cons_buf s (unat (cons_e s - 1) mod INPUT_BUF)" and ?t = "s\<lparr>cons_e := cons_e s - 1\<rparr>"
  show ?case
  proof (cases "cons_e s = cons_w s")
    case True
    then have "kill_line s = s" by (subst kill_line.simps) simp
    then show ?thesis using 1(2) True by (simp add: cons_view_def cons_n_def cons_all_def)
  next
    case False
    note e = cons_erase [OF 1(2) False]
    have "?x \<in> set (snd (cons_view s))" using e(1,3) by (simp add: cons_view_def)
    then have nl: "?x \<noteq> 10" using 1(2) by (auto simp: cons_ok_def)
    have k: "kill_line s = kill_line (consputc 0x100 ?t)" using False nl by (subst kill_line.simps) simp
    have p: "cons_ok (consputc 0x100 ?t)" "cons_view (consputc 0x100 ?t) = cons_view ?t"
      using cons_part_eq [of "consputc 0x100 ?t" ?t] e(4) by simp_all
    have "fst (cons_view ?t) = fst (cons_view s)" using e(1,2,3) by (simp add: cons_view_def)
    moreover have "held (consputc 0x100 ?t) = held s" "procs (consputc 0x100 ?t) = procs s"
      "pr_locking (consputc 0x100 ?t) = pr_locking s" by (simp_all add: consputc_def)
    moreover have "cons_e s \<noteq> cons_w s \<and> ?x \<noteq> 10" using False nl by simp
    note 1(1) [OF this p(1)]
    ultimately show ?thesis using p(2) by (simp only: k)
  qed
qed

lemma cons_append:
  fixes s :: "'a cstate_scheme" and c :: u8
  assumes "cons_ok s" "cons_e s - cons_r s < of_nat INPUT_BUF"
  defines "t \<equiv> s\<lparr>cons_buf := (cons_buf s)(unat (cons_e s) mod INPUT_BUF := c), cons_e := cons_e s + 1\<rparr>"
  shows "cons_all t = cons_all s @ [c]" "cons_n t = cons_n s"
    "cons_e t = cons_r t + of_nat INPUT_BUF \<longleftrightarrow> Suc (length (cons_all s)) = INPUT_BUF"
    "cons_n (t\<lparr>cons_w := cons_e t\<rparr>) = Suc (length (cons_all s))"
proof -
  have less: "unat (cons_e s - cons_r s) < INPUT_BUF" using assms(2) by (simp add: word_less_nat_alt)
  show all: "cons_all t = cons_all s @ [c]" unfolding cons_all_def t_def using less by (simp add: ring_put)
  show "cons_n t = cons_n s" by (simp add: cons_n_def t_def)
  have len: "unat (cons_e t - cons_r t) = Suc (length (cons_all s))"
    using arg_cong [OF all, of length] by (simp add: cons_all_def)
  have "cons_e t = cons_r t + of_nat INPUT_BUF \<longleftrightarrow> unat (cons_e t - cons_r t) = INPUT_BUF" by (rule counter_full) simp
  then show "cons_e t = cons_r t + of_nat INPUT_BUF \<longleftrightarrow> Suc (length (cons_all s)) = INPUT_BUF" using len by simp
  show "cons_n (t\<lparr>cons_w := cons_e t\<rparr>) = Suc (length (cons_all s))" using len by (simp add: cons_n_def)
qed

lemma printf_ok:
  assumes "PrLock \<notin> set (held s)" "format f args = Inr out"
  shows "printf f args s = Inr (s\<lparr>kout := kout s @ out\<rparr>)"
  using assms by (simp add: printf_def Let_def lacquire_simps lrelease_simps)

lemma procdump_ok:
  assumes "PrLock \<notin> set (held s)"
  shows "\<exists>t. procdump s = Inr t \<and> held t = held s \<and> procs t = procs s"
proof -
  let ?body = "\<lambda>p s. if p_state (procs s p) = UNUSED then Inr s
       else bindE (printf ''%d %s %s''
              [AInt (p_pid (procs s p)), AStr (Some (state_name (p_state (procs s p)))), AStr (Some (p_name (procs s p)))] s)
            (printf [CHR 0x0A] [])"
  have "\<exists>t. foldE ?body ps u = Inr t \<and> held t = held u \<and> procs t = procs u"
    if "PrLock \<notin> set (held u)" for ps and u :: "'a pstate_scheme"
    using that
  proof (induction ps arbitrary: u)
    case (Cons p ps)
    have "\<exists>v. ?body p u = Inr v \<and> held v = held u \<and> procs v = procs u"
      using Cons.prems by (simp add: printf_ok)
    then obtain v where v: "?body p u = Inr v" "held v = held u" "procs v = procs u" by (elim exE conjE)
    obtain t where "foldE ?body ps v = Inr t" "held t = held v" "procs t = procs v"
      using Cons.IH [of v] Cons.prems v(2) by auto
    moreover have "foldE ?body (p # ps) u = foldE ?body ps v" unfolding foldE.simps v(1) bindE.simps ..
    ultimately show ?case using v(2,3) by (intro exI [of _ t]) (simp only: simp_thms)
  qed simp
  from this [of "s\<lparr>kout := kout s @ [CHR 0x0A]\<rparr>" "[0..<NPROC]"] show ?thesis
    using assms printf_ok [of s "[CHR 0x0A]" "[]" "[CHR 0x0A]"] unfolding procdump_def by (simp del: upt_rec_numeral)
qed

lemma cons_default_view:
  assumes ok: "cons_ok s" and np: "no_plocks s" and c: "c \<notin> {16, 21, 8, 0x7f}"
  shows "\<exists>t. cons_default c s = Inr t \<and> cons_ok t \<and> cons_view t = edit_line c (cons_view s) \<and> held t = held s"
proof (cases "c \<noteq> 0 \<and> cons_e s - cons_r s < of_nat INPUT_BUF")
  case False
  have "\<not> (c \<noteq> 0 \<and> length (cons_all s) < INPUT_BUF)" using False by (auto simp: cons_all_def word_less_nat_alt)
  moreover have "length (fst (cons_view s)) + length (snd (cons_view s)) = length (cons_all s)"
    using ok by (simp add: cons_view_def cons_ok_def)
  ultimately show ?thesis using False ok c by (cases "cons_view s") (auto simp: cons_default_def)
next
  case True
  define d where "d = (if c = 13 then 10 else c)"
  define s' where "s' = consputc (ucast d) s"
  define t where "t = s'\<lparr>cons_buf := (cons_buf s')(unat (cons_e s') mod INPUT_BUF := d), cons_e := cons_e s' + 1\<rparr>"
  define u where "u = (if d = 10 \<or> d = 4 \<or> cons_e t = cons_r t + of_nat INPUT_BUF then awake (Some ChCons) (t\<lparr>cons_w := cons_e t\<rparr>) else t)"
  have s': "cons_part s' = cons_part s" "held s' = held s" by (simp_all add: s'_def) (simp add: consputc_def)
  have np': "no_plocks (t\<lparr>cons_w := cons_e t\<rparr>)" using np s'(2) by (simp add: t_def no_plocks_def)
  have run: "cons_default c s = Inr u"
    unfolding cons_default_def u_def using True wakeup_eq [OF np', of "Some ChCons"]
    by (simp add: Let_def t_def s'_def d_def del: of_nat_numeral)
  have ok': "cons_ok s'" and room: "cons_e s' - cons_r s' < of_nat INPUT_BUF"
    using ok True cons_part_eq [OF s'(1)] s'(1) by (simp_all add: cons_part_def)
  note a = cons_append [OF ok' room, of d, folded t_def] 
  note v = cons_part_eq [OF s'(1)]
  have c0: "c \<noteq> 0" "length (cons_all s) < INPUT_BUF" using True by (simp_all add: cons_all_def word_less_nat_alt)
  have ll: "length (fst (cons_view s)) + length (snd (cons_view s)) = length (cons_all s)"
      "fst (cons_view s) @ snd (cons_view s) = cons_all s" "cons_n s \<le> length (cons_all s)"
    using ok by (simp_all add: cons_view_def cons_ok_def)
  have hu: "held u = held s" by (simp add: u_def t_def s'(2))
  show ?thesis
  proof (cases "d = 10 \<or> d = 4 \<or> Suc (length (cons_all s)) = INPUT_BUF")
    case commit: True
    have "cons_part u = cons_part (t\<lparr>cons_w := cons_e t\<rparr>)" using commit a(3) v(1) by (simp add: u_def)
    moreover have "cons_all (t\<lparr>cons_w := cons_e t\<rparr>) = cons_all t" by (simp add: cons_all_def)
    ultimately have "cons_all u = cons_all s @ [d]" "cons_n u = Suc (length (cons_all s))"
      using cons_part_eq [of u "t\<lparr>cons_w := cons_e t\<rparr>"] a(1,4) v(1) by simp_all
    then have "cons_view u = (cons_all s @ [d], [])" "cons_ok u" using c0 by (simp_all add: cons_view_def cons_ok_def)
    moreover have "edit_line c (cons_view s) = (cons_all s @ [d], [])"
      using commit c c0 ll by (cases "cons_view s") (auto simp: d_def Let_def)
    ultimately show ?thesis using run hu by simp
  next
    case False
    then have "u = t" using a(3) v(1) by (simp add: u_def)
    then have all: "cons_all u = cons_all s @ [d]" "cons_n u = cons_n s" using a(1,2) v by simp_all
    then have vu: "cons_view u = (fst (cons_view s), snd (cons_view s) @ [d])" using ll(3) by (simp add: cons_view_def)
    then have "cons_ok u" using all ok c0 False ll(3) by (simp add: cons_ok_def)
    moreover have "edit_line c (cons_view s) = (fst (cons_view s), snd (cons_view s) @ [d])"
      using False c c0 ll by (cases "cons_view s") (auto simp: d_def Let_def)
    ultimately show ?thesis using run hu vu by simp
  qed
qed

lemma cons_switch_view:
  assumes ok: "cons_ok s" and np: "no_plocks s" and h: "PrLock \<notin> set (held s)"
  shows "\<exists>t. cons_switch c s = Inr t \<and> cons_ok t \<and> cons_view t = edit_line c (cons_view s) \<and> held t = held s"
proof -
  consider "c = 16" | "c = 21" | "c = 8 \<or> c = 0x7f" | "c \<notin> {16, 21, 8, 0x7f}" by blast
  then show ?thesis
  proof cases
    case 1
    obtain t where t: "procdump s = Inr t" "held t = held s" using procdump_ok [OF h] by blast
    then show ?thesis using 1 ok cons_part_eq [OF procdump_cons [OF t(1)]]
      by (cases "cons_view s") (simp add: cons_switch_def)
  next
    case 2
    then show ?thesis using kill_line_view [OF ok] by (cases "cons_view s") (simp add: cons_switch_def)
  next
    case 3
    let ?t = "s\<lparr>cons_e := cons_e s - 1\<rparr>"
    show ?thesis
    proof (cases "cons_e s = cons_w s")
      case True
      then have "snd (cons_view s) = []" by (simp add: cons_view_def cons_n_def cons_all_def)
      then show ?thesis using 3 True ok by (cases "cons_view s") (auto simp: cons_switch_def)
    next
      case False
      note e = cons_erase [OF ok False]
      have "cons_view ?t = edit_line c (cons_view s)" using e(1,2,3) 3 by (auto simp: cons_view_def)
      then show ?thesis using 3 False e(4) cons_part_eq [of "consputc 0x100 ?t" ?t]
        by (intro exI [of _ "consputc 0x100 ?t"]) (auto simp: cons_switch_def consputc_def)
    qed
  next
    case 4
    then show ?thesis using cons_default_view [OF ok np 4] by (simp add: cons_switch_def)
  qed
qed

text \<open>C20: The console's line discipline: for every sequence of characters typed, the ring buffer with
  its three free-running indices behaves as the list of committed bytes and the line being
  edited do under the editing rules (erase, kill, commit on newline, control-D or a full
  buffer), no byte is lost or reordered, and the indices stay in order and within one turn.\<close>

theorem console_line_discipline:
  assumes "cons_ok s" "no_plocks s" "ConsLock \<notin> set (held s)" "PrLock \<notin> set (held s)"
  shows "\<exists>t. foldE consoleintr input s = Inr t \<and> cons_ok t \<and> held t = held s \<and>
           cons_view t = fold edit_line input (cons_view s)"
  using assms
proof (induction input arbitrary: s)
  case (Cons c input)
  let ?s = "s\<lparr>held := ConsLock # held s\<rparr>"
  have ok: "cons_ok ?s" "cons_view ?s = cons_view s" using cons_part_eq [of ?s s] Cons.prems(1) by simp_all
  obtain t where t: "cons_switch c ?s = Inr t" "cons_ok t" "cons_view t = edit_line c (cons_view s)" "held t = held ?s"
    using cons_switch_view [OF ok(1), of c] ok(2) Cons.prems by (auto simp: no_plocks_def)
  let ?t = "t\<lparr>held := held s\<rparr>"
  have run: "consoleintr c s = Inr ?t"
    using Cons.prems(3) t by (simp add: consoleintr_def lacquire_simps lrelease_simps)
  have v: "cons_ok ?t" "cons_view ?t = edit_line c (cons_view s)" using cons_part_eq [of ?t t] t by simp_all
  have "no_plocks ?t" using Cons.prems(2) by (simp add: no_plocks_def)
  from Cons.IH [OF v(1) this] show ?case using Cons.prems run v(2) by simp
qed simp

theorem console_line_discipline_witness:
  "cons_ok demo_cstate \<and> no_plocks demo_cstate \<and> ConsLock \<notin> set (held demo_cstate) \<and> PrLock \<notin> set (held demo_cstate) \<and>
   (\<exists>t. foldE consoleintr [97, 98, 8, 99, 13, 100] demo_cstate = Inr t \<and> cons_ok t \<and> held t = held demo_cstate \<and>
      cons_view t = ([97, 99, 10], [100]))"
proof -
  have v: "cons_view demo_cstate = ([], [])" by (simp add: cons_view_def cons_n_def cons_all_def ring_items_def)
  have p: "cons_ok demo_cstate" "no_plocks demo_cstate" "ConsLock \<notin> set (held demo_cstate)" "PrLock \<notin> set (held demo_cstate)"
    using v by (simp_all add: cons_ok_def no_plocks_def cons_n_def cons_all_def)
  have "fold edit_line [97, 98, 8, 99, 13, 100] (cons_view demo_cstate) = ([97, 99, 10], [100])" by (simp add: v)
  then show ?thesis using console_line_discipline [OF p, of "[97, 98, 8, 99, 13, 100]"] p by (simp only: simp_thms)
qed

end
