(* ===== verification/Pipe.thy ===== *)
theory Pipe
  imports Console
begin

text \<open>
  Pipes, \<^verbatim>\<open>kernel/pipe.c\<close>: a 512-byte ring buffer with free-running 32-bit counters. A \<open>struct
  pipe\<close> lives in a page of its own and is named by the address of that page; \<open>pipes\<close> gives
  its fields. The loops that sleep get fuel, one unit per call of \<open>sleep\<close>. \<open>pipealloc\<close> is
  with the file table.
\<close>

abbreviation PIPESIZE :: nat where "PIPESIZE \<equiv> 512"

record pipe =
  pi_data :: "nat \<Rightarrow> u8"
  pi_nread :: u32
  pi_nwrite :: u32
  pi_readopen :: bool
  pi_writeopen :: bool

record pipestate = cstate +
  pipes :: "u64 \<Rightarrow> pipe"

definition upd_pipe :: "u64 \<Rightarrow> (pipe \<Rightarrow> pipe) \<Rightarrow> 'a pipestate_scheme \<Rightarrow> 'a pipestate_scheme" where
  "upd_pipe pi f s = s\<lparr>pipes := (pipes s)(pi := f (pipes s pi))\<rparr>"

definition pipeclose :: "u64 \<Rightarrow> bool \<Rightarrow> 'a pipestate_scheme \<Rightarrow> stop + 'a pipestate_scheme" where
  "pipeclose pi writable s =
     bindE (lacquire (PipeLock pi) s) (\<lambda>s.
     bindE (if writable
            then wakeup (Some (ChPipeRead pi)) (upd_pipe pi (\<lambda>q. q\<lparr>pi_writeopen := False\<rparr>) s)
            else wakeup (Some (ChPipeWrite pi)) (upd_pipe pi (\<lambda>q. q\<lparr>pi_readopen := False\<rparr>) s)) (\<lambda>s.
     if \<not> pi_readopen (pipes s pi) \<and> \<not> pi_writeopen (pipes s pi)
     then bindE (lrelease (PipeLock pi) s) (kfree pi)
     else lrelease (PipeLock pi) s))"

text \<open>\<open>pi->data[pi->nwrite++ % PIPESIZE] = ch\<close> and \<open>ch = pi->data[pi->nread++ % PIPESIZE]\<close>.\<close>

definition pipe_put :: "u8 \<Rightarrow> pipe \<Rightarrow> pipe" where
  "pipe_put ch q = q\<lparr>pi_data := (pi_data q)(unat (pi_nwrite q) mod PIPESIZE := ch), pi_nwrite := pi_nwrite q + 1\<rparr>"

definition pipe_head :: "pipe \<Rightarrow> u8" where
  "pipe_head q = pi_data q (unat (pi_nread q) mod PIPESIZE)"

definition pipe_drop :: "pipe \<Rightarrow> pipe" where
  "pipe_drop q = q\<lparr>pi_nread := pi_nread q + 1\<rparr>"

definition pipe_full :: "pipe \<Rightarrow> bool" where
  "pipe_full q \<longleftrightarrow> pi_nwrite q = pi_nread q + of_nat PIPESIZE"

definition pipe_empty :: "pipe \<Rightarrow> bool" where
  "pipe_empty q \<longleftrightarrow> pi_nread q = pi_nwrite q"

text \<open>\<open>i\<close> bytes have been written and \<open>left\<close> are still to go.\<close>

definition pipewrite_finish :: "u64 \<Rightarrow> nat \<Rightarrow> 'a pipestate_scheme \<Rightarrow> stop + c_int \<times> 'a pipestate_scheme" where
  "pipewrite_finish pi i s =
     bindE (wakeup (Some (ChPipeRead pi)) s) (\<lambda>s.
     bindE (lrelease (PipeLock pi) s) (\<lambda>s. Inr (of_nat i, s)))"

function pipewrite_loop ::
  "('a pipestate_scheme \<Rightarrow> stop + 'a pipestate_scheme) \<Rightarrow> nat \<Rightarrow> u64 \<Rightarrow> u64 \<Rightarrow> nat \<Rightarrow> nat \<Rightarrow> nat \<Rightarrow> 'a pipestate_scheme \<Rightarrow>
   stop + c_int \<times> 'a pipestate_scheme" where
  "pipewrite_loop swtch pr pi addr fuel i left s =
     (if left = 0 then pipewrite_finish pi i s
      else if \<not> pi_readopen (pipes s pi) \<or> p_killed (procs s pr) then
        bindE (lrelease (PipeLock pi) s) (\<lambda>s. Inr (-1, s))
      else if pipe_full (pipes s pi) then
        (case fuel of
           0 \<Rightarrow> Inl OutOfFuel
         | Suc n \<Rightarrow>
             bindE (wakeup (Some (ChPipeRead pi)) s) (\<lambda>s.
             bindE (sleep swtch (ChPipeWrite pi) (PipeLock pi) s) (pipewrite_loop swtch pr pi addr n i left)))
      else
        bindE (copyin (p_pagetable (procs s pr)) (addr + of_nat i) 1 s) (\<lambda>(r, ch).
        if r = -1 then pipewrite_finish pi i s
        else pipewrite_loop swtch pr pi addr fuel (Suc i) (left - 1) (upd_pipe pi (pipe_put (hd ch)) s)))"
  by pat_completeness auto
termination
  by (relation "measures [\<lambda>(swtch, pr, pi, addr, fuel, i, left, s). fuel, \<lambda>(swtch, pr, pi, addr, fuel, i, left, s). left]") auto

declare pipewrite_loop.simps [simp del]

definition pipewrite ::
  "nat \<Rightarrow> ('a pipestate_scheme \<Rightarrow> stop + 'a pipestate_scheme) \<Rightarrow> u64 \<Rightarrow> u64 \<Rightarrow> c_int \<Rightarrow> 'a pipestate_scheme \<Rightarrow>
   stop + c_int \<times> 'a pipestate_scheme" where
  "pipewrite fuel swtch pi addr n s =
     bindE (myproc s) (\<lambda>pr.
     bindE (lacquire (PipeLock pi) s) (pipewrite_loop swtch pr pi addr fuel 0 (nat (sint n))))"

text \<open>Waiting for data: the outcome \<^const>\<open>None\<close> is the early return of a killed process.\<close>

fun piperead_wait ::
  "('a pipestate_scheme \<Rightarrow> stop + 'a pipestate_scheme) \<Rightarrow> nat \<Rightarrow> u64 \<Rightarrow> nat \<Rightarrow> 'a pipestate_scheme \<Rightarrow>
   stop + unit option \<times> 'a pipestate_scheme" where
  "piperead_wait swtch pr pi fuel s =
     (if pipe_empty (pipes s pi) \<and> pi_writeopen (pipes s pi) then
        if p_killed (procs s pr) then bindE (lrelease (PipeLock pi) s) (\<lambda>s. Inr (None, s))
        else (case fuel of
                0 \<Rightarrow> Inl OutOfFuel
              | Suc n \<Rightarrow> bindE (sleep swtch (ChPipeRead pi) (PipeLock pi) s) (piperead_wait swtch pr pi n))
      else Inr (Some (), s))"

declare piperead_wait.simps [simp del]

text \<open>The byte is taken out of the pipe before \<open>copyout\<close>, so one that cannot be delivered is lost.\<close>

fun piperead_loop :: "nat \<Rightarrow> u64 \<Rightarrow> u64 \<Rightarrow> nat \<Rightarrow> nat \<Rightarrow> 'a pipestate_scheme \<Rightarrow> stop + nat \<times> 'a pipestate_scheme" where
  "piperead_loop pr pi addr i 0 s = Inr (i, s)"
| "piperead_loop pr pi addr i (Suc left) s =
     (if pipe_empty (pipes s pi) then Inr (i, s)
      else
        let ch = pipe_head (pipes s pi); s = upd_pipe pi pipe_drop s in
        bindE (copyout (p_pagetable (procs s pr)) (addr + of_nat i) [ch] s) (\<lambda>(r, s).
        if r = -1 then Inr (i, s) else piperead_loop pr pi addr (Suc i) left s))"

definition piperead ::
  "nat \<Rightarrow> ('a pipestate_scheme \<Rightarrow> stop + 'a pipestate_scheme) \<Rightarrow> u64 \<Rightarrow> u64 \<Rightarrow> c_int \<Rightarrow> 'a pipestate_scheme \<Rightarrow>
   stop + c_int \<times> 'a pipestate_scheme" where
  "piperead fuel swtch pi addr n s =
     bindE (myproc s) (\<lambda>pr.
     bindE (lacquire (PipeLock pi) s) (\<lambda>s.
     bindE (piperead_wait swtch pr pi fuel s) (\<lambda>(go, s).
     case go of
       None \<Rightarrow> Inr (-1, s)
     | Some _ \<Rightarrow>
         bindE (piperead_loop pr pi addr 0 (nat (sint n)) s) (\<lambda>(i, s).
         bindE (wakeup (Some (ChPipeWrite pi)) s) (\<lambda>s.
         bindE (lrelease (PipeLock pi) s) (\<lambda>s. Inr (of_nat i, s)))))))"

section \<open>A pipe is a bounded queue\<close>

definition pipe_wf :: "pipe \<Rightarrow> bool" where
  "pipe_wf q \<longleftrightarrow> unat (pi_nwrite q - pi_nread q) \<le> PIPESIZE"

definition pipe_items :: "pipe \<Rightarrow> u8 list" where
  "pipe_items q = ring_items PIPESIZE (pi_data q) (pi_nread q) (pi_nwrite q)"

lemma pipe_full_iff: "pipe_full q \<longleftrightarrow> unat (pi_nwrite q - pi_nread q) = PIPESIZE"
  unfolding pipe_full_def by (rule counter_full) simp

interpretation pipeq: fifo pipe_wf pipe_items pipe_put pipe_head pipe_drop pipe_full pipe_empty PIPESIZE
proof
  fix q :: pipe and c :: u8
  assume q: "pipe_wf q"
  show "length (pipe_items q) \<le> PIPESIZE" using q by (simp add: pipe_items_def pipe_wf_def)
  show "pipe_full q \<longleftrightarrow> length (pipe_items q) = PIPESIZE" by (simp add: pipe_full_iff pipe_items_def)
  have "length (pipe_items q) = unat (pi_nwrite q - pi_nread q)" by (simp add: pipe_items_def)
  then show "pipe_empty q \<longleftrightarrow> pipe_items q = []" unfolding pipe_empty_def by (metis eq_iff_diff_eq_0 length_0_conv unat_eq_zero)
  { assume "\<not> pipe_full q"
    then have less: "unat (pi_nwrite q - pi_nread q) < PIPESIZE" using q by (simp add: pipe_wf_def pipe_full_iff)
    have "unat (pi_nwrite q - pi_nread q + of_nat 1) = unat (pi_nwrite q - pi_nread q) + 1"
      by (rule unat_add_of_nat) (use less in simp)
    then show "pipe_wf (pipe_put c q)" using less by (simp add: pipe_wf_def pipe_put_def algebra_simps)
    show "pipe_items (pipe_put c q) = pipe_items q @ [c]"
      unfolding pipe_items_def pipe_put_def using less by (simp add: ring_put) }
  { assume "\<not> pipe_empty q"
    then have ne: "pi_nread q \<noteq> pi_nwrite q" "pi_nwrite q - pi_nread q \<noteq> 0" by (auto simp: pipe_empty_def)
    show "pipe_wf (pipe_drop q)" using measure_unat [OF ne(2)] q by (simp add: pipe_wf_def pipe_drop_def algebra_simps)
    show "pipe_items q = pipe_head q # pipe_items (pipe_drop q)"
      unfolding pipe_items_def pipe_head_def pipe_drop_def using ring_pop [OF ne(1)] by simp }
qed

text \<open>C19: A pipe's ring buffer is a first-in first-out queue of 512 bytes: on every sequence of
  insertions and removals, starting with counters anywhere in their 32-bit range, it gives
  the outputs a list of bounded length gives and ends with the same contents, also when
  the counters wrap around.\<close>

theorem pipe_refines_queue:
  assumes "pipe_wf q" "ring_run pipe_put pipe_head pipe_drop pipe_full pipe_empty ops q = (outs, q')"
  shows "queue_run PIPESIZE ops (pipe_items q) = (outs, pipe_items q') \<and> pipe_wf q'"
  using assms by (rule pipeq.run_refines)

definition demo_pipe :: pipe where
  "demo_pipe = \<lparr>pi_data = (\<lambda>_. 0), pi_nread = 0xffffffff, pi_nwrite = 0xffffffff, pi_readopen = True, pi_writeopen = True\<rparr>"

theorem pipe_refines_queue_witness:
  "pipe_wf demo_pipe \<and>
   (\<exists>q. ring_run pipe_put pipe_head pipe_drop pipe_full pipe_empty [Put 1, Put 2, Get] demo_pipe = ([1], q) \<and>
      queue_run PIPESIZE [Put 1, Put 2, Get] (pipe_items demo_pipe) = ([1], pipe_items q) \<and> pipe_wf q)"
proof -
  let ?q = "pipe_drop (pipe_put 2 (pipe_put 1 demo_pipe))"
  have w: "pipe_wf demo_pipe" by (simp add: pipe_wf_def demo_pipe_def)
  have r: "ring_run pipe_put pipe_head pipe_drop pipe_full pipe_empty [Put 1, Put 2, Get] demo_pipe = ([1], ?q)"
    by (simp add: demo_pipe_def pipe_put_def pipe_full_def pipe_empty_def pipe_head_def)
  show ?thesis using pipe_refines_queue [OF w r] w r by blast
qed

end
