(* ===== verification/File.thy ===== *)
theory File
  imports Pipe
begin

text \<open>
  The table of open files, \<^verbatim>\<open>kernel/file.c\<close>, and \<open>pipealloc\<close> of \<^verbatim>\<open>kernel/pipe.c\<close>. A \<open>struct file *\<close>
  is an index into the table. Only the console is in \<open>devsw\<close>. What the waiting operations
  need besides their arguments is collected in \<open>io_env\<close>: the UART's answer about its
  transmitter, the fuel of waiting loops and the switch.
\<close>

abbreviation NFILE :: nat where "NFILE \<equiv> 100"

datatype fd_type = FD_NONE | FD_PIPE | FD_INODE | FD_DEVICE

record file_struct =
  f_type :: fd_type
  f_ref :: c_int
  f_readable :: bool
  f_writable :: bool
  f_pipe :: u64
  f_ip :: nat
  f_off :: u32
  f_major :: u16

record kstate = pipestate +
  files :: "nat \<Rightarrow> file_struct"

definition upd_file :: "nat \<Rightarrow> (file_struct \<Rightarrow> file_struct) \<Rightarrow> 'a kstate_scheme \<Rightarrow> 'a kstate_scheme" where
  "upd_file f g s = s\<lparr>files := (files s)(f := g (files s f))\<rparr>"

record 's io_env =
  io_idle :: "'s \<Rightarrow> bool"
  io_fuel :: nat
  io_swtch :: "'s \<Rightarrow> stop + 's"

section \<open>Allocation and reference counts\<close>

definition filealloc :: "'a kstate_scheme \<Rightarrow> stop + nat option \<times> 'a kstate_scheme" where
  "filealloc s =
     bindE (lacquire FtableLock s) (\<lambda>s.
     case List.find (\<lambda>f. f_ref (files s f) = 0) [0..<NFILE] of
       Some f \<Rightarrow>
         let s = upd_file f (\<lambda>x. x\<lparr>f_ref := 1\<rparr>) s in
         bindE (lrelease FtableLock s) (\<lambda>s. Inr (Some f, s))
     | None \<Rightarrow> bindE (lrelease FtableLock s) (\<lambda>s. Inr (None, s)))"

definition filedup :: "nat \<Rightarrow> 'a kstate_scheme \<Rightarrow> stop + nat \<times> 'a kstate_scheme" where
  "filedup f s =
     bindE (lacquire FtableLock s) (\<lambda>s.
     if sint (f_ref (files s f)) < 1 then Inl (Panic ''filedup'')
     else
       let s = upd_file f (\<lambda>x. x\<lparr>f_ref := f_ref x + 1\<rparr>) s in
       bindE (lrelease FtableLock s) (\<lambda>s. Inr (f, s)))"

definition fileclose :: "nat \<Rightarrow> 'a kstate_scheme \<Rightarrow> stop + 'a kstate_scheme" where
  "fileclose f s =
     bindE (lacquire FtableLock s) (\<lambda>s.
     if sint (f_ref (files s f)) < 1 then Inl (Panic ''fileclose'')
     else
       let s = upd_file f (\<lambda>x. x\<lparr>f_ref := f_ref x - 1\<rparr>) s in
       if 0 < sint (f_ref (files s f)) then lrelease FtableLock s
       else
         let ff = files s f; s = upd_file f (\<lambda>x. x\<lparr>f_ref := 0, f_type := FD_NONE\<rparr>) s in
         bindE (lrelease FtableLock s) (\<lambda>s.
         case f_type ff of
           FD_PIPE \<Rightarrow> pipeclose (f_pipe ff) (f_writable ff) s
         | FD_NONE \<Rightarrow> Inr s
         | _ \<Rightarrow> bindE (begin_op 1 stay_blocked s) (\<lambda>s. bindE (iput (f_ip ff) s) end_op)))"

definition pipealloc_bad :: "u64 \<Rightarrow> nat option \<Rightarrow> nat option \<Rightarrow> 'a kstate_scheme \<Rightarrow> stop + (c_int \<times> nat option \<times> nat option) \<times> 'a kstate_scheme" where
  "pipealloc_bad pi f0 f1 s =
     bindE (if pi \<noteq> 0 then kfree pi s else Inr s) (\<lambda>s.
     bindE (case f0 of Some f \<Rightarrow> fileclose f s | None \<Rightarrow> Inr s) (\<lambda>s.
     bindE (case f1 of Some f \<Rightarrow> fileclose f s | None \<Rightarrow> Inr s) (\<lambda>s.
     Inr ((-1, f0, f1), s))))"

definition pipealloc :: "'a kstate_scheme \<Rightarrow> stop + (c_int \<times> nat option \<times> nat option) \<times> 'a kstate_scheme" where
  "pipealloc s =
     bindE (filealloc s) (\<lambda>(f0, s).
     case f0 of
       None \<Rightarrow> pipealloc_bad 0 None None s
     | Some a \<Rightarrow>
         bindE (filealloc s) (\<lambda>(f1, s).
         case f1 of
           None \<Rightarrow> pipealloc_bad 0 f0 None s
         | Some b \<Rightarrow>
             bindE (kalloc s) (\<lambda>(pi, s).
             if pi = 0 then pipealloc_bad 0 f0 f1 s
             else
               let s = upd_pipe pi (\<lambda>q. q\<lparr>pi_readopen := True, pi_writeopen := True, pi_nwrite := 0, pi_nread := 0\<rparr>) s;
                   s = upd_file a (\<lambda>x. x\<lparr>f_type := FD_PIPE, f_readable := True, f_writable := False, f_pipe := pi\<rparr>) s;
                   s = upd_file b (\<lambda>x. x\<lparr>f_type := FD_PIPE, f_readable := False, f_writable := True, f_pipe := pi\<rparr>) s
               in Inr ((0, f0, f1), s))))"

section \<open>Reading and writing\<close>

text \<open>\<open>st\<close> is a variable on the stack; the padding of \<open>struct stat\<close> copies out what lies there,
  which is the argument \<open>junk\<close>.\<close>

definition filestat :: "u8 list \<Rightarrow> nat \<Rightarrow> u64 \<Rightarrow> 'a kstate_scheme \<Rightarrow> stop + c_int \<times> 'a kstate_scheme" where
  "filestat junk f addr s =
     bindE (myproc s) (\<lambda>p.
     if f_type (files s f) = FD_INODE \<or> f_type (files s f) = FD_DEVICE then
       bindE (ilock (f_ip (files s f)) s) (\<lambda>s.
       let st = stati (f_ip (files s f)) junk s in
       bindE (iunlock (f_ip (files s f)) s) (\<lambda>s.
       bindE (copyout (p_pagetable (procs s p)) addr st s) (\<lambda>(r, s).
       if sint r < 0 then Inr (-1, s) else Inr (0, s))))
     else Inr (-1, s))"

definition has_device :: "u16 \<Rightarrow> bool" where
  "has_device major \<longleftrightarrow> major = 1"

definition fileread :: "'a kstate_scheme io_env \<Rightarrow> nat \<Rightarrow> u64 \<Rightarrow> c_int \<Rightarrow> 'a kstate_scheme \<Rightarrow> stop + c_int \<times> 'a kstate_scheme" where
  "fileread io f addr n s =
     (if \<not> f_readable (files s f) then Inr (-1, s)
      else case f_type (files s f) of
        FD_PIPE \<Rightarrow> piperead (io_fuel io) (io_swtch io) (f_pipe (files s f)) addr n s
      | FD_DEVICE \<Rightarrow>
          if sint (f_major (files s f)) < 0 \<or> 10 \<le> sint (f_major (files s f)) \<or> \<not> has_device (f_major (files s f)) then Inr (-1, s)
          else consoleread (io_fuel io) (io_swtch io) (UserVA addr) n s
      | FD_INODE \<Rightarrow>
          bindE (ilock (f_ip (files s f)) s) (\<lambda>s.
          bindE (readi (f_ip (files s f)) (UserVA addr) (f_off (files s f)) n s) (\<lambda>((r, _), s).
          let s = (if 0 < sint r then upd_file f (\<lambda>x. x\<lparr>f_off := f_off x + r\<rparr>) s else s) in
          bindE (iunlock (f_ip (files s f)) s) (\<lambda>s. Inr (r, s))))
      | FD_NONE \<Rightarrow> Inl (Panic ''fileread''))"

text \<open>\<open>((MAXOPBLOCKS-1-1-2) / 2) * BSIZE\<close>\<close>

abbreviation (input) write_max :: nat where "write_max \<equiv> 3072"

function filewrite_loop ::
  "nat \<Rightarrow> u64 \<Rightarrow> nat \<Rightarrow> nat \<Rightarrow> 'a kstate_scheme \<Rightarrow> stop + nat \<times> 'a kstate_scheme" where
  "filewrite_loop f addr i left s =
     (if left = 0 then Inr (i, s)
      else
        let n1 = min left write_max in
        bindE (begin_op 1 stay_blocked s) (\<lambda>s.
        bindE (ilock (f_ip (files s f)) s) (\<lambda>s.
        bindE (writei (f_ip (files s f)) (FromUser (addr + of_nat i)) (f_off (files s f)) (of_nat n1) s) (\<lambda>(r, s).
        let s = (if 0 < sint r then upd_file f (\<lambda>x. x\<lparr>f_off := f_off x + r\<rparr>) s else s) in
        bindE (iunlock (f_ip (files s f)) s) (\<lambda>s.
        bindE (end_op s) (\<lambda>s.
        if r \<noteq> of_nat n1 then Inr (i, s)
        else filewrite_loop f addr (i + n1) (left - n1) s))))))"
  by pat_completeness auto
termination
  by (relation "measure (\<lambda>(f, addr, i, left, s). left)") auto

declare filewrite_loop.simps [simp del]

definition filewrite :: "'a kstate_scheme io_env \<Rightarrow> nat \<Rightarrow> u64 \<Rightarrow> c_int \<Rightarrow> 'a kstate_scheme \<Rightarrow> stop + c_int \<times> 'a kstate_scheme" where
  "filewrite io f addr n s =
     (if \<not> f_writable (files s f) then Inr (-1, s)
      else case f_type (files s f) of
        FD_PIPE \<Rightarrow> pipewrite (io_fuel io) (io_swtch io) (f_pipe (files s f)) addr n s
      | FD_DEVICE \<Rightarrow>
          if sint (f_major (files s f)) < 0 \<or> 10 \<le> sint (f_major (files s f)) \<or> \<not> has_device (f_major (files s f)) then Inr (-1, s)
          else consolewrite (io_idle io) (io_fuel io) (io_swtch io) (FromUser addr) n s
      | FD_INODE \<Rightarrow>
          bindE (filewrite_loop f addr 0 (nat (sint n)) s) (\<lambda>(i, s).
          Inr (if int i = sint n then n else -1, s))
      | FD_NONE \<Rightarrow> Inl (Panic ''filewrite''))"

end
