(* ===== verification/ProcLife.thy ===== *)
theory ProcLife
  imports File
begin

text \<open>
  The life of a process, \<^verbatim>\<open>kernel/proc.c\<close>: allocation and release of table entries, the first
  process, \<open>fork\<close>, \<open>exit\<close>, and waiting for children with and without their statistics. The
  trap frame is a page of memory whose fields are read and written at their offsets in
  \<^verbatim>\<open>kernel/proc.h\<close>. Addresses that the linker assigns are in \<open>symtab\<close>.
\<close>

record symtab =
  sym_trampoline :: u64
  sym_uservec :: u64
  sym_userret :: u64
  sym_usertrap :: u64
  sym_kernelvec :: u64
  sym_forkret :: u64

section \<open>Table entries\<close>

definition proc_pagetable :: "symtab \<Rightarrow> nat \<Rightarrow> 'a pstate_scheme \<Rightarrow> stop + u64 \<times> 'a pstate_scheme" where
  "proc_pagetable sy p s =
     bindE (uvmcreate s) (\<lambda>(pagetable, s).
     if pagetable = 0 then Inr (0, s)
     else
       bindE (mappages pagetable TRAMPOLINE PGSIZE (sym_trampoline sy) (2 + 8) s) (\<lambda>(r, s).
       if sint r < 0 then bindE (uvmfree pagetable 0 s) (\<lambda>s. Inr (0, s))
       else
         bindE (mappages pagetable TRAPFRAME PGSIZE (p_trapframe (procs s p)) (2 + 4) s) (\<lambda>(r, s).
         if sint r < 0 then
           bindE (uvmunmap pagetable TRAMPOLINE 1 False s) (\<lambda>s.
           bindE (uvmfree pagetable 0 s) (\<lambda>s. Inr (0, s)))
         else Inr (pagetable, s))))"

definition proc_freepagetable :: "u64 \<Rightarrow> u64 \<Rightarrow> 'a memory_scheme \<Rightarrow> stop + 'a memory_scheme" where
  "proc_freepagetable pagetable sz s =
     bindE (uvmunmap pagetable TRAMPOLINE 1 False s) (\<lambda>s.
     bindE (uvmunmap pagetable TRAPFRAME 1 False s) (uvmfree pagetable sz))"

text \<open>The fields \<open>freeproc\<close> clears once the memory is gone; \<open>stime\<close> is not among them.\<close>

definition cleared :: "proc \<Rightarrow> proc" where
  "cleared r = r\<lparr>p_pagetable := 0, p_sz := 0, p_pid := 0, p_parent := None, p_name := [], p_chan := None,
     p_killed := False, p_xstate := 0, p_ctime := 0, p_readyTime := 0, p_ttime := 0, p_retime := 0,
     p_rutime := 0, p_average_bursttime := 0, p_state := UNUSED\<rparr>"

definition freeproc :: "nat \<Rightarrow> 'a pstate_scheme \<Rightarrow> stop + 'a pstate_scheme" where
  "freeproc p s =
     bindE (if p_trapframe (procs s p) \<noteq> 0 then kfree (p_trapframe (procs s p)) s else Inr s) (\<lambda>s.
     let s = upd_proc p (\<lambda>r. r\<lparr>p_trapframe := 0\<rparr>) s in
     bindE (if p_pagetable (procs s p) \<noteq> 0 then proc_freepagetable (p_pagetable (procs s p)) (p_sz (procs s p)) s else Inr s) (\<lambda>s.
     Inr (upd_proc p cleared s)))"

definition started :: "c_int \<Rightarrow> u32 \<Rightarrow> proc \<Rightarrow> proc" where
  "started pid now r = r\<lparr>p_pid := pid, p_state := USED, p_mask := 0, p_tickcounter := 0, p_priority := NORMAL_PRIORITY,
     p_average_bursttime := QUANTUM * 100, p_ctime := now, p_readyTime := ucast now, p_rutime := 0\<rparr>"

definition allocproc_found :: "symtab \<Rightarrow> nat \<Rightarrow> 'a pstate_scheme \<Rightarrow> stop + nat option \<times> 'a pstate_scheme" where
  "allocproc_found sy p s =
     bindE (allocpid s) (\<lambda>(pid, s).
     let s = upd_proc p (started pid (ticks s)) s in
     bindE (kalloc s) (\<lambda>(page, s).
     let s = upd_proc p (\<lambda>r. r\<lparr>p_trapframe := page\<rparr>) s;
         give_up = (\<lambda>s. bindE (freeproc p s) (\<lambda>s. bindE (lrelease (ProcLock p) s) (\<lambda>s. Inr (None, s)))) in
     if page = 0 then give_up s
     else
       bindE (proc_pagetable sy p s) (\<lambda>(pagetable, s).
       let s = upd_proc p (\<lambda>r. r\<lparr>p_pagetable := pagetable\<rparr>) s in
       if pagetable = 0 then give_up s
       else
         let s = upd_proc p (\<lambda>r. r\<lparr>p_context := \<lparr>ctx_ra = sym_forkret sy, ctx_sp = p_kstack r + PGSIZE, ctx_s = (\<lambda>_. 0)\<rparr>\<rparr>) s
         in Inr (Some p, s))))"

definition find_unused :: "nat \<Rightarrow> 'a pstate_scheme \<Rightarrow> stop + nat option \<times> 'a pstate_scheme" where
  "find_unused p s =
     bindE (lacquire (ProcLock p) s) (\<lambda>s.
     if p_state (procs s p) = UNUSED then Inr (Some p, s)
     else bindE (lrelease (ProcLock p) s) (\<lambda>s. Inr (None, s)))"

definition allocproc :: "symtab \<Rightarrow> 'a pstate_scheme \<Rightarrow> stop + nat option \<times> 'a pstate_scheme" where
  "allocproc sy s =
     bindE (scanE find_unused [0..<NPROC] s) (\<lambda>(r, s).
     case r of None \<Rightarrow> Inr (None, s) | Some p \<Rightarrow> allocproc_found sy p s)"

section \<open>The first process\<close>

definition initcode :: "u8 list" where
  "initcode = [
     0x17, 0x05, 0x00, 0x00, 0x13, 0x05, 0x45, 0x02,
     0x97, 0x05, 0x00, 0x00, 0x93, 0x85, 0x35, 0x02,
     0x93, 0x08, 0x70, 0x00, 0x73, 0x00, 0x00, 0x00,
     0x93, 0x08, 0x20, 0x00, 0x73, 0x00, 0x00, 0x00,
     0xef, 0xf0, 0x9f, 0xff, 0x2f, 0x69, 0x6e, 0x69,
     0x74, 0x00, 0x00, 0x24, 0x00, 0x00, 0x00, 0x00,
     0x00, 0x00, 0x00, 0x00]"

abbreviation (input) TF_EPC :: u64 where "TF_EPC \<equiv> 24"
abbreviation (input) TF_SP :: u64 where "TF_SP \<equiv> 48"
abbreviation (input) TF_A0 :: u64 where "TF_A0 \<equiv> 112"

definition get_tf :: "nat \<Rightarrow> u64 \<Rightarrow> 'a pstate_scheme \<Rightarrow> u64" where
  "get_tf p off s = load64 (pmem s) (p_trapframe (procs s p) + off)"

definition set_tf :: "nat \<Rightarrow> u64 \<Rightarrow> u64 \<Rightarrow> 'a pstate_scheme \<Rightarrow> 'a pstate_scheme" where
  "set_tf p off v s = s\<lparr>pmem := store64 (pmem s) (p_trapframe (procs s p) + off) v\<rparr>"

text \<open>A failed \<open>allocproc\<close> makes the code dereference null.\<close>

definition userinit :: "symtab \<Rightarrow> 'a kstate_scheme \<Rightarrow> stop + 'a kstate_scheme" where
  "userinit sy s =
     bindE (allocproc sy s) (\<lambda>(r, s).
     let s = s\<lparr>initproc := r\<rparr> in
     case r of
       None \<Rightarrow> Inl (Panic ''kerneltrap'')
     | Some p \<Rightarrow>
         bindE (uvminit (p_pagetable (procs s p)) initcode s) (\<lambda>s.
         let s = upd_proc p (\<lambda>r. r\<lparr>p_sz := PGSIZE\<rparr>) s;
             s = set_tf p TF_EPC 0 s;
             s = set_tf p TF_SP PGSIZE s;
             s = upd_proc p (\<lambda>r. r\<lparr>p_name := ''initcode''\<rparr>) s in
         bindE (namei [slash] s) (\<lambda>(cwd, s).
         let s = upd_proc p (\<lambda>r. r\<lparr>p_cwd := cwd\<rparr>) s;
             s = (if p_state (procs s p) \<noteq> RUNNABLE then upd_proc p (\<lambda>r. r\<lparr>p_readyTime := ucast (ticks s)\<rparr>) s else s);
             s = upd_proc p (\<lambda>r. r\<lparr>p_state := RUNNABLE\<rparr>) s
         in lrelease (ProcLock p) s)))"

text \<open>\<open>uint sz\<close>: the size is cut to 32 bits, and so is the sum \<open>sz + n\<close>.\<close>

definition growproc :: "c_int \<Rightarrow> 'a pstate_scheme \<Rightarrow> stop + c_int \<times> 'a pstate_scheme" where
  "growproc n s =
     bindE (myproc s) (\<lambda>p.
     let sz = (ucast (p_sz (procs s p)) :: u32); pt = p_pagetable (procs s p);
         done = (\<lambda>sz s. Inr (0, upd_proc p (\<lambda>r. r\<lparr>p_sz := ucast (sz :: u32)\<rparr>) s)) in
     if 0 < sint n then
       bindE (uvmalloc pt (ucast sz) (ucast (sz + n)) s) (\<lambda>(r, s).
       if (ucast r :: u32) = 0 then Inr (-1, s) else done (ucast r) s)
     else if sint n < 0 then
       bindE (uvmdealloc pt (ucast sz) (ucast (sz + n)) s) (\<lambda>(r, s). done (ucast r) s)
     else done sz s)"

section \<open>\<open>fork\<close>\<close>

definition fork_files :: "nat \<Rightarrow> nat \<Rightarrow> 'a kstate_scheme \<Rightarrow> stop + 'a kstate_scheme" where
  "fork_files p np s =
     foldE (\<lambda>i s. case p_ofile (procs s p) i of
         None \<Rightarrow> Inr s
       | Some f \<Rightarrow> bindE (filedup f s) (\<lambda>(g, s). Inr (upd_proc np (\<lambda>r. r\<lparr>p_ofile := (p_ofile r)(i := Some g)\<rparr>) s)))
       [0..<NOFILE] s"

definition fork :: "symtab \<Rightarrow> 'a kstate_scheme \<Rightarrow> stop + c_int \<times> 'a kstate_scheme" where
  "fork sy s =
     bindE (myproc s) (\<lambda>p.
     bindE (allocproc sy s) (\<lambda>(r, s).
     case r of
       None \<Rightarrow> Inr (-1, s)
     | Some np \<Rightarrow>
         bindE (uvmcopy (p_pagetable (procs s p)) (p_pagetable (procs s np)) (p_sz (procs s p)) s) (\<lambda>(r, s).
         if sint r < 0 then
           bindE (freeproc np s) (\<lambda>s. bindE (lrelease (ProcLock np) s) (\<lambda>s. Inr (-1, s)))
         else
           let s = upd_proc np (\<lambda>r. r\<lparr>p_sz := p_sz (procs s p), p_mask := p_mask (procs s p), p_priority := p_priority (procs s p),
                     p_tickcounter := 0, p_average_bursttime := QUANTUM * 100\<rparr>) s;
               s = s\<lparr>pmem := store_bytes (pmem s) (p_trapframe (procs s np)) (bytes (pmem s) (p_trapframe (procs s p)) 288)\<rparr>;
               s = set_tf np TF_A0 0 s in
           bindE (fork_files p np s) (\<lambda>s.
           bindE (case p_cwd (procs s p) of None \<Rightarrow> Inl (Panic ''kerneltrap'') | Some d \<Rightarrow> idup d s) (\<lambda>(cwd, s).
           let s = upd_proc np (\<lambda>r. r\<lparr>p_cwd := Some cwd, p_name := take 15 (p_name (procs s p))\<rparr>) s;
               pid = p_pid (procs s np) in
           bindE (lrelease (ProcLock np) s) (\<lambda>s.
           bindE (lacquire WaitLock s) (\<lambda>s.
           let s = upd_proc np (\<lambda>r. r\<lparr>p_parent := Some p\<rparr>) s in
           bindE (lrelease WaitLock s) (\<lambda>s.
           bindE (with_proc np (\<lambda>r. r\<lparr>p_state := RUNNABLE, p_readyTime := ucast (ticks s)\<rparr>) s) (\<lambda>s.
           Inr (pid, s)))))))))) "

section \<open>\<open>exit\<close>\<close>

definition reparent :: "nat \<Rightarrow> 'a pstate_scheme \<Rightarrow> stop + 'a pstate_scheme" where
  "reparent p s =
     foldE (\<lambda>pp s. if p_parent (procs s pp) = Some p
         then wakeup (map_option ChProc (initproc s)) (upd_proc pp (\<lambda>r. r\<lparr>p_parent := initproc s\<rparr>) s)
         else Inr s) [0..<NPROC] s"

definition exit_files :: "nat \<Rightarrow> 'a kstate_scheme \<Rightarrow> stop + 'a kstate_scheme" where
  "exit_files p s =
     foldE (\<lambda>fd s. case p_ofile (procs s p) fd of
         None \<Rightarrow> Inr s
       | Some f \<Rightarrow> bindE (fileclose f s) (\<lambda>s. Inr (upd_proc p (\<lambda>r. r\<lparr>p_ofile := (p_ofile r)(fd := None)\<rparr>) s)))
       [0..<NOFILE] s"

text \<open>From \<open>acquire(&wait_lock)\<close> on: the part of \<open>exit\<close> that touches the table.\<close>

definition exit_table ::
  "('a pstate_scheme \<Rightarrow> stop + 'a pstate_scheme) \<Rightarrow> nat \<Rightarrow> c_int \<Rightarrow> 'a pstate_scheme \<Rightarrow> stop + 'a pstate_scheme" where
  "exit_table swtch p status s =
     bindE (lacquire WaitLock s) (\<lambda>s.
     bindE (reparent p s) (\<lambda>s.
     bindE (wakeup (map_option ChProc (p_parent (procs s p))) s) (\<lambda>s.
     bindE (lacquire (ProcLock p) s) (\<lambda>s.
     let s = upd_proc p (\<lambda>r. r\<lparr>p_xstate := status, p_state := ZOMBIE\<rparr>) s in
     bindE (lrelease WaitLock s) (\<lambda>s.
     bindE (sched swtch s) (\<lambda>s. Inl (Panic ''zombie exit'')))))))"

definition exit ::
  "('a kstate_scheme \<Rightarrow> stop + 'a kstate_scheme) \<Rightarrow> c_int \<Rightarrow> 'a kstate_scheme \<Rightarrow> stop + 'a kstate_scheme" where
  "exit swtch status s =
     bindE (myproc s) (\<lambda>p.
     let s = upd_proc p (\<lambda>r. r\<lparr>p_ttime := ticks s\<rparr>) s in
     if initproc s = Some p then Inl (Panic ''init exiting'')
     else
       bindE (exit_files p s) (\<lambda>s.
       bindE (begin_op 1 stay_blocked s) (\<lambda>s.
       bindE (case p_cwd (procs s p) of None \<Rightarrow> Inl (Panic ''kerneltrap'') | Some d \<Rightarrow> iput d s) (\<lambda>s.
       bindE (end_op s) (\<lambda>s.
       let s = upd_proc p (\<lambda>r. r\<lparr>p_cwd := None\<rparr>) s in
       exit_table swtch p status s)))))"

section \<open>Waiting\<close>

text \<open>\<open>copyout(...) < 0 || copyout(...) < 0 || ...\<close> over the six fields of \<open>struct perf\<close>.\<close>

fun copy_ints :: "u64 \<Rightarrow> u64 \<Rightarrow> c_int list \<Rightarrow> 'a memory_scheme \<Rightarrow> stop + bool \<times> 'a memory_scheme" where
  "copy_ints pt a [] s = Inr (True, s)"
| "copy_ints pt a (v # vs) s =
     bindE (copyout pt a (bytes_of 4 (ucast v)) s) (\<lambda>(r, s).
     if sint r < 0 then Inr (False, s) else copy_ints pt (a + 4) vs s)"

definition perf_ints :: "proc \<Rightarrow> c_int list" where
  "perf_ints r = [p_ctime r, p_ttime r, p_stime r, p_retime r, p_rutime r, p_average_bursttime r]"

definition wait_reap :: "u64 \<Rightarrow> u64 \<Rightarrow> nat \<Rightarrow> nat \<Rightarrow> 'a pstate_scheme \<Rightarrow> stop + c_int \<times> 'a pstate_scheme" where
  "wait_reap addr performance p np s =
     (let pid = p_pid (procs s np) in
      bindE (if addr \<noteq> 0 then copyout (p_pagetable (procs s p)) addr (bytes_of 4 (ucast (p_xstate (procs s np)))) s
             else Inr (0, s)) (\<lambda>(r, s).
      if sint r < 0 then
        bindE (lrelease (ProcLock np) s) (\<lambda>s. bindE (lrelease WaitLock s) (\<lambda>s. Inr (-1, s)))
      else
        bindE (if performance \<noteq> 0 then copy_ints (p_pagetable (procs s p)) performance (perf_ints (procs s np)) s
               else Inr (True, s)) (\<lambda>(ok, s).
        if \<not> ok then Inr (-1, s)
        else
          bindE (freeproc np s) (\<lambda>s.
          bindE (lrelease (ProcLock np) s) (\<lambda>s.
          bindE (lrelease WaitLock s) (\<lambda>s. Inr (pid, s)))))))"

text \<open>One scan of the table: the value returned, if a zombie child was found, and \<open>havekids\<close>.\<close>

fun wait_scan ::
  "u64 \<Rightarrow> u64 \<Rightarrow> nat \<Rightarrow> nat list \<Rightarrow> bool \<Rightarrow> 'a pstate_scheme \<Rightarrow> stop + (c_int option \<times> bool) \<times> 'a pstate_scheme" where
  "wait_scan addr performance p [] havekids s = Inr ((None, havekids), s)"
| "wait_scan addr performance p (np # nps) havekids s =
     (if p_parent (procs s np) = Some p then
        bindE (lacquire (ProcLock np) s) (\<lambda>s.
        if p_state (procs s np) = ZOMBIE then
          bindE (wait_reap addr performance p np s) (\<lambda>(r, s). Inr ((Some r, True), s))
        else bindE (lrelease (ProcLock np) s) (wait_scan addr performance p nps True))
      else wait_scan addr performance p nps havekids s)"

fun wait_loop ::
  "nat \<Rightarrow> ('a pstate_scheme \<Rightarrow> stop + 'a pstate_scheme) \<Rightarrow> u64 \<Rightarrow> u64 \<Rightarrow> nat \<Rightarrow> 'a pstate_scheme \<Rightarrow> stop + c_int \<times> 'a pstate_scheme" where
  "wait_loop fuel swtch addr performance p s =
     bindE (wait_scan addr performance p [0..<NPROC] False s) (\<lambda>((r, havekids), s).
     case r of
       Some v \<Rightarrow> Inr (v, s)
     | None \<Rightarrow>
         if \<not> havekids \<or> p_killed (procs s p) then bindE (lrelease WaitLock s) (\<lambda>s. Inr (-1, s))
         else (case fuel of
                 0 \<Rightarrow> Inl OutOfFuel
               | Suc n \<Rightarrow> bindE (sleep swtch (ChProc p) WaitLock s) (wait_loop n swtch addr performance p)))"

declare wait_loop.simps [simp del]

definition wait_extension ::
  "nat \<Rightarrow> ('a pstate_scheme \<Rightarrow> stop + 'a pstate_scheme) \<Rightarrow> u64 \<Rightarrow> u64 \<Rightarrow> 'a pstate_scheme \<Rightarrow> stop + c_int \<times> 'a pstate_scheme" where
  "wait_extension fuel swtch addr performance s =
     bindE (myproc s) (\<lambda>p.
     bindE (lacquire WaitLock s) (wait_loop fuel swtch addr performance p))"

definition wait ::
  "nat \<Rightarrow> ('a pstate_scheme \<Rightarrow> stop + 'a pstate_scheme) \<Rightarrow> u64 \<Rightarrow> 'a pstate_scheme \<Rightarrow> stop + c_int \<times> 'a pstate_scheme" where
  "wait fuel swtch addr s = wait_extension fuel swtch addr 0 s"

text \<open>\<open>wait_stat\<close> dereferences its first argument: the address to write the status to is the
  \<open>int\<close> found there, sign-extended. The argument here is that \<open>int\<close>, a local of the only caller.\<close>

definition wait_stat ::
  "nat \<Rightarrow> ('a pstate_scheme \<Rightarrow> stop + 'a pstate_scheme) \<Rightarrow> c_int \<Rightarrow> u64 \<Rightarrow> 'a pstate_scheme \<Rightarrow> stop + c_int \<times> 'a pstate_scheme" where
  "wait_stat fuel swtch status performance s = wait_extension fuel swtch (scast status) performance s"

end
