(* ===== verification/Args.thy ===== *)
theory Args
  imports ProcLife
begin

text \<open>
  Reading system-call arguments, \<^verbatim>\<open>kernel/syscall.c\<close>. \<open>argint\<close> and \<open>argaddr\<close> always return 0, so
  the model gives their out-parameter only; what can fail is fetching from user memory.
\<close>

record 's sys_env = "'s io_env" +
  env_syms :: symtab
  env_junk :: "u8 list"

definition fetchaddr :: "u64 \<Rightarrow> 'a pstate_scheme \<Rightarrow> stop + u64 option" where
  "fetchaddr addr s =
     bindE (myproc s) (\<lambda>p.
     if p_sz (procs s p) \<le> addr \<or> p_sz (procs s p) < addr + 8 then Inr None
     else bindE (copyin (p_pagetable (procs s p)) addr 8 s) (\<lambda>(r, bs).
       Inr (if r \<noteq> 0 then None else Some (word_of bs))))"

text \<open>The result is the string without its NUL; \<open>strlen\<close> of it is what the code returns.\<close>

definition fetchstr :: "u64 \<Rightarrow> nat \<Rightarrow> 'a pstate_scheme \<Rightarrow> stop + u8 list option" where
  "fetchstr addr maxlen s =
     bindE (myproc s) (\<lambda>p.
     bindE (copyinstr (p_pagetable (procs s p)) addr maxlen s) (\<lambda>(err, bs).
     Inr (if sint err < 0 then None else Some (takeWhile (\<lambda>c. c \<noteq> 0) bs))))"

definition argraw :: "nat \<Rightarrow> 'a pstate_scheme \<Rightarrow> stop + u64" where
  "argraw n s =
     bindE (myproc s) (\<lambda>p.
     if n < 6 then Inr (get_tf p (TF_A0 + 8 * of_nat n) s) else Inl (Panic ''argraw''))"

definition argint :: "nat \<Rightarrow> 'a pstate_scheme \<Rightarrow> stop + c_int" where
  "argint n s = bindE (argraw n s) (\<lambda>v. Inr (ucast v))"

definition argaddr :: "nat \<Rightarrow> 'a pstate_scheme \<Rightarrow> stop + u64" where
  "argaddr n s = argraw n s"

definition argstr :: "nat \<Rightarrow> nat \<Rightarrow> 'a pstate_scheme \<Rightarrow> stop + u8 list option" where
  "argstr n maxlen s = bindE (argaddr n s) (\<lambda>addr. fetchstr addr maxlen s)"

end
