(* ===== verification/Sysproc.thy ===== *)
theory Sysproc
  imports Args
begin

text \<open>
  The system calls about processes, \<^verbatim>\<open>kernel/sysproc.c\<close>. Every handler returns the \<open>uint64\<close> that
  goes to \<open>a0\<close>; an \<open>int\<close> result is sign-extended.
\<close>

definition ret_int :: "stop + c_int \<times> 's \<Rightarrow> stop + u64 \<times> 's" where
  "ret_int m = bindE m (\<lambda>(r, s). Inr (scast r, s))"

definition sys_exit :: "'a kstate_scheme sys_env \<Rightarrow> 'a kstate_scheme \<Rightarrow> stop + u64 \<times> 'a kstate_scheme" where
  "sys_exit env s = bindE (argint 0 s) (\<lambda>n. bindE (exit (io_swtch env) n s) (\<lambda>s. Inr (0, s)))"

definition sys_getpid :: "'a kstate_scheme \<Rightarrow> stop + u64 \<times> 'a kstate_scheme" where
  "sys_getpid s = bindE (myproc s) (\<lambda>p. Inr (scast (p_pid (procs s p)), s))"

definition sys_fork :: "'a kstate_scheme sys_env \<Rightarrow> 'a kstate_scheme \<Rightarrow> stop + u64 \<times> 'a kstate_scheme" where
  "sys_fork env s = ret_int (fork (env_syms env) s)"

definition sys_wait :: "'a kstate_scheme sys_env \<Rightarrow> 'a kstate_scheme \<Rightarrow> stop + u64 \<times> 'a kstate_scheme" where
  "sys_wait env s = bindE (argaddr 0 s) (\<lambda>p. ret_int (wait (io_fuel env) (io_swtch env) p s))"

definition sys_sbrk :: "'a kstate_scheme \<Rightarrow> stop + u64 \<times> 'a kstate_scheme" where
  "sys_sbrk s =
     bindE (argint 0 s) (\<lambda>n.
     bindE (myproc s) (\<lambda>p.
     let addr = (ucast (p_sz (procs s p)) :: c_int) in
     bindE (growproc n s) (\<lambda>(r, s).
     if sint r < 0 then Inr (-1, s) else Inr (scast addr, s))))"

text \<open>\<open>ticks - ticks0 < n\<close> compares as unsigned numbers, because \<open>ticks\<close> is \<open>uint\<close>.\<close>

fun sys_sleep_loop ::
  "nat \<Rightarrow> ('a pstate_scheme \<Rightarrow> stop + 'a pstate_scheme) \<Rightarrow> u32 \<Rightarrow> u32 \<Rightarrow> 'a pstate_scheme \<Rightarrow> stop + u64 \<times> 'a pstate_scheme" where
  "sys_sleep_loop fuel swtch ticks0 n s =
     (if ticks s - ticks0 < n then
        bindE (myproc s) (\<lambda>p.
        if p_killed (procs s p) then bindE (lrelease TicksLock s) (\<lambda>s. Inr (-1, s))
        else (case fuel of
                0 \<Rightarrow> Inl OutOfFuel
              | Suc fuel \<Rightarrow> bindE (sleep swtch ChTicks TicksLock s) (sys_sleep_loop fuel swtch ticks0 n)))
      else bindE (lrelease TicksLock s) (\<lambda>s. Inr (0, s)))"

declare sys_sleep_loop.simps [simp del]

definition sys_sleep :: "'a kstate_scheme sys_env \<Rightarrow> 'a kstate_scheme \<Rightarrow> stop + u64 \<times> 'a kstate_scheme" where
  "sys_sleep env s =
     bindE (argint 0 s) (\<lambda>n.
     bindE (lacquire TicksLock s) (\<lambda>s. sys_sleep_loop (io_fuel env) (io_swtch env) (ticks s) n s))"

definition sys_set_priority :: "'a kstate_scheme \<Rightarrow> stop + u64 \<times> 'a kstate_scheme" where
  "sys_set_priority s = bindE (argint 0 s) (\<lambda>prio. ret_int (set_priority prio s))"

definition sys_trace :: "'a kstate_scheme \<Rightarrow> stop + u64 \<times> 'a kstate_scheme" where
  "sys_trace s = bindE (argint 0 s) (\<lambda>mask. bindE (argint 1 s) (\<lambda>pid. ret_int (trace mask pid s)))"

definition sys_kill :: "'a kstate_scheme \<Rightarrow> stop + u64 \<times> 'a kstate_scheme" where
  "sys_kill s = bindE (argint 0 s) (\<lambda>pid. ret_int (kill pid s))"

definition sys_uptime :: "'a kstate_scheme \<Rightarrow> stop + u64 \<times> 'a kstate_scheme" where
  "sys_uptime s =
     bindE (lacquire TicksLock s) (\<lambda>s.
     let xticks = ticks s in bindE (lrelease TicksLock s) (\<lambda>s. Inr (ucast xticks, s)))"

text \<open>The first argument, a user pointer, passes through an \<open>int\<close>.\<close>

definition sys_wait_stat :: "'a kstate_scheme sys_env \<Rightarrow> 'a kstate_scheme \<Rightarrow> stop + u64 \<times> 'a kstate_scheme" where
  "sys_wait_stat env s =
     bindE (myproc s) (\<lambda>p.
     let tmp = get_tf p (TF_A0 + 8) s in
     bindE (argint 0 s) (\<lambda>status. ret_int (wait_stat (io_fuel env) (io_swtch env) status tmp s)))"

end
