(* ===== verification/Exec.thy ===== *)
theory Exec
  imports Args
begin

text \<open>
  \<open>exec\<close>, \<^verbatim>\<open>kernel/exec.c\<close>: reading the ELF header and the program headers at their byte offsets
  (\<^verbatim>\<open>kernel/elf.h\<close>), loading segments, and building the user stack. \<open>argv\<close> is the list of the
  pointers before the terminating null.
\<close>

abbreviation (input) MAXARG :: nat where "MAXARG \<equiv> 32"
abbreviation (input) ELF_MAGIC :: u32 where "ELF_MAGIC \<equiv> 0x464C457F"

definition get64 :: "u8 list \<Rightarrow> nat \<Rightarrow> u64" where
  "get64 d off = word_of (get_bytes d off 8)"

record elfhdr =
  elf_magic :: u32
  elf_entry :: u64
  elf_phoff :: u64
  elf_phnum :: u16

definition elfhdr_of :: "u8 list \<Rightarrow> elfhdr" where
  "elfhdr_of d = \<lparr>elf_magic = get32 d 0, elf_entry = get64 d 24, elf_phoff = get64 d 32, elf_phnum = get16 d 56\<rparr>"

record proghdr =
  ph_type :: u32
  ph_off :: u64
  ph_vaddr :: u64
  ph_filesz :: u64
  ph_memsz :: u64

definition proghdr_of :: "u8 list \<Rightarrow> proghdr" where
  "proghdr_of d = \<lparr>ph_type = get32 d 0, ph_off = get64 d 8, ph_vaddr = get64 d 16, ph_filesz = get64 d 32, ph_memsz = get64 d 40\<rparr>"

section \<open>Segments\<close>

definition loadseg_one ::
  "u64 \<Rightarrow> u64 \<Rightarrow> nat \<Rightarrow> u32 \<Rightarrow> u32 \<Rightarrow> nat \<Rightarrow> 'a fstate_scheme \<Rightarrow> stop + c_int option \<times> 'a fstate_scheme" where
  "loadseg_one pagetable va ip offset sz i s =
     bindE (walkaddr pagetable (va + of_nat i) s) (\<lambda>pa.
     if pa = 0 then Inl (Panic ''loadseg: address should exist'')
     else
       let n = min (unat sz - i) (unat PGSIZE) in
       bindE (readi ip (KernPA pa) (offset + of_nat i) (of_nat n) s) (\<lambda>((r, _), s).
       Inr (if r \<noteq> of_nat n then Some (-1) else None, s)))"

text \<open>The loop runs over the pages of the segment. (Its \<open>uint\<close> counter would wrap for a segment
  within a page of 4 GB, which no file is long enough to fill.)\<close>

definition loadseg ::
  "u64 \<Rightarrow> u64 \<Rightarrow> nat \<Rightarrow> u32 \<Rightarrow> u32 \<Rightarrow> 'a fstate_scheme \<Rightarrow> stop + c_int \<times> 'a fstate_scheme" where
  "loadseg pagetable va ip offset sz s =
     (if va mod PGSIZE \<noteq> 0 then Inl (Panic ''loadseg: va must be page aligned'')
      else
        bindE (scanE (loadseg_one pagetable va ip offset sz) (map (\<lambda>k. 4096 * k) [0..<(unat sz + 4095) div 4096]) s) (\<lambda>(r, s).
        Inr (case r of Some v \<Rightarrow> v | None \<Rightarrow> 0, s)))"

text \<open>One result for the loop over program headers: whether it went through, and the size
  reached.\<close>

fun load_segments ::
  "nat \<Rightarrow> u32 \<Rightarrow> nat \<Rightarrow> u64 \<Rightarrow> u64 \<Rightarrow> 'a fstate_scheme \<Rightarrow> stop + (bool \<times> u64) \<times> 'a fstate_scheme" where
  "load_segments 0 off ip pagetable sz s = Inr ((True, sz), s)"
| "load_segments (Suc phnum) off ip pagetable sz s =
     bindE (readi ip KernObj off 56 s) (\<lambda>((r, d), s).
     if r \<noteq> 56 then Inr ((False, sz), s)
     else
       let ph = proghdr_of d in
       if ph_type ph \<noteq> 1 then load_segments phnum (off + 56) ip pagetable sz s
       else if ph_memsz ph < ph_filesz ph then Inr ((False, sz), s)
       else if ph_vaddr ph + ph_memsz ph < ph_vaddr ph then Inr ((False, sz), s)
       else
         bindE (uvmalloc pagetable sz (ph_vaddr ph + ph_memsz ph) s) (\<lambda>(sz1, s).
         if sz1 = 0 then Inr ((False, sz), s)
         else if ph_vaddr ph mod PGSIZE \<noteq> 0 then Inr ((False, sz1), s)
         else
           bindE (loadseg pagetable (ph_vaddr ph) ip (ucast (ph_off ph)) (ucast (ph_filesz ph)) s) (\<lambda>(r, s).
           if sint r < 0 then Inr ((False, sz1), s)
           else load_segments phnum (off + 56) ip pagetable sz1 s)))"

section \<open>The user stack\<close>

text \<open>The stack pointer after the strings, and the pointers to them; nothing on failure.\<close>

fun push_args ::
  "u64 \<Rightarrow> u64 \<Rightarrow> u64 list \<Rightarrow> u64 \<Rightarrow> u64 list \<Rightarrow> 'a memory_scheme \<Rightarrow> stop + (u64 \<times> u64 list) option \<times> 'a memory_scheme" where
  "push_args pagetable stackbase [] sp ustack s = Inr (Some (sp, ustack), s)"
| "push_args pagetable stackbase (a # argv) sp ustack s =
     (if MAXARG \<le> length ustack then Inr (None, s)
      else case strlen a (pmem s) of
        None \<Rightarrow> Inl OutOfBounds
      | Some n \<Rightarrow>
          let sp = sp - (of_nat n + 1); sp = sp - sp mod 16 in
          if sp < stackbase then Inr (None, s)
          else
            bindE (copyout pagetable sp (bytes (pmem s) a (n + 1)) s) (\<lambda>(r, s).
            if sint r < 0 then Inr (None, s)
            else push_args pagetable stackbase argv sp (ustack @ [sp]) s))"

definition prog_name :: "u8 list \<Rightarrow> u8 list" where
  "prog_name path = rev (takeWhile (\<lambda>c. c \<noteq> slash) (rev path))"

section \<open>\<open>exec\<close>\<close>

text \<open>The label \<open>bad\<close>.\<close>

definition exec_bad :: "u64 \<Rightarrow> u64 \<Rightarrow> nat option \<Rightarrow> 'a fstate_scheme \<Rightarrow> stop + c_int \<times> 'a fstate_scheme" where
  "exec_bad pagetable sz ip s =
     bindE (if pagetable \<noteq> 0 then proc_freepagetable pagetable sz s else Inr s) (\<lambda>s.
     bindE (case ip of None \<Rightarrow> Inr s | Some i \<Rightarrow> bindE (iunlockput i s) end_op) (\<lambda>s. Inr (-1, s)))"

text \<open>From the commit to the new image on.\<close>

definition exec_commit ::
  "nat \<Rightarrow> u8 list \<Rightarrow> u64 \<Rightarrow> u64 \<Rightarrow> u64 \<Rightarrow> u64 \<Rightarrow> u64 \<Rightarrow> nat \<Rightarrow> 'a pstate_scheme \<Rightarrow> stop + c_int \<times> 'a pstate_scheme" where
  "exec_commit p path pagetable sz oldsz entry sp argc s =
     (let s = set_tf p (TF_A0 + 8) sp s;
          s = upd_proc p (\<lambda>r. r\<lparr>p_name := take 15 (map byte_char (prog_name path))\<rparr>) s;
          oldpagetable = p_pagetable (procs s p);
          s = upd_proc p (\<lambda>r. r\<lparr>p_pagetable := pagetable, p_sz := sz\<rparr>) s;
          s = set_tf p TF_EPC entry s;
          s = set_tf p TF_SP sp s in
      bindE (proc_freepagetable oldpagetable oldsz s) (\<lambda>s. Inr (of_nat argc, s)))"

text \<open>From \<open>ip = 0\<close> on: the stack and the commit.\<close>

definition exec_stack ::
  "nat \<Rightarrow> u8 list \<Rightarrow> u64 list \<Rightarrow> u64 \<Rightarrow> u64 \<Rightarrow> u64 \<Rightarrow> 'a fstate_scheme \<Rightarrow> stop + c_int \<times> 'a fstate_scheme" where
  "exec_stack p path argv pagetable sz entry s =
     (let oldsz = p_sz (procs s p); sz = PGROUNDUP sz in
      bindE (uvmalloc pagetable sz (sz + 2 * PGSIZE) s) (\<lambda>(sz1, s).
      if sz1 = 0 then exec_bad pagetable sz None s
      else
        let sz = sz1 in
        bindE (uvmclear pagetable (sz - 2 * PGSIZE) s) (\<lambda>s.
        let sp = sz; stackbase = sp - PGSIZE in
        bindE (push_args pagetable stackbase argv sp [] s) (\<lambda>(r, s).
        case r of
          None \<Rightarrow> exec_bad pagetable sz None s
        | Some (sp, ustack) \<Rightarrow>
            let argc = length ustack;
                sp = sp - (of_nat argc + 1) * 8;
                sp = sp - sp mod 16 in
            if sp < stackbase then exec_bad pagetable sz None s
            else
              bindE (copyout pagetable sp (concat (map (bytes_of 8) (ustack @ [0]))) s) (\<lambda>(r, s).
              if sint r < 0 then exec_bad pagetable sz None s
              else exec_commit p path pagetable sz oldsz entry sp argc s)))))"

definition exec :: "symtab \<Rightarrow> u8 list \<Rightarrow> u64 list \<Rightarrow> 'a fstate_scheme \<Rightarrow> stop + c_int \<times> 'a fstate_scheme" where
  "exec sy path argv s =
     bindE (myproc s) (\<lambda>p.
     bindE (begin_op 1 stay_blocked s) (\<lambda>s.
     bindE (namei path s) (\<lambda>(hit, s).
     case hit of
       None \<Rightarrow> bindE (end_op s) (\<lambda>s. Inr (-1, s))
     | Some ip \<Rightarrow>
         bindE (ilock ip s) (\<lambda>s.
         bindE (readi ip KernObj 0 64 s) (\<lambda>((r, d), s).
         let elf = elfhdr_of d in
         if r \<noteq> 64 then exec_bad 0 0 hit s
         else if elf_magic elf \<noteq> ELF_MAGIC then exec_bad 0 0 hit s
         else
           bindE (proc_pagetable sy p s) (\<lambda>(pagetable, s).
           if pagetable = 0 then exec_bad 0 0 hit s
           else
             bindE (load_segments (unat (elf_phnum elf)) (ucast (elf_phoff elf)) ip pagetable 0 s) (\<lambda>((ok, sz), s).
             if \<not> ok then exec_bad pagetable sz hit s
             else
               bindE (iunlockput ip s) (\<lambda>s.
               bindE (end_op s) (exec_stack p path argv pagetable sz (elf_entry elf)))))))))) "

end
