(* ===== verification/Sysfile.thy ===== *)
theory Sysfile
  imports Exec Sysproc
begin

text \<open>
  The system calls about files, \<^verbatim>\<open>kernel/sysfile.c\<close>.
\<close>

abbreviation (input) MAXPATH :: nat where "MAXPATH \<equiv> 128"
abbreviation (input) O_RDONLY :: c_int where "O_RDONLY \<equiv> 0"
abbreviation (input) O_WRONLY :: c_int where "O_WRONLY \<equiv> 1"
abbreviation (input) O_RDWR :: c_int where "O_RDWR \<equiv> 2"
abbreviation (input) O_CREATE :: c_int where "O_CREATE \<equiv> 0x200"
abbreviation (input) O_TRUNC :: c_int where "O_TRUNC \<equiv> 0x400"

unbundle bit_operations_syntax

section \<open>Descriptors\<close>

definition argfd :: "nat \<Rightarrow> 'a kstate_scheme \<Rightarrow> stop + (nat \<times> nat) option" where
  "argfd n s =
     bindE (argint n s) (\<lambda>fd.
     bindE (myproc s) (\<lambda>p.
     Inr (if sint fd < 0 \<or> int NOFILE \<le> sint fd then None
          else map_option (\<lambda>f. (unat fd, f)) (p_ofile (procs s p) (unat fd)))))"

definition fdalloc :: "nat \<Rightarrow> 'a kstate_scheme \<Rightarrow> stop + nat option \<times> 'a kstate_scheme" where
  "fdalloc f s =
     bindE (myproc s) (\<lambda>p.
     case List.find (\<lambda>fd. p_ofile (procs s p) fd = None) [0..<NOFILE] of
       Some fd \<Rightarrow> Inr (Some fd, upd_proc p (\<lambda>r. r\<lparr>p_ofile := (p_ofile r)(fd := Some f)\<rparr>) s)
     | None \<Rightarrow> Inr (None, s))"

definition clear_fd :: "nat \<Rightarrow> nat \<Rightarrow> 'a kstate_scheme \<Rightarrow> 'a kstate_scheme" where
  "clear_fd p fd s = upd_proc p (\<lambda>r. r\<lparr>p_ofile := (p_ofile r)(fd := None)\<rparr>) s"

definition sys_dup :: "'a kstate_scheme \<Rightarrow> stop + u64 \<times> 'a kstate_scheme" where
  "sys_dup s =
     bindE (argfd 0 s) (\<lambda>r.
     case r of
       None \<Rightarrow> Inr (-1, s)
     | Some (_, f) \<Rightarrow>
         bindE (fdalloc f s) (\<lambda>(fd, s).
         case fd of
           None \<Rightarrow> Inr (-1, s)
         | Some fd \<Rightarrow> bindE (filedup f s) (\<lambda>(_, s). Inr (of_nat fd, s))))"

definition sys_read :: "'a kstate_scheme sys_env \<Rightarrow> 'a kstate_scheme \<Rightarrow> stop + u64 \<times> 'a kstate_scheme" where
  "sys_read env s =
     bindE (argfd 0 s) (\<lambda>r.
     case r of
       None \<Rightarrow> Inr (-1, s)
     | Some (_, f) \<Rightarrow>
         bindE (argint 2 s) (\<lambda>n. bindE (argaddr 1 s) (\<lambda>p. ret_int (fileread (io_env.truncate env) f p n s))))"

definition sys_write :: "'a kstate_scheme sys_env \<Rightarrow> 'a kstate_scheme \<Rightarrow> stop + u64 \<times> 'a kstate_scheme" where
  "sys_write env s =
     bindE (argfd 0 s) (\<lambda>r.
     case r of
       None \<Rightarrow> Inr (-1, s)
     | Some (_, f) \<Rightarrow>
         bindE (argint 2 s) (\<lambda>n. bindE (argaddr 1 s) (\<lambda>p. ret_int (filewrite (io_env.truncate env) f p n s))))"

definition sys_close :: "'a kstate_scheme \<Rightarrow> stop + u64 \<times> 'a kstate_scheme" where
  "sys_close s =
     bindE (argfd 0 s) (\<lambda>r.
     case r of
       None \<Rightarrow> Inr (-1, s)
     | Some (fd, f) \<Rightarrow>
         bindE (myproc s) (\<lambda>p. bindE (fileclose f (clear_fd p fd s)) (\<lambda>s. Inr (0, s))))"

definition sys_fstat :: "'a kstate_scheme sys_env \<Rightarrow> 'a kstate_scheme \<Rightarrow> stop + u64 \<times> 'a kstate_scheme" where
  "sys_fstat env s =
     bindE (argfd 0 s) (\<lambda>r.
     case r of
       None \<Rightarrow> Inr (-1, s)
     | Some (_, f) \<Rightarrow> bindE (argaddr 1 s) (\<lambda>st. ret_int (filestat (env_junk env) f st s)))"

section \<open>Links\<close>

text \<open>\<open>end_op(); return -1;\<close>\<close>

definition end_fail :: "'a lstate_scheme \<Rightarrow> stop + u64 \<times> 'a lstate_scheme" where
  "end_fail s = bindE (end_op s) (\<lambda>s. Inr (-1, s))"

definition link_bad :: "nat \<Rightarrow> 'a fstate_scheme \<Rightarrow> stop + u64 \<times> 'a fstate_scheme" where
  "link_bad ip s =
     bindE (ilock ip s) (\<lambda>s.
     let s = upd_inode ip (\<lambda>i. i\<lparr>i_nlink := i_nlink i - 1\<rparr>) s in
     bindE (iupdate ip s) (\<lambda>s. bindE (iunlockput ip s) end_fail))"

definition link_paths :: "u8 list \<Rightarrow> u8 list \<Rightarrow> 'a fstate_scheme \<Rightarrow> stop + u64 \<times> 'a fstate_scheme" where
  "link_paths old new s =
     bindE (begin_op 1 stay_blocked s) (\<lambda>s.
     bindE (namei old s) (\<lambda>(r, s).
     case r of
       None \<Rightarrow> end_fail s
     | Some ip \<Rightarrow>
         bindE (ilock ip s) (\<lambda>s.
         if i_type (inodes s ip) = T_DIR then bindE (iunlockput ip s) end_fail
         else
           let s = upd_inode ip (\<lambda>i. i\<lparr>i_nlink := i_nlink i + 1\<rparr>) s in
           bindE (iupdate ip s) (\<lambda>s.
           bindE (iunlock ip s) (\<lambda>s.
           bindE (nameiparent new s) (\<lambda>(r, s).
           case r of
             None \<Rightarrow> link_bad ip s
           | Some (dp, name) \<Rightarrow>
               bindE (ilock dp s) (\<lambda>s.
               bindE (if i_dev (inodes s dp) \<noteq> i_dev (inodes s ip) then Inr (-1, s)
                      else dirlink dp name (i_inum (inodes s ip)) s) (\<lambda>(r, s).
               bindE (iunlockput dp s) (\<lambda>s.
               if sint r < 0 then link_bad ip s
               else bindE (iput ip s) (\<lambda>s. bindE (end_op s) (\<lambda>s. Inr (0, s)))))))))))) "

definition sys_link :: "'a kstate_scheme \<Rightarrow> stop + u64 \<times> 'a kstate_scheme" where
  "sys_link s =
     bindE (argstr 0 MAXPATH s) (\<lambda>old.
     case old of
       None \<Rightarrow> Inr (-1, s)
     | Some old \<Rightarrow>
         bindE (argstr 1 MAXPATH s) (\<lambda>new.
         case new of None \<Rightarrow> Inr (-1, s) | Some new \<Rightarrow> link_paths old new s))"

definition dirent_used :: "nat \<Rightarrow> nat \<Rightarrow> 'a fstate_scheme \<Rightarrow> stop + unit option \<times> 'a fstate_scheme" where
  "dirent_used dp off s =
     bindE (readi dp KernObj (of_nat off) 16 s) (\<lambda>((r, de), s).
     if r \<noteq> 16 then Inl (Panic ''isdirempty: readi'')
     else Inr (if get16 de 0 \<noteq> 0 then Some () else None, s))"

definition isdirempty :: "nat \<Rightarrow> 'a fstate_scheme \<Rightarrow> stop + bool \<times> 'a fstate_scheme" where
  "isdirempty dp s =
     bindE (scanE (dirent_used dp) (drop 2 (dir_offsets (i_size (inodes s dp)))) s) (\<lambda>(r, s). Inr (r = None, s))"

text \<open>The part of \<open>sys_unlink\<close> after the entry has been found and locked.\<close>

definition unlink_entry :: "nat \<Rightarrow> nat \<Rightarrow> u32 \<Rightarrow> 'a fstate_scheme \<Rightarrow> stop + u64 \<times> 'a fstate_scheme" where
  "unlink_entry dp ip off s =
     bindE (writei dp (FromObj (replicate 16 0)) off 16 s) (\<lambda>(r, s).
     if r \<noteq> 16 then Inl (Panic ''unlink: writei'')
     else
       bindE (if i_type (inodes s ip) = T_DIR
              then iupdate dp (upd_inode dp (\<lambda>i. i\<lparr>i_nlink := i_nlink i - 1\<rparr>) s) else Inr s) (\<lambda>s.
       bindE (iunlockput dp s) (\<lambda>s.
       let s = upd_inode ip (\<lambda>i. i\<lparr>i_nlink := i_nlink i - 1\<rparr>) s in
       bindE (iupdate ip s) (\<lambda>s.
       bindE (iunlockput ip s) (\<lambda>s.
       bindE (end_op s) (\<lambda>s. Inr (0, s)))))))"

definition unlink_path :: "u8 list \<Rightarrow> 'a fstate_scheme \<Rightarrow> stop + u64 \<times> 'a fstate_scheme" where
  "unlink_path path s =
     bindE (begin_op 1 stay_blocked s) (\<lambda>s.
     bindE (nameiparent path s) (\<lambda>(r, s).
     case r of
       None \<Rightarrow> end_fail s
     | Some (dp, name) \<Rightarrow>
         let bad = (\<lambda>s. bindE (iunlockput dp s) end_fail) in
         bindE (ilock dp s) (\<lambda>s.
         if namecmp_zero name [46] \<or> namecmp_zero name [46, 46] then bad s
         else
           bindE (dirlookup dp name s) (\<lambda>(hit, s).
           case hit of
             None \<Rightarrow> bad s
           | Some (ip, off) \<Rightarrow>
               bindE (ilock ip s) (\<lambda>s.
               if sint (i_nlink (inodes s ip)) < 1 then Inl (Panic ''unlink: nlink < 1'')
               else
                 bindE (if i_type (inodes s ip) = T_DIR then isdirempty ip s else Inr (True, s)) (\<lambda>(removable, s).
                 if \<not> removable then bindE (iunlockput ip s) bad
                 else unlink_entry dp ip off s))))))"

definition sys_unlink :: "'a kstate_scheme \<Rightarrow> stop + u64 \<times> 'a kstate_scheme" where
  "sys_unlink s =
     bindE (argstr 0 MAXPATH s) (\<lambda>path.
     case path of None \<Rightarrow> Inr (-1, s) | Some path \<Rightarrow> unlink_path path s)"

section \<open>Creation\<close>

text \<open>A new inode in the directory \<open>dp\<close>, which is locked.\<close>

definition create_new ::
  "nat \<Rightarrow> u8 list \<Rightarrow> u16 \<Rightarrow> u16 \<Rightarrow> u16 \<Rightarrow> 'a fstate_scheme \<Rightarrow> stop + nat option \<times> 'a fstate_scheme" where
  "create_new dp name type major minor s =
     bindE (ialloc (i_dev (inodes s dp)) type s) (\<lambda>(ip, s).
     bindE (ilock ip s) (\<lambda>s.
     let s = upd_inode ip (\<lambda>i. i\<lparr>i_major := major, i_minor := minor, i_nlink := 1\<rparr>) s in
     bindE (iupdate ip s) (\<lambda>s.
     bindE (if type = T_DIR then
              let s = upd_inode dp (\<lambda>i. i\<lparr>i_nlink := i_nlink i + 1\<rparr>) s in
              bindE (iupdate dp s) (\<lambda>s.
              bindE (dirlink ip [46] (i_inum (inodes s ip)) s) (\<lambda>(r, s).
              if sint r < 0 then Inl (Panic ''create dots'')
              else bindE (dirlink ip [46, 46] (i_inum (inodes s dp)) s) (\<lambda>(r, s).
                if sint r < 0 then Inl (Panic ''create dots'') else Inr s)))
            else Inr s) (\<lambda>s.
     bindE (dirlink dp name (i_inum (inodes s ip)) s) (\<lambda>(r, s).
     if sint r < 0 then Inl (Panic ''create: dirlink'')
     else bindE (iunlockput dp s) (\<lambda>s. Inr (Some ip, s)))))))"

definition create ::
  "u8 list \<Rightarrow> u16 \<Rightarrow> u16 \<Rightarrow> u16 \<Rightarrow> 'a fstate_scheme \<Rightarrow> stop + nat option \<times> 'a fstate_scheme" where
  "create path type major minor s =
     bindE (nameiparent path s) (\<lambda>(r, s).
     case r of
       None \<Rightarrow> Inr (None, s)
     | Some (dp, name) \<Rightarrow>
         bindE (ilock dp s) (\<lambda>s.
         bindE (dirlookup dp name s) (\<lambda>(hit, s).
         case hit of
           Some (ip, _) \<Rightarrow>
             bindE (iunlockput dp s) (\<lambda>s.
             bindE (ilock ip s) (\<lambda>s.
             if type = T_FILE \<and> (i_type (inodes s ip) = T_FILE \<or> i_type (inodes s ip) = T_DEVICE)
             then Inr (Some ip, s)
             else bindE (iunlockput ip s) (\<lambda>s. Inr (None, s))))
         | None \<Rightarrow> create_new dp name type major minor s)))"

section \<open>\<open>open\<close>\<close>

text \<open>The locked inode to open, or nothing (\<open>create\<close> and \<open>namei\<close> branches).\<close>

definition open_inode :: "u8 list \<Rightarrow> c_int \<Rightarrow> 'a fstate_scheme \<Rightarrow> stop + nat option \<times> 'a fstate_scheme" where
  "open_inode path omode s =
     (if omode AND O_CREATE \<noteq> 0 then create path T_FILE 0 0 s
      else
        bindE (namei path s) (\<lambda>(r, s).
        case r of
          None \<Rightarrow> Inr (None, s)
        | Some ip \<Rightarrow>
            bindE (ilock ip s) (\<lambda>s.
            if i_type (inodes s ip) = T_DIR \<and> omode \<noteq> O_RDONLY
            then bindE (iunlockput ip s) (\<lambda>s. Inr (None, s)) else Inr (Some ip, s))))"

definition open_file :: "inode \<Rightarrow> nat \<Rightarrow> c_int \<Rightarrow> file_struct \<Rightarrow> file_struct" where
  "open_file i ip omode f =
     (if i_type i = T_DEVICE then f\<lparr>f_type := FD_DEVICE, f_major := i_major i\<rparr> else f\<lparr>f_type := FD_INODE, f_off := 0\<rparr>)
       \<lparr>f_ip := ip, f_readable := (omode AND O_WRONLY = 0),
        f_writable := (omode AND O_WRONLY \<noteq> 0 \<or> omode AND O_RDWR \<noteq> 0)\<rparr>"

definition open_path :: "u8 list \<Rightarrow> c_int \<Rightarrow> 'a kstate_scheme \<Rightarrow> stop + u64 \<times> 'a kstate_scheme" where
  "open_path path omode s =
     bindE (begin_op 1 stay_blocked s) (\<lambda>s.
     bindE (open_inode path omode s) (\<lambda>(r, s).
     case r of
       None \<Rightarrow> end_fail s
     | Some ip \<Rightarrow>
         let fail = (\<lambda>s. bindE (iunlockput ip s) end_fail); i = inodes s ip in
         if i_type i = T_DEVICE \<and> (sint (i_major i) < 0 \<or> 10 \<le> sint (i_major i)) then fail s
         else
           bindE (filealloc s) (\<lambda>(f, s).
           case f of
             None \<Rightarrow> fail s
           | Some f \<Rightarrow>
               bindE (fdalloc f s) (\<lambda>(fd, s).
               case fd of
                 None \<Rightarrow> bindE (fileclose f s) fail
               | Some fd \<Rightarrow>
                   let s = upd_file f (open_file (inodes s ip) ip omode) s in
                   bindE (if omode AND O_TRUNC \<noteq> 0 \<and> i_type (inodes s ip) = T_FILE then itrunc ip s else Inr s) (\<lambda>s.
                   bindE (iunlock ip s) (\<lambda>s.
                   bindE (end_op s) (\<lambda>s. Inr (of_nat fd, s))))))))"

definition sys_open :: "'a kstate_scheme \<Rightarrow> stop + u64 \<times> 'a kstate_scheme" where
  "sys_open s =
     bindE (argstr 0 MAXPATH s) (\<lambda>path.
     case path of
       None \<Rightarrow> Inr (-1, s)
     | Some path \<Rightarrow> bindE (argint 1 s) (\<lambda>omode. open_path path omode s))"

text \<open>What \<open>mkdir\<close> and \<open>mknod\<close> do with the inode \<open>create\<close> gives them.\<close>

definition create_and_put :: "u8 list \<Rightarrow> u16 \<Rightarrow> u16 \<Rightarrow> u16 \<Rightarrow> 'a fstate_scheme \<Rightarrow> stop + u64 \<times> 'a fstate_scheme" where
  "create_and_put path type major minor s =
     bindE (create path type major minor s) (\<lambda>(r, s).
     case r of
       None \<Rightarrow> end_fail s
     | Some ip \<Rightarrow> bindE (iunlockput ip s) (\<lambda>s. bindE (end_op s) (\<lambda>s. Inr (0, s))))"

definition sys_mkdir :: "'a kstate_scheme \<Rightarrow> stop + u64 \<times> 'a kstate_scheme" where
  "sys_mkdir s =
     bindE (begin_op 1 stay_blocked s) (\<lambda>s.
     bindE (argstr 0 MAXPATH s) (\<lambda>path.
     case path of None \<Rightarrow> end_fail s | Some path \<Rightarrow> create_and_put path T_DIR 0 0 s))"

definition sys_mknod :: "'a kstate_scheme \<Rightarrow> stop + u64 \<times> 'a kstate_scheme" where
  "sys_mknod s =
     bindE (begin_op 1 stay_blocked s) (\<lambda>s.
     bindE (argstr 0 MAXPATH s) (\<lambda>path.
     case path of
       None \<Rightarrow> end_fail s
     | Some path \<Rightarrow>
         bindE (argint 1 s) (\<lambda>major. bindE (argint 2 s) (\<lambda>minor.
         create_and_put path T_DEVICE (ucast major) (ucast minor) s))))"

section \<open>\<open>chdir\<close>, \<open>exec\<close> and \<open>pipe\<close>\<close>

definition sys_chdir :: "'a kstate_scheme \<Rightarrow> stop + u64 \<times> 'a kstate_scheme" where
  "sys_chdir s =
     bindE (myproc s) (\<lambda>p.
     bindE (begin_op 1 stay_blocked s) (\<lambda>s.
     bindE (argstr 0 MAXPATH s) (\<lambda>path.
     bindE (case path of None \<Rightarrow> Inr (None, s) | Some path \<Rightarrow> namei path s) (\<lambda>(r, s).
     case r of
       None \<Rightarrow> end_fail s
     | Some ip \<Rightarrow>
         bindE (ilock ip s) (\<lambda>s.
         if i_type (inodes s ip) \<noteq> T_DIR then bindE (iunlockput ip s) end_fail
         else
           bindE (iunlock ip s) (\<lambda>s.
           bindE (case p_cwd (procs s p) of None \<Rightarrow> Inl (Panic ''kerneltrap'') | Some d \<Rightarrow> iput d s) (\<lambda>s.
           bindE (end_op s) (\<lambda>s.
           Inr (0, upd_proc p (\<lambda>r. r\<lparr>p_cwd := Some ip\<rparr>) s)))))))))"

text \<open>The loop that fetches \<open>argv\<close>: whether it came to the null pointer, and the pages it
  allocated. \<open>left\<close> counts down from \<open>NELEM(argv)\<close>.\<close>

fun fetch_args :: "nat \<Rightarrow> u64 \<Rightarrow> u64 list \<Rightarrow> 'a pstate_scheme \<Rightarrow> stop + (bool \<times> u64 list) \<times> 'a pstate_scheme" where
  "fetch_args 0 uargv argv s = Inr ((False, argv), s)"
| "fetch_args (Suc left) uargv argv s =
     bindE (fetchaddr uargv s) (\<lambda>r.
     case r of
       None \<Rightarrow> Inr ((False, argv), s)
     | Some uarg \<Rightarrow>
         if uarg = 0 then Inr ((True, argv), s)
         else
           bindE (kalloc s) (\<lambda>(page, s).
           if page = 0 then Inr ((False, argv), s)
           else
             bindE (fetchstr uarg 4096 s) (\<lambda>str.
             case str of
               None \<Rightarrow> Inr ((False, argv @ [page]), s)
             | Some str \<Rightarrow>
                 let s = s\<lparr>pmem := store_bytes (pmem s) page (str @ [0])\<rparr> in
                 fetch_args left (uargv + 8) (argv @ [page]) s)))"

definition sys_exec :: "'a kstate_scheme sys_env \<Rightarrow> 'a kstate_scheme \<Rightarrow> stop + u64 \<times> 'a kstate_scheme" where
  "sys_exec env s =
     bindE (argstr 0 MAXPATH s) (\<lambda>path.
     case path of
       None \<Rightarrow> Inr (-1, s)
     | Some path \<Rightarrow>
         bindE (argaddr 1 s) (\<lambda>uargv.
         bindE (fetch_args MAXARG uargv [] s) (\<lambda>((ok, argv), s).
         bindE (if ok then ret_int (exec (env_syms env) path argv s) else Inr (-1, s)) (\<lambda>(ret, s).
         bindE (foldE kfree argv s) (\<lambda>s. Inr (ret, s))))))"

definition sys_pipe :: "'a kstate_scheme \<Rightarrow> stop + u64 \<times> 'a kstate_scheme" where
  "sys_pipe s =
     bindE (myproc s) (\<lambda>p.
     bindE (argaddr 0 s) (\<lambda>fdarray.
     bindE (pipealloc s) (\<lambda>((r, rf, wf), s).
     if sint r < 0 then Inr (-1, s)
     else
       let close_both = (\<lambda>s. bindE (fileclose (the rf) s) (\<lambda>s. bindE (fileclose (the wf) s) (\<lambda>s. Inr (-1, s)))) in
       bindE (fdalloc (the rf) s) (\<lambda>(fd0, s).
       case fd0 of
         None \<Rightarrow> close_both s
       | Some fd0 \<Rightarrow>
           bindE (fdalloc (the wf) s) (\<lambda>(fd1, s).
           case fd1 of
             None \<Rightarrow> close_both (clear_fd p fd0 s)
           | Some fd1 \<Rightarrow>
               bindE (copy_ints (p_pagetable (procs s p)) fdarray [of_nat fd0, of_nat fd1] s) (\<lambda>(ok, s).
               if \<not> ok then close_both (clear_fd p fd1 (clear_fd p fd0 s))
               else Inr (0, s)))))))"

end
