(* ===== verification/Virtio.thy ===== *)
theory Virtio
  imports File
begin

text \<open>
  The disk driver, \<^verbatim>\<open>kernel/virtio_disk.c\<close>: the descriptor table, the two rings and the book-keeping
  of requests in flight. Pointers that the driver hands to the device point into the
  driver's own tables or at a buffer's data and are modelled as such. Registers of the
  device are read through the argument \<open>reg\<close>, and \<open>mmio\<close> records what is written to them.
  The flag \<open>disk\<close> of \<open>struct buf\<close>, which only the driver uses, is \<open>b_disk\<close>.
\<close>

abbreviation (input) NUM :: nat where "NUM \<equiv> 8"
abbreviation (input) VRING_DESC_F_NEXT :: u16 where "VRING_DESC_F_NEXT \<equiv> 1"
abbreviation (input) VRING_DESC_F_WRITE :: u16 where "VRING_DESC_F_WRITE \<equiv> 2"
abbreviation (input) VIRTIO_BLK_T_IN :: u32 where "VIRTIO_BLK_T_IN \<equiv> 0"
abbreviation (input) VIRTIO_BLK_T_OUT :: u32 where "VIRTIO_BLK_T_OUT \<equiv> 1"

datatype dma_addr = DNull | DOp nat | DData nat | DStatus nat

record virtq_desc =
  d_addr :: dma_addr
  d_len :: u32
  d_flags :: u16
  d_next :: u16

record virtio_blk_req =
  req_type :: u32
  req_reserved :: u32
  req_sector :: u64

record vstate = kstate +
  vdesc :: "nat \<Rightarrow> virtq_desc"
  avail_idx :: u16
  avail_ring :: "nat \<Rightarrow> u16"
  used_ring_idx :: u16
  used_ring :: "nat \<Rightarrow> u32"
  vfree :: "nat \<Rightarrow> bool"
  used_idx :: u16
  info_b :: "nat \<Rightarrow> nat option"
  info_status :: "nat \<Rightarrow> u8"
  vops :: "nat \<Rightarrow> virtio_blk_req"
  b_disk :: "nat \<Rightarrow> bool"
  mmio :: "(nat \<times> u32) list"

section \<open>Initialisation\<close>

unbundle bit_operations_syntax

definition set_reg :: "nat \<Rightarrow> u32 \<Rightarrow> 'a vstate_scheme \<Rightarrow> 'a vstate_scheme" where
  "set_reg r v s = s\<lparr>mmio := mmio s @ [(r, v)]\<rparr>"

text \<open>The features the driver turns off: bits 5, 7, 11, 12, 27, 29 and 28.\<close>

definition accept_features :: "u32 \<Rightarrow> u32" where
  "accept_features features =
     foldl (\<lambda>f bit. f AND NOT (push_bit bit 1)) features [5, 7, 11, 12, 27, 29, 28]"

text \<open>\<open>pages\<close> is the address of \<open>disk.pages\<close>.\<close>

definition virtio_disk_init :: "(nat \<Rightarrow> u32) \<Rightarrow> u64 \<Rightarrow> 'a vstate_scheme \<Rightarrow> stop + 'a vstate_scheme" where
  "virtio_disk_init reg pages s =
     (if reg 0x000 \<noteq> 0x74726976 \<or> reg 0x004 \<noteq> 1 \<or> reg 0x008 \<noteq> 2 \<or> reg 0x00c \<noteq> 0x554d4551
      then Inl (Panic ''could not find virtio disk'')
      else
        let s = set_reg 0x070 1 s;
            s = set_reg 0x070 (1 OR 2) s;
            s = set_reg 0x020 (accept_features (reg 0x010)) s;
            s = set_reg 0x070 (1 OR 2 OR 8) s;
            s = set_reg 0x070 (1 OR 2 OR 8 OR 4) s;
            s = set_reg 0x028 4096 s;
            s = set_reg 0x030 0 s;
            mx = reg 0x034 in
        if mx = 0 then Inl (Panic ''virtio disk has no queue 0'')
        else if mx < of_nat NUM then Inl (Panic ''virtio disk max queue too short'')
        else
          let s = set_reg 0x038 (of_nat NUM) s;
              s = s\<lparr>vdesc := (\<lambda>_. \<lparr>d_addr = DNull, d_len = 0, d_flags = 0, d_next = 0\<rparr>),
                    avail_idx := 0, avail_ring := (\<lambda>_. 0), used_ring_idx := 0, used_ring := (\<lambda>_. 0)\<rparr>;
              s = set_reg 0x040 (ucast (drop_bit 12 pages)) s
          in Inr (s\<lparr>vfree := (\<lambda>i. i < NUM \<or> vfree s i)\<rparr>))"

section \<open>Descriptors\<close>

definition alloc_desc :: "'a vstate_scheme \<Rightarrow> nat option \<times> 'a vstate_scheme" where
  "alloc_desc s =
     (case List.find (\<lambda>i. vfree s i) [0..<NUM] of
        Some i \<Rightarrow> (Some i, s\<lparr>vfree := (vfree s)(i := False)\<rparr>)
      | None \<Rightarrow> (None, s))"

definition free_desc :: "nat \<Rightarrow> 'a vstate_scheme \<Rightarrow> stop + 'a vstate_scheme" where
  "free_desc i s =
     (if NUM \<le> i then Inl (Panic ''free_desc 1'')
      else if vfree s i then Inl (Panic ''free_desc 2'')
      else wakeup (Some ChDiskFree)
             (s\<lparr>vdesc := (vdesc s)(i := \<lparr>d_addr = DNull, d_len = 0, d_flags = 0, d_next = 0\<rparr>),
                vfree := (vfree s)(i := True)\<rparr>))"

definition taken :: "'a vstate_scheme \<Rightarrow> nat set" where
  "taken s = {i. i < NUM \<and> \<not> vfree s i}"

lemma finite_taken [simp]: "finite (taken s)"
  by (simp add: taken_def)

lemma awake_virtio [simp]:
  "vdesc (awake c s) = vdesc s" "vfree (awake c s) = vfree s" "avail_idx (awake c s) = avail_idx s"
  "avail_ring (awake c s) = avail_ring s" "used_ring_idx (awake c s) = used_ring_idx s"
  "used_ring (awake c s) = used_ring s" "used_idx (awake c s) = used_idx s" "info_b (awake c s) = info_b s"
  "info_status (awake c s) = info_status s" "vops (awake c s) = vops s" "b_disk (awake c s) = b_disk s"
  "mmio (awake c s) = mmio s"
  by (simp_all add: awake_def table_map_def)

lemma wakeup_vfree: "wakeup c s = Inr s' \<Longrightarrow> vfree s' = vfree s"
  by (auto dest!: wakeup_frame)

lemma free_desc_taken:
  assumes "free_desc i s = Inr s'"
  shows "card (taken s') < card (taken s)"
proof -
  have i: "i < NUM" "\<not> vfree s i" using assms by (auto simp: free_desc_def split: if_splits)
  have "vfree s' = (vfree s)(i := True)"
    using assms by (auto simp: free_desc_def split: if_splits dest!: wakeup_vfree)
  then have "taken s' = taken s - {i}" by (auto simp: taken_def)
  moreover have "i \<in> taken s" using i by (simp add: taken_def)
  ultimately show ?thesis by (metis card_Diff1_less finite_taken)
qed

text \<open>Every round frees a descriptor that was in use, so the loop ends, with a panic if the
  chain comes back to itself.\<close>

function free_chain :: "nat \<Rightarrow> 'a vstate_scheme \<Rightarrow> stop + 'a vstate_scheme" where
  "free_chain i s =
     (let flag = d_flags (vdesc s i); nxt = d_next (vdesc s i) in
      bindE (free_desc i s) (\<lambda>s.
      if flag AND VRING_DESC_F_NEXT \<noteq> 0 then free_chain (unat nxt) s else Inr s))"
  by pat_completeness auto
termination
  by (relation "measure (\<lambda>(i, s). card (taken s))") (auto dest: free_desc_taken)

declare free_chain.simps [simp del]

text \<open>The descriptors found are collected in \<open>idx\<close>; if there are not enough they go back.\<close>

fun alloc_n :: "nat \<Rightarrow> nat list \<Rightarrow> 'a vstate_scheme \<Rightarrow> stop + nat list option \<times> 'a vstate_scheme" where
  "alloc_n 0 idx s = Inr (Some idx, s)"
| "alloc_n (Suc n) idx s =
     (case alloc_desc s of
        (Some i, s) \<Rightarrow> alloc_n n (idx @ [i]) s
      | (None, s) \<Rightarrow> bindE (foldE free_desc idx s) (\<lambda>s. Inr (None, s)))"

definition alloc3_desc :: "'a vstate_scheme \<Rightarrow> stop + nat list option \<times> 'a vstate_scheme" where
  "alloc3_desc s = alloc_n 3 [] s"

section \<open>Requests\<close>

definition set_desc :: "nat \<Rightarrow> virtq_desc \<Rightarrow> 'a vstate_scheme \<Rightarrow> 'a vstate_scheme" where
  "set_desc i d s = s\<lparr>vdesc := (vdesc s)(i := d)\<rparr>"

fun get_descs ::
  "nat \<Rightarrow> ('a vstate_scheme \<Rightarrow> stop + 'a vstate_scheme) \<Rightarrow> 'a vstate_scheme \<Rightarrow> stop + nat list \<times> 'a vstate_scheme" where
  "get_descs fuel swtch s =
     bindE (alloc3_desc s) (\<lambda>(r, s).
     case r of
       Some idx \<Rightarrow> Inr (idx, s)
     | None \<Rightarrow> (case fuel of
           0 \<Rightarrow> Inl OutOfFuel
         | Suc n \<Rightarrow> bindE (sleep swtch ChDiskFree VdiskLock s) (get_descs n swtch)))"

declare get_descs.simps [simp del]

text \<open>The request is laid out in three descriptors and made available.\<close>

definition post_request :: "nat \<Rightarrow> nat \<Rightarrow> nat \<Rightarrow> nat \<Rightarrow> bool \<Rightarrow> 'a vstate_scheme \<Rightarrow> 'a vstate_scheme" where
  "post_request i0 i1 i2 b write s =
     (let sector = ucast (b_blockno (bufs s b) * 2);
          s = s\<lparr>vops := (vops s)(i0 := \<lparr>req_type = (if write then VIRTIO_BLK_T_OUT else VIRTIO_BLK_T_IN),
                                     req_reserved = 0, req_sector = sector\<rparr>)\<rparr>;
          s = set_desc i0 \<lparr>d_addr = DOp i0, d_len = 16, d_flags = VRING_DESC_F_NEXT, d_next = of_nat i1\<rparr> s;
          s = set_desc i1 \<lparr>d_addr = DData b, d_len = of_nat BSIZE,
                 d_flags = (if write then 0 else VRING_DESC_F_WRITE) OR VRING_DESC_F_NEXT, d_next = of_nat i2\<rparr> s;
          s = s\<lparr>info_status := (info_status s)(i0 := 0xff)\<rparr>;
          s = set_desc i2 \<lparr>d_addr = DStatus i0, d_len = 1, d_flags = VRING_DESC_F_WRITE, d_next = 0\<rparr> s;
          s = s\<lparr>b_disk := (b_disk s)(b := True), info_b := (info_b s)(i0 := Some b)\<rparr>;
          s = s\<lparr>avail_ring := (avail_ring s)(unat (avail_idx s) mod NUM := of_nat i0)\<rparr>;
          s = s\<lparr>avail_idx := avail_idx s + 1\<rparr>
      in set_reg 0x050 0 s)"

fun await_buf ::
  "nat \<Rightarrow> ('a vstate_scheme \<Rightarrow> stop + 'a vstate_scheme) \<Rightarrow> nat \<Rightarrow> 'a vstate_scheme \<Rightarrow> stop + 'a vstate_scheme" where
  "await_buf fuel swtch b s =
     (if b_disk s b then
        (case fuel of
           0 \<Rightarrow> Inl OutOfFuel
         | Suc n \<Rightarrow> bindE (sleep swtch (ChBuf b) VdiskLock s) (await_buf n swtch b))
      else Inr s)"

declare await_buf.simps [simp del]

definition virtio_disk_rw ::
  "nat \<Rightarrow> ('a vstate_scheme \<Rightarrow> stop + 'a vstate_scheme) \<Rightarrow> nat \<Rightarrow> bool \<Rightarrow> 'a vstate_scheme \<Rightarrow> stop + 'a vstate_scheme" where
  "virtio_disk_rw fuel swtch b write s =
     bindE (lacquire VdiskLock s) (\<lambda>s.
     bindE (get_descs fuel swtch s) (\<lambda>(idx, s).
     let i0 = idx ! 0; i1 = idx ! 1; i2 = idx ! 2 in
     bindE (await_buf fuel swtch b (post_request i0 i1 i2 b write s)) (\<lambda>s.
     let s = s\<lparr>info_b := (info_b s)(i0 := None)\<rparr> in
     bindE (free_chain i0 s) (lrelease VdiskLock))))"

section \<open>The interrupt handler\<close>

text \<open>\<open>disk.used_idx\<close> runs up to \<open>disk.used->idx\<close>, a 16-bit counter. An id outside the table is
  an access outside \<open>disk.info\<close>; a request without a buffer is a null dereference.\<close>

definition intr_one :: "'a vstate_scheme \<Rightarrow> stop + 'a vstate_scheme" where
  "intr_one s =
     (let i = unat (used_ring s (unat (used_idx s) mod NUM)) in
      if NUM \<le> i then Inl OutOfBounds
      else if info_status s i \<noteq> 0 then Inl (Panic ''virtio_disk_intr status'')
      else case info_b s i of
        None \<Rightarrow> Inl (Panic ''kerneltrap'')
      | Some b \<Rightarrow>
          bindE (wakeup (Some (ChBuf b)) (s\<lparr>b_disk := (b_disk s)(b := False)\<rparr>)) (\<lambda>s.
          Inr (s\<lparr>used_idx := used_idx s + 1\<rparr>)))"

definition intr_left :: "'a vstate_scheme \<Rightarrow> nat" where
  "intr_left s = unat (used_ring_idx s - used_idx s)"

lemma wakeup_used: "wakeup c s = Inr s' \<Longrightarrow> used_idx s' = used_idx s \<and> used_ring_idx s' = used_ring_idx s"
  by (auto dest!: wakeup_frame)

lemma intr_one_left:
  assumes "intr_one s = Inr s'" "used_idx s \<noteq> used_ring_idx s"
  shows "intr_left s' < intr_left s"
proof -
  have "used_idx s' = used_idx s + 1" "used_ring_idx s' = used_ring_idx s"
    using assms(1) by (auto simp: intr_one_def Let_def bindE_Inr_iff split: if_splits option.splits dest!: wakeup_used)
  then have "intr_left s' = unat ((used_ring_idx s - used_idx s) - 1)"
    by (simp add: intr_left_def algebra_simps)
  moreover have "used_ring_idx s - used_idx s \<noteq> 0" using assms(2) by auto
  ultimately show ?thesis by (simp add: intr_left_def measure_unat)
qed

function intr_loop :: "'a vstate_scheme \<Rightarrow> stop + 'a vstate_scheme" where
  "intr_loop s = (if used_idx s = used_ring_idx s then Inr s else bindE (intr_one s) intr_loop)"
  by pat_completeness auto
termination
  by (relation "measure intr_left") (auto dest: intr_one_left)

declare intr_loop.simps [simp del]

definition virtio_disk_intr :: "(nat \<Rightarrow> u32) \<Rightarrow> 'a vstate_scheme \<Rightarrow> stop + 'a vstate_scheme" where
  "virtio_disk_intr reg s =
     bindE (lacquire VdiskLock s) (\<lambda>s.
     bindE (intr_loop (set_reg 0x064 (reg 0x060 AND 3) s)) (lrelease VdiskLock))"

end
