(* ===== verification/Syscall.thy ===== *)
theory Syscall
  imports Sysfile
begin

text \<open>
  System-call dispatch with the tracing this repository adds, \<^verbatim>\<open>kernel/syscall.c\<close>.
\<close>

unbundle bit_operations_syntax

abbreviation (input) SYS_fork :: c_int where "SYS_fork \<equiv> 1"
abbreviation (input) SYS_kill :: c_int where "SYS_kill \<equiv> 6"
abbreviation (input) SYS_sbrk :: c_int where "SYS_sbrk \<equiv> 12"

definition syscalls :: "'a kstate_scheme sys_env \<Rightarrow> ('a kstate_scheme \<Rightarrow> stop + u64 \<times> 'a kstate_scheme) list" where
  "syscalls env =
     [sys_fork env, sys_exit env, sys_wait env, sys_pipe, sys_read env, sys_kill, sys_exec env, sys_fstat env,
      sys_chdir, sys_dup, sys_getpid, sys_sbrk, sys_sleep env, sys_uptime, sys_open, sys_write env, sys_mknod,
      sys_unlink, sys_link, sys_mkdir, sys_close, sys_trace, sys_wait_stat env, sys_set_priority]"

definition sys_calls_names :: "string list" where
  "sys_calls_names =
     ['''', ''fork'', ''exit'', ''wait'', ''pipe'', ''read'', ''kill'', ''exec'', ''fstat'', ''chdir'', ''dup'',
      ''getpid'', ''sbrk'', ''sleep'', ''uptime'', ''open'', ''write'', ''mknod'', ''unlink'', ''link'', ''mkdir'',
      ''close'', ''trace'', ''wait_stat'', ''set_priority'']"

definition call_name :: "c_int \<Rightarrow> stop + string" where
  "call_name num =
     (if sint num < 0 \<or> int (length sys_calls_names) \<le> sint num then Inl OutOfBounds
      else Inr (sys_calls_names ! unat num))"

text \<open>\<open>1 << num\<close> is an \<open>sllw\<close>: it shifts by the low five bits of \<open>num\<close>.\<close>

definition traced :: "proc \<Rightarrow> c_int \<Rightarrow> bool" where
  "traced r num \<longleftrightarrow> p_mask r AND push_bit (unat num mod 32) 1 \<noteq> 0"

text \<open>The entry \<open>syscalls[0]\<close> is null; the list holds the entries from 1 on.\<close>

definition run_syscall :: "'a kstate_scheme sys_env \<Rightarrow> nat \<Rightarrow> c_int \<Rightarrow> 'a kstate_scheme \<Rightarrow> stop + 'a kstate_scheme" where
  "run_syscall env p num s =
     (if 0 < sint num \<and> sint num < 25 then
        bindE ((syscalls env ! (unat num - 1)) s) (\<lambda>(r, s). Inr (set_tf p TF_A0 r s))
      else
        bindE (printf (''%d %s: unknown sys call %d'' @ [CHR 0x0A])
                 [AInt (p_pid (procs s p)), AStr (Some (p_name (procs s p))), AInt num] s) (\<lambda>s.
        Inr (set_tf p TF_A0 (-1) s)))"

definition print_trace :: "nat \<Rightarrow> c_int \<Rightarrow> c_int \<Rightarrow> c_int \<Rightarrow> 'a pstate_scheme \<Rightarrow> stop + 'a pstate_scheme" where
  "print_trace p num argument ret s =
     bindE (call_name num) (\<lambda>name.
     if num = SYS_fork then
       printf (''%d: syscall %s NULL -> %d'' @ [CHR 0x0A]) [AInt (p_pid (procs s p)), AStr (Some name), AInt ret] s
     else if num = SYS_kill \<or> num = SYS_sbrk then
       printf (''%d: syscall %s %d -> %d'' @ [CHR 0x0A]) [AInt (p_pid (procs s p)), AStr (Some name), AInt argument, AInt ret] s
     else
       printf (''%d: syscall %s -> %d'' @ [CHR 0x0A]) [AInt (p_pid (procs s p)), AStr (Some name), AInt ret] s)"

definition syscall :: "'a kstate_scheme sys_env \<Rightarrow> 'a kstate_scheme \<Rightarrow> stop + 'a kstate_scheme" where
  "syscall env s =
     bindE (myproc s) (\<lambda>p.
     let num = (ucast (get_tf p (TF_A0 + 56) s) :: c_int) in
     bindE (if num = SYS_fork \<or> num = SYS_kill \<or> num = SYS_sbrk then argint 0 s else Inr 0) (\<lambda>argument.
     bindE (run_syscall env p num s) (\<lambda>s.
     let ret = (ucast (get_tf p TF_A0 s) :: c_int) in
     if traced (procs s p) num then print_trace p num argument ret s else Inr s)))"

end
