(* ===== verification/Trap.thy ===== *)
theory Trap
  imports Syscall Virtio
begin

text \<open>
  Traps, \<^verbatim>\<open>kernel/trap.c\<close>, with the preemption this repository adds, and \<open>forkret\<close> of
  \<^verbatim>\<open>kernel/proc.c\<close>. The control registers of the hart are fields of the state; \<open>tp\<close> is
  the hart number. What the PLIC answers to a claim, the bytes the UART has received and
  the disk's registers are in \<open>trap_env\<close>.
\<close>

unbundle bit_operations_syntax

record tstate = vstate +
  sstatus :: u64
  sepc :: u64
  scause :: u64
  stval :: u64
  stvec :: u64
  satp :: u64
  tp :: u64
  sip :: u64
  plic_done :: "c_int list"
  first_forkret :: bool

record 's trap_env = "'s sys_env" +
  env_policy :: policy
  env_irq :: c_int
  env_input :: "u8 list"
  env_regs :: "nat \<Rightarrow> u32"

abbreviation (input) SSTATUS_SPP :: u64 where "SSTATUS_SPP \<equiv> 0x100"
abbreviation (input) SSTATUS_SPIE :: u64 where "SSTATUS_SPIE \<equiv> 0x20"
abbreviation (input) SSTATUS_SIE :: u64 where "SSTATUS_SIE \<equiv> 2"
abbreviation (input) UART0_IRQ :: c_int where "UART0_IRQ \<equiv> 10"
abbreviation (input) VIRTIO0_IRQ :: c_int where "VIRTIO0_IRQ \<equiv> 1"

section \<open>Interrupts\<close>

definition clockintr :: "'a pstate_scheme \<Rightarrow> stop + 'a pstate_scheme" where
  "clockintr s =
     bindE (lacquire TicksLock s) (\<lambda>s.
     let s = s\<lparr>ticks := ticks s + 1\<rparr> in
     bindE (update_clock_ticks s) (\<lambda>s.
     bindE (wakeup (Some ChTicks) s) (lrelease TicksLock)))"

definition plic_claim :: "'s trap_env \<Rightarrow> c_int" where
  "plic_claim env = env_irq env"

definition plic_complete :: "c_int \<Rightarrow> 'a tstate_scheme \<Rightarrow> 'a tstate_scheme" where
  "plic_complete irq s = s\<lparr>plic_done := plic_done s @ [irq]\<rparr>"

definition devintr :: "'a tstate_scheme trap_env \<Rightarrow> 'a tstate_scheme \<Rightarrow> stop + nat \<times> 'a tstate_scheme" where
  "devintr env s =
     (if scause s AND 0x8000000000000000 \<noteq> 0 \<and> scause s AND 0xff = 9 then
        let irq = plic_claim env in
        bindE (if irq = UART0_IRQ then uartintr (io_idle env) (env_input env) s
               else if irq = VIRTIO0_IRQ then virtio_disk_intr (env_regs env) s
               else if irq \<noteq> 0 then printf (''unexpected interrupt irq=%d'' @ [CHR 0x0A]) [AInt irq] s
               else Inr s) (\<lambda>s.
        Inr (1, if irq \<noteq> 0 then plic_complete irq s else s))
      else if scause s = 0x8000000000000001 then
        bindE (if tp s = 0 then clockintr s else Inr s) (\<lambda>s.
        Inr (2, s\<lparr>sip := sip s AND NOT 2\<rparr>))
      else Inr (0, s))"

section \<open>From and to user space\<close>

text \<open>The arguments of the jump to \<open>userret\<close> are what the function returns.\<close>

definition MAKE_SATP :: "u64 \<Rightarrow> u64" where
  "MAKE_SATP pagetable = push_bit 60 8 OR drop_bit 12 pagetable"

definition usertrapret :: "symtab \<Rightarrow> 'a tstate_scheme \<Rightarrow> stop + (u64 \<times> u64 \<times> u64) \<times> 'a tstate_scheme" where
  "usertrapret sy s =
     bindE (myproc s) (\<lambda>p.
     let s = s\<lparr>sstatus := sstatus s AND NOT SSTATUS_SIE\<rparr>;
         s = s\<lparr>stvec := TRAMPOLINE + (sym_uservec sy - sym_trampoline sy)\<rparr>;
         s = set_tf p 0 (satp s) s;
         s = set_tf p 8 (p_kstack (procs s p) + PGSIZE) s;
         s = set_tf p 16 (sym_usertrap sy) s;
         s = set_tf p 32 (tp s) s;
         x = (sstatus s AND NOT SSTATUS_SPP) OR SSTATUS_SPIE;
         s = s\<lparr>sstatus := x\<rparr>;
         s = s\<lparr>sepc := get_tf p TF_EPC s\<rparr>;
         fn = TRAMPOLINE + (sym_userret sy - sym_trampoline sy)
     in Inr ((fn, TRAPFRAME, MAKE_SATP (p_pagetable (procs s p))), s))"

text \<open>\<open>#ifdef FCFS\<close>: no preemption; otherwise at a timer interrupt that completes a quantum.\<close>

definition preempts :: "policy \<Rightarrow> nat \<Rightarrow> proc \<Rightarrow> bool" where
  "preempts pol which_dev r \<longleftrightarrow> pol \<noteq> FCFS \<and> which_dev = 2 \<and> p_tickcounter r = QUANTUM"

definition usertrap_cause :: "'a tstate_scheme trap_env \<Rightarrow> nat \<Rightarrow> 'a tstate_scheme \<Rightarrow> stop + nat \<times> 'a tstate_scheme" where
  "usertrap_cause env p s =
     (if scause s = 8 then
        bindE (if p_killed (procs s p) then exit (io_swtch env) (-1) s else Inr s) (\<lambda>s.
        let s = set_tf p TF_EPC (get_tf p TF_EPC s + 4) s;
            s = s\<lparr>sstatus := sstatus s OR SSTATUS_SIE\<rparr> in
        bindE (syscall (sys_env.truncate env) s) (\<lambda>s. Inr (0, s)))
      else
        bindE (devintr env s) (\<lambda>(which_dev, s).
        if which_dev \<noteq> 0 then Inr (which_dev, s)
        else
          bindE (printf (''usertrap(): unexpected scause %p pid=%d'' @ [CHR 0x0A]) [APtr (scause s), AInt (p_pid (procs s p))] s) (\<lambda>s.
          bindE (printf (''            sepc=%p stval=%p'' @ [CHR 0x0A]) [APtr (sepc s), APtr (stval s)] s) (\<lambda>s.
          Inr (0, upd_proc p (\<lambda>r. r\<lparr>p_killed := True\<rparr>) s)))))"

definition usertrap :: "'a tstate_scheme trap_env \<Rightarrow> 'a tstate_scheme \<Rightarrow> stop + (u64 \<times> u64 \<times> u64) \<times> 'a tstate_scheme" where
  "usertrap env s =
     (if sstatus s AND SSTATUS_SPP \<noteq> 0 then Inl (Panic ''usertrap: not from user mode'')
      else
        let s = s\<lparr>stvec := sym_kernelvec (env_syms env)\<rparr> in
        bindE (myproc s) (\<lambda>p.
        let s = set_tf p TF_EPC (sepc s) s in
        bindE (usertrap_cause env p s) (\<lambda>(which_dev, s).
        bindE (if p_killed (procs s p) then exit (io_swtch env) (-1) s else Inr s) (\<lambda>s.
        bindE (if preempts (env_policy env) which_dev (procs s p) then yield (io_swtch env) s else Inr s)
          (usertrapret (env_syms env))))))"

definition kerneltrap :: "'a tstate_scheme trap_env \<Rightarrow> 'a tstate_scheme \<Rightarrow> stop + 'a tstate_scheme" where
  "kerneltrap env s =
     (let saved_sepc = sepc s; saved_sstatus = sstatus s in
      if sstatus s AND SSTATUS_SPP = 0 then Inl (Panic ''kerneltrap: not from supervisor mode'')
      else if sstatus s AND SSTATUS_SIE \<noteq> 0 then Inl (Panic ''kerneltrap: interrupts enabled'')
      else
        bindE (devintr env s) (\<lambda>(which_dev, s).
        if which_dev = 0 then
          bindE (printf (''scause %p'' @ [CHR 0x0A]) [APtr (scause s)] s) (\<lambda>s.
          bindE (printf (''sepc=%p stval=%p'' @ [CHR 0x0A]) [APtr (sepc s), APtr (stval s)] s) (\<lambda>s.
          Inl (Panic ''kerneltrap'')))
        else
          bindE (case cur s of
                   Some p \<Rightarrow> if p_state (procs s p) = RUNNING \<and> preempts (env_policy env) which_dev (procs s p)
                             then yield (io_swtch env) s else Inr s
                 | None \<Rightarrow> Inr s) (\<lambda>s.
          Inr (s\<lparr>sepc := saved_sepc, sstatus := saved_sstatus\<rparr>))))"

definition forkret :: "symtab \<Rightarrow> 'a tstate_scheme \<Rightarrow> stop + (u64 \<times> u64 \<times> u64) \<times> 'a tstate_scheme" where
  "forkret sy s =
     bindE (myproc s) (\<lambda>p.
     bindE (lrelease (ProcLock p) s) (\<lambda>s.
     bindE (if first_forkret s then fsinit ROOTDEV (s\<lparr>first_forkret := False\<rparr>) else Inr s) (usertrapret sy)))"

end
