(* ===== verification/VmSpec.thy ===== *)
theory VmSpec
  imports Vm
begin

text \<open>
  What the page tables of \<^verbatim>\<open>kernel/vm.c\<close> mean. A table is read with the pure function \<open>entry\<close>,
  the translation of one virtual page; \<open>tables\<close> is the set of physical pages it is made of and
  \<open>wf_pt\<close> says that they form a tree. The lemmas show that \<open>mappages\<close> is an update of the
  translation, and that \<open>copyin\<close> and \<open>copyout\<close> read and write user memory through it.
\<close>

section \<open>Pages\<close>

definition on_pages :: "u64 set \<Rightarrow> u64 \<Rightarrow> bool" where
  "on_pages T x \<longleftrightarrow> (\<exists>t \<in> T. in_range t 4096 x)"

lemma on_pages_mono: "on_pages S x \<Longrightarrow> S \<subseteq> T \<Longrightarrow> on_pages T x"
  by (auto simp: on_pages_def)

definition agree :: "u64 set \<Rightarrow> mem \<Rightarrow> mem \<Rightarrow> bool" where
  "agree T m m' \<longleftrightarrow> (\<forall>x. on_pages T x \<longrightarrow> m' x = m x)"

definition aligned :: "u64 \<Rightarrow> bool" where
  "aligned t \<longleftrightarrow> t mod PGSIZE = 0"

lemma agree_mono: "agree T m m' \<Longrightarrow> S \<subseteq> T \<Longrightarrow> agree S m m'"
  by (auto simp: agree_def on_pages_def)

lemma agree_outside:
  assumes "\<And>x. \<not> on_pages N x \<Longrightarrow> m' x = m x" "T \<inter> N = {}" "\<forall>t \<in> T \<union> N. aligned t"
  shows "agree T m m'"
proof -
  have "\<not> on_pages N x" if "on_pages T x" for x
    using that assms(2,3) aligned_pages_disjoint unfolding on_pages_def aligned_def by blast
  then show ?thesis using assms(1) by (auto simp: agree_def)
qed

lemma load64_page:
  assumes "agree {t} m m'" "k < 512"
  shows "load64 m' (t + 8 * of_nat k) = load64 m (t + 8 * of_nat k)"
proof (rule load64_cong)
  fix i :: nat assume "i < 8"
  then have "8 * k + i < 4096" using assms(2) by simp
  then have "in_range t 4096 (t + of_nat (8 * k + i))" by (intro in_range_offset) simp_all
  then have "m' (t + of_nat (8 * k + i)) = m (t + of_nat (8 * k + i))" using assms(1) by (simp add: agree_def on_pages_def)
  then show "m' (t + 8 * of_nat k + of_nat i) = m (t + 8 * of_nat k + of_nat i)" by (simp add: algebra_simps)
qed

lemma of_nat_word_inj:
  "a < 2 ^ LENGTH('l) \<Longrightarrow> b < 2 ^ LENGTH('l) \<Longrightarrow> (of_nat a :: 'l::len word) = of_nat b \<Longrightarrow> a = b"
  by (metis unat_of_nat_lt)

section \<open>Entries\<close>

definition idx :: "nat \<Rightarrow> u64 \<Rightarrow> nat" where
  "idx l va = unat (PX l va)"

lemma idx_eq: "idx l va = unat va div 2 ^ (12 + 9 * l) mod 512"
proof -
  have "PX l va = take_bit 9 (drop_bit (12 + 9 * l) va)"
    unfolding PX_def by (simp add: take_bit_eq_mask mask_eq_exp_minus_1 and.commute)
  then have "idx l va = unat (take_bit 9 (drop_bit (12 + 9 * l) va))" by (simp only: idx_def)
  also have "\<dots> = take_bit 9 (drop_bit (12 + 9 * l) (unat va))" by (simp only: unsigned_take_bit_eq unat_drop_bit_eq)
  also have "\<dots> = unat va div 2 ^ (12 + 9 * l) mod 2 ^ 9" by (simp only: take_bit_eq_mod drop_bit_eq_div)
  finally show ?thesis by simp
qed

lemma idx_lt: "idx l va < 512"
  by (simp add: idx_eq)

lemma pte_at_idx: "pte_at pt l va = pt + 8 * of_nat (idx l va)"
  by (simp add: pte_at_def idx_def)

definition slot :: "mem \<Rightarrow> u64 \<Rightarrow> nat \<Rightarrow> u64" where
  "slot m pt k = load64 m (pt + 8 * of_nat k)"

definition valid :: "mem \<Rightarrow> u64 \<Rightarrow> nat \<Rightarrow> bool" where
  "valid m pt k \<longleftrightarrow> k < 512 \<and> flag (slot m pt k) 1"

definition child :: "mem \<Rightarrow> u64 \<Rightarrow> nat \<Rightarrow> u64" where
  "child m pt k = PTE2PA (slot m pt k)"

lemma slot_agree: "agree {t} m m' \<Longrightarrow> k < 512 \<Longrightarrow> slot m' t k = slot m t k"
  by (simp add: slot_def load64_page)

lemma valid_agree: "agree {t} m m' \<Longrightarrow> valid m' t k = valid m t k"
  by (auto simp: valid_def slot_agree)

lemma child_agree: "agree {t} m m' \<Longrightarrow> valid m t k \<Longrightarrow> child m' t k = child m t k"
  by (auto simp: valid_def child_def slot_agree)

lemma aligned_PTE2PA [simp]: "aligned (PTE2PA v)"
proof -
  have "PTE2PA v mod 2 ^ 12 = take_bit 12 (push_bit 12 (drop_bit 10 v))" by (simp only: PTE2PA_def take_bit_eq_mod)
  also have "\<dots> = 0" by (simp only: take_bit_push_bit) simp
  finally show ?thesis by (simp add: aligned_def)
qed

lemma aligned_child [simp]: "aligned (child m pt k)"
  by (simp add: child_def)

section \<open>The tree of tables\<close>

fun tables :: "nat \<Rightarrow> u64 \<Rightarrow> mem \<Rightarrow> u64 set" where
  "tables 0 pt m = {pt}"
| "tables (Suc l) pt m = insert pt (\<Union>k \<in> {k. valid m pt k}. tables l (child m pt k) m)"

fun wf_pt :: "nat \<Rightarrow> u64 \<Rightarrow> mem \<Rightarrow> bool" where
  "wf_pt 0 pt m \<longleftrightarrow> aligned pt \<and> pt \<noteq> 0"
| "wf_pt (Suc l) pt m \<longleftrightarrow> aligned pt \<and> pt \<noteq> 0 \<and>
     (\<forall>k. valid m pt k \<longrightarrow> wf_pt l (child m pt k) m \<and> pt \<notin> tables l (child m pt k) m) \<and>
     (\<forall>k j. valid m pt k \<longrightarrow> valid m pt j \<longrightarrow> k \<noteq> j \<longrightarrow>
        tables l (child m pt k) m \<inter> tables l (child m pt j) m = {})"

fun find_pte :: "nat \<Rightarrow> u64 \<Rightarrow> u64 \<Rightarrow> mem \<Rightarrow> u64 option" where
  "find_pte 0 pt va m = Some (pte_at pt 0 va)"
| "find_pte (Suc l) pt va m =
     (if valid m pt (idx (Suc l) va) then find_pte l (child m pt (idx (Suc l) va)) va m else None)"

definition entry :: "nat \<Rightarrow> u64 \<Rightarrow> u64 \<Rightarrow> mem \<Rightarrow> u64 option" where
  "entry l pt va m =
     (case find_pte l pt va m of
        None \<Rightarrow> None
      | Some a \<Rightarrow> if flag (load64 m a) 1 then Some (load64 m a) else None)"

lemma root_in_tables [simp]: "pt \<in> tables l pt m"
  by (cases l) auto

lemma aligned_tables: "aligned pt \<Longrightarrow> t \<in> tables l pt m \<Longrightarrow> aligned t"
proof (induction l arbitrary: pt)
  case (Suc l)
  then show ?case using aligned_child by (auto dest!: Suc.IH [rotated])
qed simp

lemma wf_pt_root: "wf_pt l pt m \<Longrightarrow> aligned pt \<and> pt \<noteq> 0"
  by (cases l) auto

lemma tables_agree:
  "agree (tables l pt m) m m' \<Longrightarrow> tables l pt m' = tables l pt m \<and> wf_pt l pt m' = wf_pt l pt m \<and>
     find_pte l pt va m' = find_pte l pt va m"
proof (induction l arbitrary: pt)
  case (Suc l)
  have r: "agree {pt} m m'" using Suc.prems by (rule agree_mono) simp
  have v: "valid m' pt k = valid m pt k" "valid m pt k \<Longrightarrow> child m' pt k = child m pt k" for k
    using valid_agree [OF r] child_agree [OF r] by auto
  have c: "tables l (child m pt k) m' = tables l (child m pt k) m \<and> wf_pt l (child m pt k) m' = wf_pt l (child m pt k) m \<and>
      find_pte l (child m pt k) va m' = find_pte l (child m pt k) va m" if "valid m pt k" for k
    by (rule Suc.IH, rule agree_mono [OF Suc.prems]) (use that in auto)
  show ?case using v c by auto
qed simp

lemma find_pte_in_table: "find_pte l pt va m = Some a \<Longrightarrow> \<exists>t \<in> tables l pt m. a = t + 8 * of_nat (idx 0 va)"
  by (induction l arbitrary: pt) (auto simp: pte_at_idx split: if_splits)

lemma entry_agree:
  assumes "agree (tables l pt m) m m'"
  shows "entry l pt va m' = entry l pt va m"
proof (cases "find_pte l pt va m")
  case (Some a)
  then obtain t where "t \<in> tables l pt m" "a = t + 8 * of_nat (idx 0 va)" using find_pte_in_table by blast
  then have "load64 m' a = load64 m a" using load64_page [OF agree_mono [OF assms]] idx_lt by simp
  then show ?thesis using tables_agree [OF assms] Some by (simp add: entry_def)
qed (use tables_agree [OF assms] in \<open>simp add: entry_def\<close>)

lemma walk_from_False:
  "walk_from l pt va False s = Inr (case find_pte l pt va (pmem s) of None \<Rightarrow> 0 | Some a \<Rightarrow> a, s)"
  by (induction l arbitrary: pt) (auto simp: Let_def valid_def slot_def child_def pte_at_idx idx_lt)

section \<open>Changing a table\<close>

lemma entry_Suc:
  "entry (Suc l) pt va m = (if valid m pt (idx (Suc l) va) then entry l (child m pt (idx (Suc l) va)) va m else None)"
  by (simp add: entry_def)

text \<open>A change inside one subtree, possibly with new pages \<open>N\<close>, is a change of the whole table that
  leaves the other subtrees alone.\<close>

lemma graft:
  assumes wf: "wf_pt (Suc l) pt m" and k: "valid m pt k" and c: "c = child m pt k"
    and out: "\<And>x. \<not> on_pages (tables l c m \<union> N) x \<Longrightarrow> m' x = m x"
    and N: "N \<inter> tables (Suc l) pt m = {}" "\<forall>t \<in> N. aligned t"
    and c': "wf_pt l c m'" "tables l c m' \<subseteq> tables l c m \<union> N"
  shows "agree {pt} m m'" "wf_pt (Suc l) pt m'" "tables (Suc l) pt m' \<subseteq> tables (Suc l) pt m \<union> N"
    "idx (Suc l) va = k \<Longrightarrow> entry (Suc l) pt va m' = entry l c va m'"
    "idx (Suc l) va = k \<Longrightarrow> find_pte (Suc l) pt va m' = find_pte l c va m'"
    "idx (Suc l) va \<noteq> k \<Longrightarrow> entry (Suc l) pt va m' = entry (Suc l) pt va m"
proof -
  have al: "aligned t" if "t \<in> tables l (child m pt j) m" for t j using that aligned_tables aligned_child by blast
  have pt: "pt \<notin> tables l c m" "pt \<notin> N" "aligned pt" using wf k c N by auto
  show r: "agree {pt} m m'"
    by (rule agree_outside [where N = "tables l c m \<union> N"]) (use pt N(2) al c out in auto)
  have v: "valid m' pt j = valid m pt j" "valid m pt j \<Longrightarrow> child m' pt j = child m pt j" for j
    using valid_agree [OF r] child_agree [OF r] by auto
  have sib: "agree (tables l (child m pt j) m) m m'" if j: "valid m pt j" "j \<noteq> k" for j
  proof (rule agree_outside [OF out])
    have "tables l (child m pt j) m \<inter> tables l c m = {}" using wf k c j unfolding wf_pt.simps by blast
    moreover have "N \<inter> tables l (child m pt j) m = {}" using N(1) j by auto
    ultimately show "tables l (child m pt j) m \<inter> (tables l c m \<union> N) = {}" by blast
    show "\<forall>t \<in> tables l (child m pt j) m \<union> (tables l c m \<union> N). aligned t" using al N(2) c by auto
  qed
  have sub: "tables l (child m pt j) m' \<subseteq> tables l (child m pt j) m \<union> (if j = k then N else {})" if "valid m pt j" for j
    using c' c tables_agree [OF sib [OF that]] by (cases "j = k") auto
  show "tables (Suc l) pt m' \<subseteq> tables (Suc l) pt m \<union> N" using v sub by (fastforce split: if_splits)
  have n: "N \<inter> tables l (child m pt j) m = {}" if "valid m pt j" for j using N(1) that by auto
  show "wf_pt (Suc l) pt m'"
    unfolding wf_pt.simps
  proof (intro conjI allI impI)
    show "aligned pt" "pt \<noteq> 0" using wf by auto
    fix j assume "valid m' pt j"
    then have j: "valid m pt j" "child m' pt j = child m pt j" using v by auto
    then show "wf_pt l (child m' pt j) m'" using c' c wf tables_agree [OF sib [OF j(1)]] by (cases "j = k") auto
    show "pt \<notin> tables l (child m' pt j) m'" using sub [OF j(1)] j wf pt by (auto split: if_splits)
    fix i assume "valid m' pt i" "j \<noteq> i"
    then have i: "valid m pt i" "child m' pt i = child m pt i" "j \<noteq> i" using v by auto
    have "tables l (child m pt j) m \<inter> tables l (child m pt i) m = {}" using wf i j by auto
    then show "tables l (child m' pt j) m' \<inter> tables l (child m' pt i) m' = {}"
      using sub [OF j(1)] sub [OF i(1)] n [OF j(1)] n [OF i(1)] i j unfolding i(2) j(2)
      by (cases "j = k"; cases "i = k") (simp_all, blast+)
  qed
  show "idx (Suc l) va = k \<Longrightarrow> entry (Suc l) pt va m' = entry l c va m'" using v k c by (simp add: entry_Suc)
  show "idx (Suc l) va = k \<Longrightarrow> find_pte (Suc l) pt va m' = find_pte l c va m'" using v k c by simp
  show "idx (Suc l) va \<noteq> k \<Longrightarrow> entry (Suc l) pt va m' = entry (Suc l) pt va m"
    using v entry_agree [OF sib] by (simp add: entry_Suc)
qed

text \<open>A page of zeros is an empty table.\<close>

lemma load64_zero: "(\<And>i. i < 8 \<Longrightarrow> m (a + of_nat i) = 0) \<Longrightarrow> load64 m a = 0"
proof -
  assume "\<And>i. i < 8 \<Longrightarrow> m (a + of_nat i) = 0"
  then have "load64 m a = load64 (\<lambda>_. 0) a" by (intro load64_cong) simp
  also have "\<dots> = 0" by (simp add: load64_def word_of_def bytes_def upt_rec)
  finally show ?thesis .
qed

lemma empty_table:
  assumes "\<And>x. in_range p 4096 x \<Longrightarrow> m x = 0" "aligned p" "p \<noteq> 0"
  shows "\<not> valid m p k" "wf_pt l p m" "tables l p m = {p}" "entry l p va m = None"
proof -
  have z: "load64 m (p + 8 * of_nat k) = 0" if "k < 512" for k
  proof (rule load64_zero)
    fix i :: nat assume "i < 8"
    then have "in_range p 4096 (p + of_nat (8 * k + i))" using that by (intro in_range_offset) simp_all
    then show "m (p + 8 * of_nat k + of_nat i) = 0" using assms(1) by (simp add: algebra_simps)
  qed
  then show v: "\<not> valid m p k" for k by (simp add: valid_def slot_def flag_def)
  show "wf_pt l p m" using v assms(2,3) by (cases l) auto
  show "tables l p m = {p}" using v by (cases l) auto
  show "entry l p va m = None" using v z [OF idx_lt, of 0 va] by (cases l) (simp_all add: entry_def pte_at_idx flag_def)
qed

lemma PTE2PA_PA2PTE:
  assumes "aligned p" "take_bit 10 f = f"
  shows "PTE2PA (or (PA2PTE p) f) = p"
proof (rule bit_word_eqI)
  fix n assume n: "n < LENGTH(64)"
  have f: "\<not> bit f k" if "10 \<le> k" for k using assms(2) that by (metis bit_take_bit_iff not_less)
  have "take_bit 12 p = 0" using assms(1) by (simp add: aligned_def take_bit_eq_mod)
  then have p: "\<not> bit p k" if "k < 12" for k using that by (metis bit_take_bit_iff bit_0_eq bot_apply bot_bool_def)
  show "bit (PTE2PA (or (PA2PTE p) f)) n \<longleftrightarrow> bit p n"
  proof (cases "n < 12")
    case True
    then show ?thesis using p by (simp add: PTE2PA_def bit_simps)
  next
    case False
    then obtain k where "n = 12 + k" using le_Suc_ex not_less by blast
    then show ?thesis using n f [of "10 + k"] by (simp add: PTE2PA_def PA2PTE_def bit_simps)
  qed
qed

lemma flag_or: "flag (or v f) f \<longleftrightarrow> f \<noteq> 0"
  by (simp add: flag_def and.commute)

lemma flag_V: "flag (or v 1) 1"
  by (simp add: flag_or)

text \<open>Writing one slot of a table.\<close>

lemma store_slot:
  fixes m :: mem and pt v :: u64
  assumes i: "i < 512"
  defines "m' \<equiv> store64 m (pt + 8 * of_nat i) v"
  shows "slot m' pt i = v" "k < 512 \<Longrightarrow> k \<noteq> i \<Longrightarrow> slot m' pt k = slot m pt k" "\<not> in_range pt 4096 x \<Longrightarrow> m' x = m x"
proof -
  show "slot m' pt i = v" by (simp add: slot_def m'_def)
  show "m' x = m x" if out: "\<not> in_range pt 4096 x"
    unfolding m'_def
  proof (rule store64_outside, rule notI)
    assume "in_range (pt + 8 * of_nat i) 8 x"
    then obtain j where j: "j < 8" "x = pt + 8 * of_nat i + of_nat j" using in_range_ex by blast
    then have "x = pt + of_nat (8 * i + j)" by simp
    then show False using in_range_offset [of 4096 "8 * i + j" pt] i j(1) out by simp
  qed
  assume k: "k < 512" "k \<noteq> i"
  show "slot m' pt k = slot m pt k"
    unfolding slot_def
  proof (rule load64_cong)
    fix j :: nat assume j: "j < 8"
    let ?x = "pt + 8 * of_nat k + of_nat j"
    show "m' ?x = m ?x"
      unfolding m'_def
    proof (rule store64_outside, rule notI)
      assume "in_range (pt + 8 * of_nat i) 8 ?x"
      then obtain n where n: "n < 8" "?x = pt + 8 * of_nat i + of_nat n" using in_range_ex by blast
      then have "(of_nat (8 * k + j) :: u64) = of_nat (8 * i + n)" by simp
      then have "8 * k + j = 8 * i + n" by (rule of_nat_word_inj [rotated 2]) (use k j i n in simp_all)
      then show False using k(2) j n(1) by presburger
    qed
  qed
qed

text \<open>A new empty table \<open>p\<close> is hung into the unused slot of \<open>va\<close>: \<open>hung\<close> is memory after \<open>memset\<close> and
  the store of the entry.\<close>

definition hung :: "nat \<Rightarrow> u64 \<Rightarrow> u64 \<Rightarrow> u64 \<Rightarrow> mem \<Rightarrow> mem" where
  "hung l pt va p m = store64 (\<lambda>x. if in_range p 4096 x then 0 else m x) (pte_at pt l va) (or (PA2PTE p) 1)"

lemma hung_memory:
  assumes "aligned pt" "aligned p" "p \<noteq> pt"
  shows "in_range p 4096 x \<Longrightarrow> hung l pt va p m x = 0"
    "\<not> in_range p 4096 x \<Longrightarrow> \<not> in_range pt 4096 x \<Longrightarrow> hung l pt va p m x = m x"
    "child (hung l pt va p m) pt (idx l va) = p"
    "valid (hung l pt va p m) pt k \<longleftrightarrow> k = idx l va \<or> valid m pt k"
    "valid m pt k \<Longrightarrow> k \<noteq> idx l va \<Longrightarrow> child (hung l pt va p m) pt k = child m pt k"
proof -
  let ?i = "idx l va" and ?m0 = "\<lambda>x. if in_range p 4096 x then 0 else m x"
  let ?h = "hung l pt va p m"
  have apart: "\<not> (in_range pt 4096 x \<and> in_range p 4096 x)" for x
    using assms aligned_pages_disjoint [of pt p x] by (auto simp: aligned_def)
  have h: "?h = store64 ?m0 (pt + 8 * of_nat ?i) (or (PA2PTE p) 1)" by (simp add: hung_def pte_at_idx)
  note st = store_slot [OF idx_lt [of l va], where m = ?m0 and pt = pt and v = "or (PA2PTE p) 1", folded h]
  show "in_range p 4096 x \<Longrightarrow> ?h x = 0" using st(3) [of x] apart [of x] by auto
  show "\<not> in_range p 4096 x \<Longrightarrow> \<not> in_range pt 4096 x \<Longrightarrow> ?h x = m x" using st(3) [of x] by auto
  have t1: "take_bit 10 (1 :: u64) = 1" by simp
  show "child ?h pt ?i = p" using st(1) PTE2PA_PA2PTE [OF assms(2) t1] by (simp add: child_def)
  have "agree {pt} m ?m0" using apart by (auto simp: agree_def on_pages_def)
  then have k: "slot ?h pt k = slot m pt k" if "k < 512" "k \<noteq> ?i" for k
    using st(2) [OF that] slot_agree [OF _ that(1)] by simp
  show "valid ?h pt k \<longleftrightarrow> k = ?i \<or> valid m pt k"
    using k [of k] st(1) idx_lt [of l va] by (cases "k = ?i"; cases "k < 512") (auto simp: valid_def flag_V)
  show "valid m pt k \<Longrightarrow> k \<noteq> ?i \<Longrightarrow> child ?h pt k = child m pt k" using k [of k] by (simp add: child_def valid_def)
qed

lemma hang_table:
  fixes m :: mem and pt va p :: u64
  assumes wf: "wf_pt (Suc l) pt m" and u: "\<not> valid m pt (idx (Suc l) va)"
    and p: "aligned p" "p \<noteq> 0" "p \<notin> tables (Suc l) pt m"
  defines "m1 \<equiv> hung (Suc l) pt va p m"
  shows "wf_pt (Suc l) pt m1" "tables (Suc l) pt m1 = insert p (tables (Suc l) pt m)"
    "idx (Suc l) va' \<noteq> idx (Suc l) va \<Longrightarrow> entry (Suc l) pt va' m1 = entry (Suc l) pt va' m"
proof -
  let ?i = "idx (Suc l) va"
  have pt: "aligned pt" "pt \<noteq> 0" "p \<noteq> pt" using wf p by auto
  note h = hung_memory [OF pt(1) p(1) pt(3), where l = "Suc l" and va = va and m = m, folded m1_def]
  note e = empty_table [OF h(1) p(1,2)]
  have sib: "agree (tables l (child m pt k) m) m m1" if k: "valid m pt k" for k
  proof (rule agree_outside [where N = "{p, pt}"])
    show "\<And>x. \<not> on_pages {p, pt} x \<Longrightarrow> m1 x = m x" using h(2) by (auto simp: on_pages_def)
    show "tables l (child m pt k) m \<inter> {p, pt} = {}" using wf k p(3) by auto
    show "\<forall>t \<in> tables l (child m pt k) m \<union> {p, pt}. aligned t" using aligned_tables aligned_child p(1) pt(1) by blast
  qed
  have ck: "child m1 pt k = child m pt k" "tables l (child m pt k) m1 = tables l (child m pt k) m"
      "wf_pt l (child m pt k) m1" "entry l (child m pt k) va' m1 = entry l (child m pt k) va' m"
      "p \<notin> tables l (child m pt k) m" "k \<noteq> ?i" if k: "valid m pt k" for k
    using tables_agree [OF sib [OF k]] entry_agree [OF sib [OF k]] h(5) [OF k] u k wf p(3) by auto
  have "(\<Union>k \<in> {k. valid m1 pt k}. tables l (child m1 pt k) m1) = insert p (\<Union>k \<in> {k. valid m pt k}. tables l (child m pt k) m)"
    using h(3,4) ck(1,2) e(3) by (auto 4 3)
  then show "tables (Suc l) pt m1 = insert p (tables (Suc l) pt m)" by auto
  have dis: "tables l (child m1 pt k) m1 \<inter> tables l (child m1 pt j) m1 = {}" if "valid m1 pt k" "valid m1 pt j" "k \<noteq> j" for k j
  proof (cases "k = ?i \<or> j = ?i")
    case True
    then show ?thesis using that h(3,4) ck(1,2,5) e(3) by auto
  next
    case False
    then have kj: "valid m pt k" "valid m pt j" using that h(4) by auto
    have "tables l (child m pt k) m \<inter> tables l (child m pt j) m = {}" using wf kj that(3) unfolding wf_pt.simps by blast
    then show ?thesis using ck(1,2) kj by simp
  qed
  have "wf_pt l (child m1 pt k) m1 \<and> pt \<notin> tables l (child m1 pt k) m1" if "valid m1 pt k" for k
    using that h(3,4) ck(1,2,3) e(2,3) pt(3) wf by auto
  then show "wf_pt (Suc l) pt m1" using pt dis by simp
  show "entry (Suc l) pt va' m1 = entry (Suc l) pt va' m" if "idx (Suc l) va' \<noteq> ?i"
    using that h(4) ck(1,4) by (simp add: entry_Suc)
qed

section \<open>\<open>walk\<close> with allocation\<close>

lemma page_chain_agree: "agree (set xs) m m' \<Longrightarrow> page_chain m' a xs = page_chain m a xs"
proof (induction xs arbitrary: a)
  case (Cons x xs)
  have "load64 m' (x + 8 * of_nat 0) = load64 m (x + 8 * of_nat 0)"
    by (rule load64_page, rule agree_mono [OF Cons.prems]) simp_all
  then have "load64 m' x = load64 m x" by simp
  moreover have "agree (set xs) m m'" by (rule agree_mono [OF Cons.prems]) auto
  ultimately show ?case using Cons.IH by simp
qed simp

lemma free_list_agree: "free_list s xs \<Longrightarrow> agree (set xs) (pmem s) m' \<Longrightarrow> free_list (s\<lparr>pmem := m'\<rparr>) xs"
  by (simp add: free_list_def page_chain_agree)

lemma free_list_pages: "free_list s xs \<Longrightarrow> x \<in> set xs \<Longrightarrow> aligned x \<and> x \<noteq> 0 \<and> x < PHYSTOP"
  by (force simp: free_list_def page_ok_def aligned_def)

definition same_kernel :: "'a memory_scheme \<Rightarrow> 'a memory_scheme \<Rightarrow> bool" where
  "same_kernel s s' \<longleftrightarrow> held s' = held s \<and> kend s' = kend s \<and> memory.more s' = memory.more s"

text \<open>The effect of a walk that may allocate, from free pages \<open>ps\<close>: some pages \<open>N\<close> are taken for
  new tables, the translation does not change, and nothing but tables is written.\<close>

definition grown :: "nat \<Rightarrow> u64 \<Rightarrow> u64 \<Rightarrow> 'a memory_scheme \<Rightarrow> u64 list \<Rightarrow> u64 list \<Rightarrow> u64 list \<Rightarrow> u64 \<Rightarrow> 'a memory_scheme \<Rightarrow> bool" where
  "grown l pt va s ps N ps' a s' \<longleftrightarrow> ps = N @ ps' \<and> free_list s' ps' \<and> same_kernel s s' \<and>
     wf_pt l pt (pmem s') \<and> tables l pt (pmem s') \<subseteq> tables l pt (pmem s) \<union> set N \<and>
     (if a = 0 then ps' = [] else find_pte l pt va (pmem s') = Some a) \<and>
     (\<forall>x. \<not> on_pages (tables l pt (pmem s) \<union> set N) x \<longrightarrow> pmem s' x = pmem s x) \<and>
     (\<forall>va'. entry l pt va' (pmem s') = entry l pt va' (pmem s))"

lemma kalloc_table:
  assumes "free_list s (p # ps)" "KmemLock \<notin> set (held s)" "aligned pt" "p \<noteq> pt" "pt \<notin> set ps"
  shows "\<exists>s1 s2. kalloc s = Inr (p, s1) \<and> s2 = s1\<lparr>pmem := store64 (memset p 0 4096 (pmem s1)) (pte_at pt l va) (or (PA2PTE p) 1)\<rparr> \<and>
     free_list s2 ps \<and> same_kernel s s2 \<and> pmem s2 = hung l pt va p (pmem s)"
proof -
  obtain s1 where s1: "kalloc s = Inr (p, s1)" "free_list s1 ps"
      "\<forall>x. pmem s1 x = (if in_range p 4096 x then 5 else pmem s x)" "same_kernel s s1"
    using kalloc_page [OF assms(1,2)] by (auto simp: same_kernel_def)
  let ?s2 = "s1\<lparr>pmem := hung l pt va p (pmem s)\<rparr>"
  have m: "store64 (memset p 0 4096 (pmem s1)) (pte_at pt l va) (or (PA2PTE p) 1) = hung l pt va p (pmem s)"
    unfolding hung_def by (rule arg_cong [where f = "\<lambda>m. store64 m _ _"]) (auto simp: memset_page s1(3))
  have p: "aligned p" "\<forall>x \<in> set ps. aligned x" "p \<notin> set ps"
    using free_list_pages [OF assms(1)] assms(1) by (auto simp: free_list_def)
  have "agree (set ps) (pmem s1) (hung l pt va p (pmem s))"
    by (rule agree_outside [where N = "{p, pt}"])
       (use p assms(3-5) s1(3) hung_memory(2) [OF assms(3) p(1) assms(4)] in \<open>auto simp: on_pages_def\<close>)
  then have "free_list ?s2 ps" by (rule free_list_agree [OF s1(2)])
  moreover have "same_kernel s ?s2" using s1(4) by (simp add: same_kernel_def)
  ultimately show ?thesis using s1(1) m by (intro exI [of _ s1] exI [of _ ?s2]) simp
qed

lemma grown_lift:
  assumes wf: "wf_pt (Suc l) pt (pmem s)" and v: "valid (pmem s) pt (idx (Suc l) va)"
    and c: "c = child (pmem s) pt (idx (Suc l) va)"
    and ps: "free_list s ps" "tables (Suc l) pt (pmem s) \<inter> set ps = {}"
    and g: "grown l c va s ps N ps' a s'"
  shows "grown (Suc l) pt va s ps N ps' a s'"
proof -
  have N: "set N \<inter> tables (Suc l) pt (pmem s) = {}" "\<forall>t \<in> set N. aligned t"
    using g ps free_list_pages [OF ps(1)] by (auto simp: grown_def)
  have out: "\<And>x. \<not> on_pages (tables l c (pmem s) \<union> set N) x \<Longrightarrow> pmem s' x = pmem s x" using g by (simp add: grown_def)
  have g': "wf_pt l c (pmem s')" "tables l c (pmem s') \<subseteq> tables l c (pmem s) \<union> set N" using g by (simp_all add: grown_def)
  note gr = graft [OF wf v c out N g']
  have "entry (Suc l) pt va' (pmem s') = entry (Suc l) pt va' (pmem s)" for va'
  proof (cases "idx (Suc l) va' = idx (Suc l) va")
    case True
    then show ?thesis using gr(4) [of va'] g v c by (simp add: grown_def entry_Suc)
  qed (use gr(6) in simp)
  moreover have "tables l c (pmem s) \<subseteq> tables (Suc l) pt (pmem s)" using v c by auto
  then have "\<not> on_pages (tables (Suc l) pt (pmem s) \<union> set N) x \<Longrightarrow> pmem s' x = pmem s x" for x
    using out on_pages_mono [of "tables l c (pmem s) \<union> set N" x] by blast
  ultimately show ?thesis using gr(2,3) gr(5) [of va] g unfolding grown_def by (simp del: tables.simps wf_pt.simps find_pte.simps)
qed

lemma grown_hang:
  assumes wf: "wf_pt (Suc l) pt (pmem s)" and u: "\<not> valid (pmem s) pt (idx (Suc l) va)"
    and p: "aligned p" "p \<noteq> 0" "p \<notin> tables (Suc l) pt (pmem s)"
    and s2: "same_kernel s s2" "pmem s2 = hung (Suc l) pt va p (pmem s)"
    and g: "grown (Suc l) pt va s2 ps N ps' a s'"
  shows "grown (Suc l) pt va s (p # ps) (p # N) ps' a s'"
proof -
  have pt: "aligned pt" "p \<noteq> pt" using wf p by auto
  note h = hang_table [OF wf u p, folded s2(2)] and hm = hung_memory [OF pt(1) p(1) pt(2), where l = "Suc l" and va = va and m = "pmem s", folded s2(2)]
  have e: "entry (Suc l) pt va' (pmem s2) = entry (Suc l) pt va' (pmem s)" for va'
  proof (cases "idx (Suc l) va' = idx (Suc l) va")
    case True
    have "entry l p va' (pmem s2) = None" by (rule empty_table(4) [OF hm(1) p(1,2)])
    then show ?thesis using True hm(3,4) u by (simp add: entry_Suc)
  qed (use h(3) in simp)
  have o: "pmem s2 x = pmem s x" if "\<not> on_pages (insert p (tables (Suc l) pt (pmem s))) x" for x
    using that hm(2) [of x] root_in_tables [of pt "Suc l" "pmem s"] by (auto simp: on_pages_def simp del: tables.simps)
  have "\<not> on_pages (tables (Suc l) pt (pmem s) \<union> set (p # N)) x \<Longrightarrow> pmem s' x = pmem s x" for x
    using g o [of x] h(2) unfolding grown_def by (simp add: on_pages_def del: tables.simps)
  then show ?thesis using g e h(2) s2(1) unfolding grown_def same_kernel_def
    by (simp del: tables.simps wf_pt.simps find_pte.simps)
qed

lemma pte_at_nz: "aligned pt \<Longrightarrow> pt \<noteq> 0 \<Longrightarrow> pte_at pt l va \<noteq> 0"
proof
  assume pt: "aligned pt" "pt \<noteq> 0" "pte_at pt l va = 0"
  have "unat (pt + of_nat (8 * idx l va)) = unat pt + 8 * idx l va"
    by (rule aligned_offset) (use pt(1) idx_lt [of l va] in \<open>simp_all add: aligned_def\<close>)
  then show False using pt by (simp add: pte_at_idx unat_eq_zero)
qed

lemma walk_step:
  "walk_from (Suc l) pt va True s =
     (if valid (pmem s) pt (idx (Suc l) va) then walk_from l (child (pmem s) pt (idx (Suc l) va)) va True s
      else bindE (kalloc s) (\<lambda>(page, s). if page = 0 then Inr (0, s)
        else walk_from l page va True
          (s\<lparr>pmem := store64 (memset page 0 4096 (pmem s)) (pte_at pt (Suc l) va) (or (PA2PTE page) 1)\<rparr>)))"
  using idx_lt by (auto simp: Let_def valid_def slot_def child_def pte_at_idx cong: if_cong)

text \<open>The case where the next table is missing and a page is free.\<close>

lemma walk_hang:
  fixes s :: "'a memory_scheme"
  assumes wf: "wf_pt (Suc l) pt (pmem s)" and fl: "free_list s (p # ps)" "KmemLock \<notin> set (held s)"
    and dis: "tables (Suc l) pt (pmem s) \<inter> set (p # ps) = {}" and u: "\<not> valid (pmem s) pt (idx (Suc l) va)"
    and IH: "\<And>s2 :: 'a memory_scheme. wf_pt l p (pmem s2) \<Longrightarrow> free_list s2 ps \<Longrightarrow> KmemLock \<notin> set (held s2) \<Longrightarrow> tables l p (pmem s2) \<inter> set ps = {} \<Longrightarrow>
       \<exists>a s' N ps'. walk_from l p va True s2 = Inr (a, s') \<and> grown l p va s2 ps N ps' a s'"
  shows "\<exists>a s' N ps'. walk_from (Suc l) pt va True s = Inr (a, s') \<and> grown (Suc l) pt va s (p # ps) N ps' a s'"
proof -
  have p: "aligned p" "p \<noteq> 0" "p \<notin> tables (Suc l) pt (pmem s)" "pt \<notin> set ps" "p \<noteq> pt" "aligned pt" "p \<notin> set ps"
    using wf dis fl free_list_pages [OF fl(1), of p] by (auto simp: free_list_def)
  obtain s1 s2 where s1: "kalloc s = Inr (p, s1)"
      "s2 = s1\<lparr>pmem := store64 (memset p 0 4096 (pmem s1)) (pte_at pt (Suc l) va) (or (PA2PTE p) 1)\<rparr>"
    and s2: "free_list s2 ps" "same_kernel s s2" "pmem s2 = hung (Suc l) pt va p (pmem s)"
    using kalloc_table [OF fl p(6,5,4)] by blast
  note h = hang_table [OF wf u p(1-3), folded s2(3)]
    and hm = hung_memory [OF p(6,1,5), where l = "Suc l" and va = va and m = "pmem s", folded s2(3)]
  have e: "wf_pt l p (pmem s2)" "tables l p (pmem s2) = {p}" using empty_table(2,3) [of p "pmem s2"] hm(1) p(1,2) by blast+
  have v: "valid (pmem s2) pt (idx (Suc l) va)" "p = child (pmem s2) pt (idx (Suc l) va)" using hm(3,4) by simp_all
  have d: "tables l p (pmem s2) \<inter> set ps = {}" "tables (Suc l) pt (pmem s2) \<inter> set ps = {}"
    using e(2) h(2) p(7) dis by auto
  have "KmemLock \<notin> set (held s2)" using s2(2) fl(2) by (simp add: same_kernel_def)
  from IH [OF e(1) s2(1) this d(1)] obtain a s' N ps' where
    w: "walk_from l p va True s2 = Inr (a, s')" and g: "grown l p va s2 ps N ps' a s'" by blast
  have "walk_from (Suc l) pt va True s = Inr (a, s')" unfolding walk_step using u s1 p(2) w by simp
  moreover have "grown (Suc l) pt va s (p # ps) (p # N) ps' a s'"
    by (rule grown_hang [OF wf u p(1-3) s2(2,3) grown_lift [OF h(1) v s2(1) d(2) g]])
  ultimately show ?thesis by blast
qed

lemma walk_alloc:
  assumes "wf_pt l pt (pmem s)" "free_list s ps" "KmemLock \<notin> set (held s)" "tables l pt (pmem s) \<inter> set ps = {}"
  shows "\<exists>a s' N ps'. walk_from l pt va True s = Inr (a, s') \<and> grown l pt va s ps N ps' a s'"
  using assms
proof (induction l arbitrary: pt s ps)
  case 0
  then have "grown 0 pt va s ps [] ps (pte_at pt 0 va) s" using pte_at_nz by (auto simp: grown_def same_kernel_def)
  then show ?case by auto
next
  case (Suc l)
  let ?i = "idx (Suc l) va"
  show ?case
  proof (cases "valid (pmem s) pt ?i")
    case True
    let ?c = "child (pmem s) pt ?i"
    have "wf_pt l ?c (pmem s)" "tables l ?c (pmem s) \<inter> set ps = {}" using Suc.prems(1,4) True by auto
    from Suc.IH [OF this(1) Suc.prems(2,3) this(2)] obtain a s' N ps' where
      "walk_from l ?c va True s = Inr (a, s')" "grown l ?c va s ps N ps' a s'" by blast
    then have "walk_from (Suc l) pt va True s = Inr (a, s')" "grown (Suc l) pt va s ps N ps' a s'"
      using grown_lift [OF Suc.prems(1) True refl Suc.prems(2,4)] True by (simp_all only: walk_step if_True)
    then show ?thesis by blast
  next
    case u: False
    show ?thesis
    proof (cases ps)
      case Nil
      then have "kalloc s = Inr (0, s)" using Suc.prems kalloc_empty by blast
      then have "walk_from (Suc l) pt va True s = Inr (0, s)" unfolding walk_step using u by simp
      moreover have "grown (Suc l) pt va s ps [] ps 0 s" using Suc.prems Nil
        by (auto simp: grown_def same_kernel_def simp del: tables.simps wf_pt.simps)
      ultimately show ?thesis by blast
    next
      case (Cons p ps0)
      show ?thesis unfolding Cons
        by (rule walk_hang [OF Suc.prems(1) Suc.prems(2) [unfolded Cons] Suc.prems(3) Suc.prems(4) [unfolded Cons] u Suc.IH])
    qed
  qed
qed

section \<open>Mapping pages\<close>

definition same_path :: "nat \<Rightarrow> u64 \<Rightarrow> u64 \<Rightarrow> bool" where
  "same_path l va va' \<longleftrightarrow> (\<forall>j \<le> l. idx j va' = idx j va)"

lemma same_path_Suc: "same_path (Suc l) va va' \<longleftrightarrow> idx (Suc l) va' = idx (Suc l) va \<and> same_path l va va'"
  by (auto simp: same_path_def le_Suc_eq)

lemma leaf_store:
  assumes "wf_pt l pt m" "find_pte l pt va m = Some a"
  shows "wf_pt l pt (store64 m a v) \<and> tables l pt (store64 m a v) \<subseteq> tables l pt m \<and>
    (\<forall>x. \<not> on_pages (tables l pt m) x \<longrightarrow> store64 m a v x = m x) \<and>
    (\<forall>va'. entry l pt va' (store64 m a v) =
      (if same_path l va va' then (if flag v 1 then Some v else None) else entry l pt va' m))"
  using assms
proof (induction l arbitrary: pt)
  case 0
  then have a: "a = pt + 8 * of_nat (idx 0 va)" by (simp add: pte_at_idx)
  note st = store_slot [OF idx_lt [of 0 va], where m = m and pt = pt and v = v, folded a]
  have e: "entry 0 pt va' m' = (if flag (slot m' pt (idx 0 va')) 1 then Some (slot m' pt (idx 0 va')) else None)" for va' m'
    by (simp add: entry_def pte_at_idx slot_def)
  have "entry 0 pt va' (store64 m a v) = (if same_path 0 va va' then (if flag v 1 then Some v else None) else entry 0 pt va' m)" for va'
    using st(1) st(2) [OF idx_lt [of 0 va']] by (simp add: e same_path_def)
  then show ?case using 0 st(3) by (auto simp: on_pages_def)
next
  case (Suc l)
  let ?i = "idx (Suc l) va" and ?m' = "store64 m a v"
  let ?c = "child m pt ?i"
  have v: "valid m pt ?i" and f: "find_pte l ?c va m = Some a" using Suc.prems(2) by (auto split: if_splits)
  have wc: "wf_pt l ?c m" using Suc.prems(1) v by simp
  note IH = Suc.IH [OF wc f]
  have out: "\<And>x. \<not> on_pages (tables l ?c m \<union> {}) x \<Longrightarrow> ?m' x = m x" using IH by simp
  have t: "tables l ?c ?m' \<subseteq> tables l ?c m \<union> {}" using IH by simp
  have g: "agree {pt} m ?m'" "wf_pt (Suc l) pt ?m'" "tables (Suc l) pt ?m' \<subseteq> tables (Suc l) pt m \<union> {}"
    "\<And>va'. idx (Suc l) va' = ?i \<Longrightarrow> entry (Suc l) pt va' ?m' = entry l ?c va' ?m'"
    "\<And>va'. idx (Suc l) va' \<noteq> ?i \<Longrightarrow> entry (Suc l) pt va' ?m' = entry (Suc l) pt va' m"
    using graft [OF Suc.prems(1) v refl out _ _ _ t] IH by (simp_all del: tables.simps wf_pt.simps)
  have "entry (Suc l) pt va' ?m' = (if same_path (Suc l) va va' then (if flag v 1 then Some v else None) else entry (Suc l) pt va' m)" for va'
    using g(4,5) [of va'] IH v by (cases "idx (Suc l) va' = ?i") (simp_all add: same_path_Suc entry_Suc)
  moreover have "\<not> on_pages (tables (Suc l) pt m) x \<Longrightarrow> ?m' x = m x" for x
    using out [of x] v by (auto simp: on_pages_def)
  ultimately show ?case using g(2,3) by (simp del: tables.simps wf_pt.simps)
qed

lemma same_path_page:
  assumes "va < MAXVA" "va' < MAXVA"
  shows "same_path 2 va va' \<longleftrightarrow> unat va' div 4096 = unat va div 4096"
proof -
  define p q where "p = unat va div 4096" and "q = unat va' div 4096"
  have lt: "p < 512 * 512 * 512" "q < 512 * 512 * 512"
    using assms by (simp_all add: p_def q_def word_less_nat_alt less_mult_imp_div_less)
  have i: "idx 0 va = p mod 512" "idx 1 va = p div 512 mod 512" "idx 2 va = p div 512 div 512 mod 512"
       "idx 0 va' = q mod 512" "idx 1 va' = q div 512 mod 512" "idx 2 va' = q div 512 div 512 mod 512"
    by (simp_all add: idx_eq p_def q_def div_mult2_eq [symmetric] flip: power_add)
  have "p div 512 div 512 mod 512 = p div 512 div 512" "q div 512 div 512 mod 512 = q div 512 div 512"
    using lt by (simp_all add: less_mult_imp_div_less)
  then have "same_path 2 va va' \<longleftrightarrow> q mod 512 = p mod 512 \<and> q div 512 mod 512 = p div 512 mod 512 \<and> q div 512 div 512 = p div 512 div 512"
    unfolding same_path_def using i by (auto simp: le_Suc_eq numeral_2_eq_2)
  also have "\<dots> \<longleftrightarrow> q = p" by (metis div_mult_mod_eq)
  finally show ?thesis by (simp only: p_def q_def)
qed

text \<open>A table, and free pages that are not part of it.\<close>

definition pt_ok :: "u64 \<Rightarrow> u64 list \<Rightarrow> 'a memory_scheme \<Rightarrow> bool" where
  "pt_ok pt ps s \<longleftrightarrow> wf_pt 2 pt (pmem s) \<and> free_list s ps \<and> KmemLock \<notin> set (held s) \<and> tables 2 pt (pmem s) \<inter> set ps = {}"

lemma pt_ok_grown:
  assumes "pt_ok pt ps s" "grown 2 pt va s ps N ps' a s'"
  shows "pt_ok pt ps' s'"
proof -
  have "free_list s (N @ ps')" using assms by (simp add: pt_ok_def grown_def)
  then have d: "set N \<inter> set ps' = {}" by (simp add: free_list_def)
  have "tables 2 pt (pmem s') \<inter> set ps' = {}"
    using assms d unfolding pt_ok_def grown_def by (simp del: tables.simps) blast
  then show ?thesis using assms by (simp add: pt_ok_def grown_def same_kernel_def)
qed

lemma pt_ok_leaf:
  assumes ok: "pt_ok pt ps s" and f: "find_pte 2 pt va (pmem s) = Some a"
  shows "pt_ok pt ps (s\<lparr>pmem := store64 (pmem s) a v\<rparr>)"
proof -
  have wf: "wf_pt 2 pt (pmem s)" and fl: "free_list s ps" and d: "tables 2 pt (pmem s) \<inter> set ps = {}" using ok by (simp_all add: pt_ok_def)
  note l = leaf_store [OF wf f, of v]
  have "agree (set ps) (pmem s) (store64 (pmem s) a v)"
  proof (rule agree_outside [where N = "tables 2 pt (pmem s)"])
    show "\<And>x. \<not> on_pages (tables 2 pt (pmem s)) x \<Longrightarrow> store64 (pmem s) a v x = pmem s x" using l by blast
    show "set ps \<inter> tables 2 pt (pmem s) = {}" using d by blast
    show "\<forall>t \<in> set ps \<union> tables 2 pt (pmem s). aligned t"
      using free_list_pages [OF fl] aligned_tables wf_pt_root [OF wf] by blast
  qed
  then have "free_list (s\<lparr>pmem := store64 (pmem s) a v\<rparr>) ps" by (rule free_list_agree [OF fl])
  moreover have "tables 2 pt (store64 (pmem s) a v) \<inter> set ps = {}" using l d by blast
  ultimately show ?thesis using ok l by (simp add: pt_ok_def)
qed

definition leaf :: "u64 \<Rightarrow> c_int \<Rightarrow> u64" where
  "leaf pa perm = or (or (PA2PTE pa) (scast perm)) 1"

text \<open>The translation of \<open>va'\<close> once \<open>n\<close> pages have been mapped from \<open>va\<close> to \<open>pa\<close>.\<close>

definition mapped :: "u64 \<Rightarrow> nat \<Rightarrow> u64 \<Rightarrow> c_int \<Rightarrow> (u64 \<Rightarrow> u64 option) \<Rightarrow> u64 \<Rightarrow> u64 option" where
  "mapped va n pa perm old va' =
     (if unat va \<le> unat va' \<and> unat va' < unat va + 4096 * n
      then Some (leaf (pa + of_nat ((unat va' - unat va) div 4096) * PGSIZE) perm) else old va')"

lemma map_one:
  assumes ok: "pt_ok pt ps s" and a: "a < MAXVA" and none: "entry 2 pt a (pmem s) = None"
  shows "\<exists>pte s1 N ps1. walk pt a True s = Inr (pte, s1) \<and> ps = N @ ps1 \<and> pt_ok pt ps1 s1 \<and> same_kernel s s1 \<and>
    (\<forall>va'. entry 2 pt va' (pmem s1) = entry 2 pt va' (pmem s)) \<and>
    (if pte = 0 then ps1 = []
     else \<not> flag (load64 (pmem s1) pte) 1 \<and>
       (let s2 = s1\<lparr>pmem := store64 (pmem s1) pte (leaf pa perm)\<rparr> in pt_ok pt ps1 s2 \<and> same_kernel s s2 \<and>
        (\<forall>va'. entry 2 pt va' (pmem s2) = (if same_path 2 a va' then Some (leaf pa perm) else entry 2 pt va' (pmem s)))))"
proof -
  have w: "walk pt a True s = walk_from 2 pt a True s" using a unfolding walk_def by (subst if_not_P) (simp_all only: not_le)
  obtain pte s1 N ps1 where g: "walk_from 2 pt a True s = Inr (pte, s1)" "grown 2 pt a s ps N ps1 pte s1"
    using walk_alloc [of 2 pt s ps a] ok by (auto simp: pt_ok_def)
  note ok1 = pt_ok_grown [OF ok g(2)]
  have e: "entry 2 pt va' (pmem s1) = entry 2 pt va' (pmem s)" for va' using g(2) by (simp add: grown_def)
  have leaf: "\<not> flag (load64 (pmem s1) pte) 1 \<and>
       (let s2 = s1\<lparr>pmem := store64 (pmem s1) pte (leaf pa perm)\<rparr> in pt_ok pt ps1 s2 \<and> same_kernel s s2 \<and>
        (\<forall>va'. entry 2 pt va' (pmem s2) = (if same_path 2 a va' then Some (leaf pa perm) else entry 2 pt va' (pmem s))))"
    if "pte \<noteq> 0"
  proof -
    have f: "find_pte 2 pt a (pmem s1) = Some pte" using g(2) that by (simp add: grown_def)
    have "\<not> flag (load64 (pmem s1) pte) 1" using e [of a] none f by (simp add: entry_def split: if_splits)
    moreover have "flag (leaf pa perm) 1" by (simp add: leaf_def flag_V)
    ultimately show ?thesis
      using pt_ok_leaf [OF ok1 f] leaf_store [OF _ f, of "leaf pa perm"] ok1 e g(2)
      by (simp add: Let_def pt_ok_def same_kernel_def grown_def)
  qed
  show ?thesis using w g ok1 e leaf by (intro exI [of _ pte] exI [of _ s1] exI [of _ N] exI [of _ ps1]) (auto simp: grown_def)
qed

lemma page_step:
  assumes "a mod PGSIZE = 0" "unat a + 4096 * Suc n \<le> unat MAXVA"
  shows "a < MAXVA" "n \<noteq> 0 \<Longrightarrow> unat (a + PGSIZE) = unat a + 4096" "(a + PGSIZE) mod PGSIZE = 0"
    "va' < MAXVA \<Longrightarrow> same_path 2 a va' \<longleftrightarrow> unat a \<le> unat va' \<and> unat va' < unat a + 4096"
proof -
  show lt: "a < MAXVA" using assms(2) by (simp add: word_less_nat_alt)
  show "n \<noteq> 0 \<Longrightarrow> unat (a + PGSIZE) = unat a + 4096" using assms(2) by (subst unat_add_lt) simp_all
  have al: "unat a mod 4096 = 0" using assms(1) by (simp add: aligned_unat)
  have "unat (a + PGSIZE) = unat a + 4096" using assms(2) by (subst unat_add_lt) simp_all
  then show "(a + PGSIZE) mod PGSIZE = 0" using al by (simp add: aligned_unat)
  assume va': "va' < MAXVA"
  obtain k where k: "unat a = 4096 * k" using al by (auto elim: dvdE)
  have "unat va' div 4096 = k \<longleftrightarrow> 4096 * k \<le> unat va' \<and> unat va' < 4096 * k + 4096" by (auto simp: div_nat_eqI)
  then show "same_path 2 a va' \<longleftrightarrow> unat a \<le> unat va' \<and> unat va' < unat a + 4096"
    unfolding same_path_page [OF lt va'] k by simp
qed

lemma mapped_Suc:
  assumes "unat (va + PGSIZE) = unat va + 4096"
  shows "mapped (va + PGSIZE) n (pa + PGSIZE) perm
      (\<lambda>x. if unat va \<le> unat x \<and> unat x < unat va + 4096 then Some (leaf pa perm) else old x) va' =
    mapped va (Suc n) pa perm old va'"
proof (cases "unat va + 4096 \<le> unat va'")
  case True
  then obtain d where d: "unat va' = unat va + 4096 + d" using le_Suc_ex by blast
  then have "(unat va' - unat va) div 4096 = Suc (d div 4096)" by simp
  then show ?thesis using assms d by (simp add: mapped_def algebra_simps)
next
  case False
  then have "unat va \<le> unat va' \<Longrightarrow> (unat va' - unat va) div 4096 = 0" by simp
  then show ?thesis using assms False by (auto simp: mapped_def)
qed

definition maps_result ::
  "u64 \<Rightarrow> u64 \<Rightarrow> nat \<Rightarrow> u64 \<Rightarrow> c_int \<Rightarrow> u64 list \<Rightarrow> 'a memory_scheme \<Rightarrow> stop + c_int \<times> 'a memory_scheme \<Rightarrow> bool" where
  "maps_result pt va n pa perm ps s res \<longleftrightarrow>
     (\<exists>r s' N ps' k. res = Inr (r, s') \<and> ps = N @ ps' \<and> pt_ok pt ps' s' \<and> same_kernel s s' \<and>
       (if r = 0 then k = n else r = -1 \<and> k < n \<and> ps' = []) \<and>
       (\<forall>va' < MAXVA. entry 2 pt va' (pmem s') = mapped va k pa perm (\<lambda>x. entry 2 pt x (pmem s)) va'))"

lemma mappages_stop:
  assumes "pt_ok pt ps s1" "same_kernel s s1" "ps' = N @ ps" "ps = []" "\<And>x. entry 2 pt x (pmem s1) = entry 2 pt x (pmem s)"
  shows "maps_result pt a (Suc n) pa perm ps' s (Inr (-1, s1))"
  unfolding maps_result_def using assms
  by (intro exI [of _ "-1"] exI [of _ s1] exI [of _ N] exI [of _ ps] exI [of _ 0]) (auto simp: mapped_def)

lemma maps_result_Suc:
  assumes step: "unat (a + PGSIZE) = unat a + 4096" "ps = N @ ps1" "same_kernel s s2"
    and e: "\<And>x. x < MAXVA \<Longrightarrow> entry 2 pt x (pmem s2) =
        (if unat a \<le> unat x \<and> unat x < unat a + 4096 then Some (leaf pa perm) else entry 2 pt x (pmem s))"
    and r: "maps_result pt (a + PGSIZE) n (pa + PGSIZE) perm ps1 s2 res"
  shows "maps_result pt a (Suc n) pa perm ps s res"
proof -
  obtain q s' M ps' k where q: "res = Inr (q, s')" "ps1 = M @ ps'" "pt_ok pt ps' s'" "same_kernel s2 s'"
      "if q = 0 then k = n else q = -1 \<and> k < n \<and> ps' = []"
      "\<And>x. x < MAXVA \<Longrightarrow> entry 2 pt x (pmem s') = mapped (a + PGSIZE) k (pa + PGSIZE) perm (\<lambda>x. entry 2 pt x (pmem s2)) x"
    using r unfolding maps_result_def by blast
  have "entry 2 pt x (pmem s') = mapped a (Suc k) pa perm (\<lambda>x. entry 2 pt x (pmem s)) x" if "x < MAXVA" for x
  proof -
    have "mapped (a + PGSIZE) k (pa + PGSIZE) perm (\<lambda>x. entry 2 pt x (pmem s2)) x =
      mapped (a + PGSIZE) k (pa + PGSIZE) perm
        (\<lambda>x. if unat a \<le> unat x \<and> unat x < unat a + 4096 then Some (leaf pa perm) else entry 2 pt x (pmem s)) x"
      using e [OF that] by (simp add: mapped_def)
    then show ?thesis using q(6) [OF that] mapped_Suc [OF step(1)] by simp
  qed
  moreover have "same_kernel s s'" using step(3) q(4) by (simp add: same_kernel_def)
  ultimately show ?thesis unfolding maps_result_def using q step(2)
    by (intro exI [of _ q] exI [of _ s'] exI [of _ "N @ M"] exI [of _ ps'] exI [of _ "Suc k"]) auto
qed

lemma mappages_step:
  assumes ok: "pt_ok pt ps s" and a: "a mod PGSIZE = 0" "unat a + 4096 * Suc n \<le> unat MAXVA"
    and none: "entry 2 pt a (pmem s) = None"
  shows "maps_result pt a (Suc n) pa perm ps s (mappages_loop pt a lst pa perm s) \<or>
    (\<exists>s2 N ps1. ps = N @ ps1 \<and> pt_ok pt ps1 s2 \<and> same_kernel s s2 \<and>
      (\<forall>x < MAXVA. entry 2 pt x (pmem s2) =
        (if unat a \<le> unat x \<and> unat x < unat a + 4096 then Some (leaf pa perm) else entry 2 pt x (pmem s))) \<and>
      mappages_loop pt a lst pa perm s = (if a = lst then Inr (0, s2) else mappages_loop pt (a + PGSIZE) lst (pa + PGSIZE) perm s2))"
proof -
  note p = page_step [OF a]
  obtain pte s1 N ps1 where w: "walk pt a True s = Inr (pte, s1)" "ps = N @ ps1" "pt_ok pt ps1 s1" "same_kernel s s1"
      "\<And>x. entry 2 pt x (pmem s1) = entry 2 pt x (pmem s)"
    and c: "if pte = 0 then ps1 = []
     else \<not> flag (load64 (pmem s1) pte) 1 \<and>
       (let s2 = s1\<lparr>pmem := store64 (pmem s1) pte (leaf pa perm)\<rparr> in pt_ok pt ps1 s2 \<and> same_kernel s s2 \<and>
        (\<forall>va'. entry 2 pt va' (pmem s2) = (if same_path 2 a va' then Some (leaf pa perm) else entry 2 pt va' (pmem s))))"
    using map_one [OF ok p(1) none, of pa perm] by blast
  show ?thesis
  proof (cases "pte = 0")
    case True
    then have "mappages_loop pt a lst pa perm s = Inr (-1, s1)" using w(1) by (subst mappages_loop.simps) simp
    moreover have "maps_result pt a (Suc n) pa perm ps s (Inr (-1, s1))"
      by (rule mappages_stop [OF w(3,4,2) _ w(5)]) (use c True in simp)
    ultimately show ?thesis by simp
  next
    case False
    define s2 where "s2 = s1\<lparr>pmem := store64 (pmem s1) pte (leaf pa perm)\<rparr>"
    have s2: "\<not> flag (load64 (pmem s1) pte) 1" "pt_ok pt ps1 s2" "same_kernel s s2"
        "\<And>x. entry 2 pt x (pmem s2) = (if same_path 2 a x then Some (leaf pa perm) else entry 2 pt x (pmem s))"
      using c False unfolding s2_def Let_def by auto
    have "mappages_loop pt a lst pa perm s = (if a = lst then Inr (0, s2) else mappages_loop pt (a + PGSIZE) lst (pa + PGSIZE) perm s2)"
      using w(1) False s2(1) by (subst mappages_loop.simps) (simp add: Let_def leaf_def s2_def)
    then show ?thesis using w(2) s2(2-4) p(4) by (intro disjI2 exI [of _ s2] exI [of _ N] exI [of _ ps1]) auto
  qed
qed

lemma page_offsets:
  assumes "unat a + 4096 * Suc n \<le> unat MAXVA" "i \<le> n"
  shows "unat (a + of_nat i * PGSIZE) = unat a + 4096 * i" "a + of_nat i * PGSIZE < MAXVA"
proof -
  have "unat (a + of_nat (4096 * i)) = unat a + 4096 * i" by (rule unat_add_of_nat) (use assms in simp)
  then show u: "unat (a + of_nat i * PGSIZE) = unat a + 4096 * i" by (simp add: mult.commute)
  show "a + of_nat i * PGSIZE < MAXVA" unfolding word_less_nat_alt u using assms by simp
qed

lemma mappages_loop_maps:
  assumes "pt_ok pt ps s" "a mod PGSIZE = 0" "unat a + 4096 * Suc n \<le> unat MAXVA"
    and "\<forall>i \<le> n. entry 2 pt (a + of_nat i * PGSIZE) (pmem s) = None"
  shows "maps_result pt a (Suc n) pa perm ps s (mappages_loop pt a (a + of_nat n * PGSIZE) pa perm s)"
  using assms
proof (induction n arbitrary: a pa s ps)
  case (0 a pa s ps)
  have none: "entry 2 pt a (pmem s) = None" using 0(4) by simp
  from mappages_step [OF 0(1-3) none, of pa perm a] show ?case
  proof
    assume "\<exists>s2 N ps1. ps = N @ ps1 \<and> pt_ok pt ps1 s2 \<and> same_kernel s s2 \<and>
      (\<forall>x < MAXVA. entry 2 pt x (pmem s2) =
        (if unat a \<le> unat x \<and> unat x < unat a + 4096 then Some (leaf pa perm) else entry 2 pt x (pmem s))) \<and>
      mappages_loop pt a a pa perm s = (if a = a then Inr (0, s2) else mappages_loop pt (a + PGSIZE) a (pa + PGSIZE) perm s2)"
    then obtain s2 N ps1 where s2: "ps = N @ ps1" "pt_ok pt ps1 s2" "same_kernel s s2" "mappages_loop pt a a pa perm s = Inr (0, s2)"
      "\<forall>x < MAXVA. entry 2 pt x (pmem s2) =
        (if unat a \<le> unat x \<and> unat x < unat a + 4096 then Some (leaf pa perm) else entry 2 pt x (pmem s))" by auto
    then show ?case unfolding maps_result_def
      by (intro exI [of _ 0] exI [of _ s2] exI [of _ N] exI [of _ ps1] exI [of _ 1]) (auto simp: mapped_def)
  qed simp
next
  case (Suc n a pa s ps)
  let ?lst = "a + of_nat (Suc n) * PGSIZE"
  have none: "entry 2 pt a (pmem s) = None" using Suc.prems(4) by (metis add.right_neutral le0 mult_zero_left of_nat_0)
  note p = page_step [OF Suc.prems(2,3)]
  have "unat ?lst = unat a + 4096 * Suc n" by (rule page_offsets(1) [OF Suc.prems(3) order_refl])
  then have ne: "a \<noteq> ?lst" by auto
  have lst: "?lst = (a + PGSIZE) + of_nat n * PGSIZE" by (simp add: algebra_simps)
  from mappages_step [OF Suc.prems(1-3) none, of pa perm ?lst] show ?case
  proof
    assume "\<exists>s2 N ps1. ps = N @ ps1 \<and> pt_ok pt ps1 s2 \<and> same_kernel s s2 \<and>
      (\<forall>x < MAXVA. entry 2 pt x (pmem s2) =
        (if unat a \<le> unat x \<and> unat x < unat a + 4096 then Some (leaf pa perm) else entry 2 pt x (pmem s))) \<and>
      mappages_loop pt a ?lst pa perm s = (if a = ?lst then Inr (0, s2) else mappages_loop pt (a + PGSIZE) ?lst (pa + PGSIZE) perm s2)"
    then obtain s2 N ps1 where s2: "ps = N @ ps1" "pt_ok pt ps1 s2" "same_kernel s s2"
        "mappages_loop pt a ?lst pa perm s = mappages_loop pt (a + PGSIZE) ?lst (pa + PGSIZE) perm s2"
        "\<And>x. x < MAXVA \<Longrightarrow> entry 2 pt x (pmem s2) =
          (if unat a \<le> unat x \<and> unat x < unat a + 4096 then Some (leaf pa perm) else entry 2 pt x (pmem s))" using ne by auto
    have u: "unat (a + PGSIZE) = unat a + 4096" using p(2) by simp
    have "entry 2 pt ((a + PGSIZE) + of_nat i * PGSIZE) (pmem s2) = None" if "i \<le> n" for i
    proof -
      have i: "(a + PGSIZE) + of_nat i * PGSIZE = a + of_nat (Suc i) * PGSIZE" by (simp add: algebra_simps)
      have "Suc i \<le> Suc n" using that by simp
      note o = page_offsets [OF Suc.prems(3) this]
      show ?thesis unfolding i using s2(5) [OF o(2)] Suc.prems(4) \<open>Suc i \<le> Suc n\<close> unfolding o(1) by auto
    qed
    then have "maps_result pt (a + PGSIZE) (Suc n) (pa + PGSIZE) perm ps1 s2
        (mappages_loop pt (a + PGSIZE) ((a + PGSIZE) + of_nat n * PGSIZE) (pa + PGSIZE) perm s2)"
      using Suc.IH [OF s2(2) p(3)] Suc.prems(3) u by simp
    then show ?case using s2(4) unfolding lst by (simp add: maps_result_Suc [OF u s2(1,3) s2(5)])
  qed simp
qed

text \<open>C3: \<open>mappages\<close> is an update of the translation a page table stands for. Given a table whose pages
  form a tree, free pages outside it, and \<open>n\<close> unmapped pages from a page-aligned \<open>va\<close> below
  MAXVA, it either maps all of them, page by page to the pages from \<open>pa\<close> with the given
  permissions, and returns 0, or runs out of memory and returns -1 with a proper prefix
  mapped; no other page's translation changes and the table is still a tree.\<close>

theorem mappages_updates_translation:
  assumes "pt_ok pt ps s" "va mod PGSIZE = 0" "0 < n" "unat va + 4096 * n \<le> unat MAXVA"
    and "\<forall>i < n. entry 2 pt (va + of_nat i * PGSIZE) (pmem s) = None"
  shows "\<exists>r s' N ps' k. mappages pt va (of_nat n * PGSIZE) pa perm s = Inr (r, s') \<and>
    ps = N @ ps' \<and> pt_ok pt ps' s' \<and> same_kernel s s' \<and>
    (if r = 0 then k = n else r = -1 \<and> k < n \<and> ps' = []) \<and>
    (\<forall>va' < MAXVA. entry 2 pt va' (pmem s') = mapped va k pa perm (\<lambda>x. entry 2 pt x (pmem s)) va')"
proof -
  obtain m where m: "n = Suc m" using assms(3) by (cases n) auto
  obtain q where q: "unat va = 4096 * q" using assms(2) by (auto simp: aligned_unat elim: dvdE)
  have a: "PGROUNDDOWN va = va" by (simp add: word_unat_eq_iff unat_PGROUNDDOWN q)
  have e: "va + of_nat n * PGSIZE - 1 = va + of_nat (4096 * m + 4095)" by (simp add: m algebra_simps)
  have "unat (va + of_nat n * PGSIZE - 1) = 4096 * q + (4096 * m + 4095)"
    unfolding e q [symmetric] by (rule unat_add_of_nat) (use assms(4) m in simp)
  then have "unat (PGROUNDDOWN (va + of_nat n * PGSIZE - 1)) = 4096 * q + 4096 * m" unfolding unat_PGROUNDDOWN by simp
  moreover have "unat (va + of_nat m * PGSIZE) = 4096 * q + 4096 * m"
    using page_offsets(1) [of va m m] assms(4) m q by simp
  ultimately have l: "PGROUNDDOWN (va + of_nat n * PGSIZE - 1) = va + of_nat m * PGSIZE" by (simp add: word_unat_eq_iff)
  have le: "unat va + 4096 * Suc m \<le> unat MAXVA" using assms(4) m by simp
  have none: "\<forall>i \<le> m. entry 2 pt (va + of_nat i * PGSIZE) (pmem s) = None" using assms(5) m by (simp add: less_Suc_eq_le)
  have "maps_result pt va n pa perm ps s (mappages pt va (of_nat n * PGSIZE) pa perm s)"
    unfolding mappages_def a l using mappages_loop_maps [OF assms(1,2) le none] by (simp only: m)
  then show ?thesis unfolding maps_result_def .
qed

definition demo_table :: "unit memory_scheme" where
  "demo_table = \<lparr>held = [], pmem = store64 (\<lambda>_. 0) 0x80020000 0x80021000, freelist = 0x80020000, kend = 0x80011000\<rparr>"

lemma in_range_bounds:
  assumes "in_range a n x" "unat a + n \<le> 2 ^ 64"
  shows "unat a \<le> unat x" "unat x < unat a + n"
proof -
  obtain i where i: "i < n" "x = a + of_nat i" using in_range_ex [OF assms(1)] by blast
  then have "unat x = unat a + i" using assms(2) by (simp add: unat_add_of_nat)
  then show "unat a \<le> unat x" "unat x < unat a + n" using i(1) by simp_all
qed

lemma demo_table_zero:
  assumes "\<not> in_range 0x80020000 8 x"
  shows "pmem demo_table x = 0"
  using store64_outside [OF assms] by (simp add: demo_table_def)

lemma demo_table_page: "load64 (pmem demo_table) 0x80020000 = 0x80021000" "load64 (pmem demo_table) 0x80021000 = 0"
proof -
  show "load64 (pmem demo_table) 0x80020000 = 0x80021000" by (simp add: demo_table_def)
  show "load64 (pmem demo_table) 0x80021000 = 0"
  proof (rule load64_zero, rule demo_table_zero)
    fix i :: nat assume "i < 8"
    then have "unat ((0x80021000 :: u64) + of_nat i) = 0x80021000 + i" by (subst unat_add_of_nat) simp_all
    then show "\<not> in_range 0x80020000 8 (0x80021000 + of_nat i)"
      using in_range_bounds(2) [of "0x80020000" 8 "0x80021000 + of_nat i"] by auto
  qed
qed

lemma demo_table_ok: "pt_ok 0x80010000 [0x80020000, 0x80021000] demo_table" "entry 2 0x80010000 va (pmem demo_table) = None"
proof -
  have z: "pmem demo_table x = 0" if "in_range 0x80010000 4096 x" for x
    using in_range_bounds [OF that] in_range_bounds [of "0x80020000" 8 x] by (intro demo_table_zero) auto
  have a: "aligned 0x80010000" "(0x80010000 :: u64) \<noteq> 0" by (simp_all add: aligned_def)
  note e = empty_table [of "0x80010000" "pmem demo_table", OF z a]
  show "entry 2 0x80010000 va (pmem demo_table) = None" by (rule e(4))
  have "free_list demo_table [0x80020000, 0x80021000]"
    unfolding free_list_def using demo_table_page by (simp add: page_ok_def) (simp add: demo_table_def)
  then show "pt_ok 0x80010000 [0x80020000, 0x80021000] demo_table"
    using e(2) [of 2] e(3) [of 2] by (simp add: pt_ok_def) (simp add: demo_table_def)
qed

theorem mappages_updates_translation_witness:
  "\<exists>r s' N ps' k. mappages 0x80010000 0x4000 (of_nat 1 * PGSIZE) 0x80030000 6 demo_table = Inr (r, s') \<and>
    [0x80020000, 0x80021000] = N @ ps' \<and> pt_ok 0x80010000 ps' s' \<and> same_kernel demo_table s' \<and>
    (if r = 0 then k = 1 else r = -1 \<and> k < 1 \<and> ps' = []) \<and>
    (\<forall>va' < MAXVA. entry 2 0x80010000 va' (pmem s') =
      mapped 0x4000 k 0x80030000 6 (\<lambda>x. entry 2 0x80010000 x (pmem demo_table)) va')"
  by (rule mappages_updates_translation [OF demo_table_ok(1)]) (simp_all add: demo_table_ok(2))

end
