(* ===== verification/LogSpec.thy ===== *)
theory LogSpec
  imports Log
begin

text \<open>
  What the log promises. The cache is described by the blocks that are pinned and the blocks
  whose buffers are locked; each operation of the cache is a step on this description. On
  top of it, \<open>commit\<close> is a list of block writes, and a crash between any two of them is
  repaired by \<open>recover_from_log\<close> to the state before the transaction or after all of it.
\<close>

section \<open>The cache with pinned and locked blocks\<close>

definition bears :: "u32 set \<Rightarrow> buf \<Rightarrow> bool" where
  "bears M x \<longleftrightarrow> b_dev x = 1 \<and> b_blockno x \<in> M"

definition cache_ok :: "nat \<Rightarrow> u32 set \<Rightarrow> u32 set \<Rightarrow> 'a bstate_scheme \<Rightarrow> bool" where
  "cache_ok p P L s \<longleftrightarrow> binv s \<and> held s = [] \<and> cur s = Some p \<and>
     (\<forall>b < NBUF. (sl_locked (slks s (BufSlk b)) \<longleftrightarrow> bears L (bufs s b)) \<and>
        (bears L (bufs s b) \<longrightarrow> sl_pid (slks s (BufSlk b)) = p_pid (procs s p)) \<and>
        (bears (P \<union> L) (bufs s b) \<longrightarrow> b_valid (bufs s b)) \<and>
        b_refcnt (bufs s b) = of_bool (bears P (bufs s b)) + of_bool (bears L (bufs s b))) \<and>
     (\<forall>m \<in> P \<union> L. \<exists>b < NBUF. caches 1 m (bufs s b))"

definition same_rest :: "'a bstate_scheme \<Rightarrow> 'a bstate_scheme \<Rightarrow> bool" where
  "same_rest s s' \<longleftrightarrow> bstate.more s' = bstate.more s \<and> dimage s' = dimage s \<and> cur s' = cur s"

lemma same_rest_trans: "same_rest s t \<Longrightarrow> same_rest t u \<Longrightarrow> same_rest s u"
  by (simp add: same_rest_def)

text \<open>The buffers that hold the blocks of \<open>M\<close> go on holding them.\<close>

definition keeps :: "u32 set \<Rightarrow> 'a bstate_scheme \<Rightarrow> 'a bstate_scheme \<Rightarrow> bool" where
  "keeps M s s' \<longleftrightarrow> (\<forall>c < NBUF. \<forall>k \<in> M. caches 1 k (bufs s c) \<longrightarrow> caches 1 k (bufs s' c))"

lemma keepsD: "keeps M s s' \<Longrightarrow> c < NBUF \<Longrightarrow> k \<in> M \<Longrightarrow> caches 1 k (bufs s c) \<Longrightarrow> caches 1 k (bufs s' c)"
  by (simp add: keeps_def)

lemma of_bool_small: "(of_bool a + of_bool b :: u32) \<noteq> - 1" "(of_bool a + of_bool b :: u32) = 0 \<longleftrightarrow> \<not> a \<and> \<not> b"
  "of_bool a + (1 :: u32) = 1 \<longleftrightarrow> \<not> a"
  by (cases a; cases b; simp)+

lemma cache_ok_unique:
  assumes "cache_ok p P L s" "b < NBUF" "c < NBUF" "caches 1 m (bufs s b)" "caches 1 m (bufs s c)"
  shows "c = b"
  using assms by (auto simp: cache_ok_def binv_def unique_blocks_def caches_def)

lemma cache_ok_unused:
  assumes "cache_ok p P L s" "b < NBUF"
  shows "b_refcnt (bufs s b) = 0 \<longleftrightarrow> \<not> bears (P \<union> L) (bufs s b)"
proof -
  have "b_refcnt (bufs s b) = of_bool (bears P (bufs s b)) + of_bool (bears L (bufs s b))"
    using assms by (simp add: cache_ok_def)
  then show ?thesis by (simp only: of_bool_small) (auto simp: bears_def)
qed

text \<open>A block that is not in the cache finds a free buffer as long as fewer than 30 are in use.\<close>

lemma cache_ok_room:
  assumes ok: "cache_ok p P L s" and card: "card (P \<union> L) < NBUF"
  shows "\<exists>b < NBUF. b_refcnt (bufs s b) = 0"
proof (rule ccontr)
  assume "\<not> ?thesis"
  then have all: "bears (P \<union> L) (bufs s b)" if "b < NBUF" for b
    using that cache_ok_unused [OF ok] by blast
  have "inj_on (\<lambda>b. b_blockno (bufs s b)) {..<NBUF}"
    by (rule inj_onI, rule cache_ok_unique [OF ok]) (use all in \<open>auto simp: caches_def bears_def\<close>)
  moreover have "(\<lambda>b. b_blockno (bufs s b)) ` {..<NBUF} \<subseteq> P \<union> L" using all by (auto simp: bears_def)
  moreover have "finite (P \<union> L)" by (rule finite)
  ultimately have "card {..<NBUF} \<le> card (P \<union> L)" by (rule card_inj_on_le)
  with card show False by simp
qed

lemma cached_read:
  assumes ok: "cache_ok p P L s" and m: "m \<notin> L" and room: "m \<in> P \<or> card (P \<union> L) < NBUF"
  shows "\<exists>b s'. bread 1 m s = Inr (b, s') \<and> cache_ok p P (insert m L) s' \<and> same_rest s s' \<and> b < NBUF \<and>
    caches 1 m (bufs s' b) \<and> keeps (P \<union> L) s s' \<and> dwrites s' = dwrites s \<and> (\<forall>n. logical s' 1 n = logical s 1 n)"
proof -
  have free: "\<not> sl_locked (slks s (BufSlk b)) \<and> b_refcnt (bufs s b) \<noteq> - 1" if "b < NBUF" "caches 1 m (bufs s b)" for b
    using that ok m by (auto simp: cache_ok_def caches_def bears_def of_bool_small)
  have "\<exists>b < NBUF. caches 1 m (bufs s b) \<or> b_refcnt (bufs s b) = 0"
    using room cache_ok_room [OF ok] ok by (auto simp: cache_ok_def)
  then obtain b y where r: "bread 1 m s = Inr (b, read_into b y s)" "b < NBUF" "b_valid y" "caches 1 m y"
      "b_data y = logical s 1 m" "b_next y = b_next (bufs s b)" "b_prev y = b_prev (bufs s b)"
      "if caches 1 m (bufs s b) then b_refcnt y = b_refcnt (bufs s b) + 1
       else b_refcnt y = 1 \<and> b_refcnt (bufs s b) = 0 \<and> (\<forall>c < NBUF. \<not> caches 1 m (bufs s c))"
    using bread_ok [of s p 1 m] ok free by (auto simp: cache_ok_def)
  have ref: "b_refcnt y \<noteq> 0"
    using r(8) free [OF r(2)] by (auto split: if_splits simp: eq_neg_iff_add_eq_0)
  have which: "caches 1 m (bufs s b) \<or> b_refcnt (bufs s b) = 0 \<and> (\<forall>c < NBUF. \<not> caches 1 m (bufs s c))"
    using r(8) by (auto split: if_splits)
  have inv: "binv s" using ok by (simp add: cache_ok_def)
  note k = read_into_ok [OF inv r(2) which r(3-5) ref r(6,7)]
  have bears: "bears M y \<longleftrightarrow> m \<in> M" for M using r(4) by (simp add: bears_def caches_def)
  have other: "bears (insert m L) (bufs s c) \<longleftrightarrow> bears L (bufs s c)" if "c < NBUF" "c \<noteq> b" for c
    using that which cache_ok_unique [OF ok r(2), of c m] by (auto simp: bears_def caches_def)
  have refy: "b_refcnt y = of_bool (m \<in> P) + 1"
  proof (cases "caches 1 m (bufs s b)")
    case True
    then show ?thesis using r(2,8) ok m by (auto simp: cache_ok_def bears_def caches_def)
  next
    case False
    then have "m \<notin> P" using r(8) ok by (auto simp: cache_ok_def)
    with False show ?thesis using r(8) by simp
  qed
  have keep: "keeps (P \<union> L) s (read_into b y s)"
    unfolding keeps_def
  proof (intro allI impI ballI)
    fix c k assume c: "c < NBUF" "k \<in> P \<union> L" "caches 1 k (bufs s c)"
    then have "bears (P \<union> L) (bufs s c)" by (auto simp: bears_def caches_def)
    then have "c \<noteq> b \<or> k = m" using which c cache_ok_unused [OF ok c(1)] by (auto simp: caches_def)
    then show "caches 1 k (bufs (read_into b y s) c)" using c(3) r(4) by auto
  qed
  have stay: "\<exists>c < NBUF. caches 1 n (bufs (read_into b y s) c)" if "n \<in> P \<union> insert m L" for n
  proof (cases "n = m")
    case True
    then show ?thesis using r(2,4) by auto
  next
    case False
    then have "n \<in> P \<union> L" using that by simp
    then obtain c where "c < NBUF" "caches 1 n (bufs s c)" using ok by (auto simp: cache_ok_def)
    then show ?thesis using keepsD [OF keep _ \<open>n \<in> P \<union> L\<close>] by blast
  qed
  have "cache_ok p P (insert m L) (read_into b y s)"
    unfolding cache_ok_def
  proof (intro conjI allI impI ballI)
    fix c assume c: "c < NBUF"
    show "sl_locked (slks (read_into b y s) (BufSlk c)) \<longleftrightarrow> bears (insert m L) (bufs (read_into b y s) c)"
      using ok c other by (auto simp: cache_ok_def locked_by_def bears)
    show "sl_pid (slks (read_into b y s) (BufSlk c)) = p_pid (procs (read_into b y s) p)"
      if "bears (insert m L) (bufs (read_into b y s) c)"
      using that ok c other by (auto simp: cache_ok_def locked_by_def split: if_splits)
    show "b_valid (bufs (read_into b y s) c)" if "bears (P \<union> insert m L) (bufs (read_into b y s) c)"
      using that ok c other r(3) by (auto simp: cache_ok_def bears_def split: if_splits)
    show "b_refcnt (bufs (read_into b y s) c) =
        of_bool (bears P (bufs (read_into b y s) c)) + of_bool (bears (insert m L) (bufs (read_into b y s) c))"
      using ok c other by (auto simp: cache_ok_def refy bears)
  qed (use ok k(1) stay in \<open>simp_all add: cache_ok_def\<close>)
  then show ?thesis using r k(2) keep by (intro exI [of _ b] exI [of _ "read_into b y s"]) (simp add: same_rest_def)
qed

lemma cached_data:
  assumes ok: "cache_ok p P L s" and b: "b < NBUF" "caches 1 m (bufs s b)" and m: "m \<in> P \<union> L"
  shows "b_data (bufs s b) = logical s 1 m"
proof -
  have "bears (P \<union> L) (bufs s b)" using b m by (simp add: bears_def caches_def)
  then have "b_valid (bufs s b)" using ok b(1) by (simp add: cache_ok_def)
  then show ?thesis using logical_cached [of s b 1 m] ok b by (simp add: cache_ok_def binv_def)
qed

text \<open>Changing a locked buffer's data, writing it, unpinning it, releasing it.\<close>

lemma cached_set:
  assumes ok: "cache_ok p P L s" and b: "b < NBUF" "caches 1 m (bufs s b)" and m: "m \<in> P \<union> L"
  shows "cache_ok p P L (set_data b d s)" "logical (set_data b d s) 1 n = (if n = m then d else logical s 1 n)"
    "keeps M s (set_data b d s)" "same_rest s (set_data b d s)" "dwrites (set_data b d s) = dwrites s"
proof -
  let ?t = "set_data b d s"
  have flds: "b_valid (bufs ?t c) = b_valid (bufs s c)" "b_dev (bufs ?t c) = b_dev (bufs s c)"
    "b_blockno (bufs ?t c) = b_blockno (bufs s c)" "b_refcnt (bufs ?t c) = b_refcnt (bufs s c)"
    "bears M (bufs ?t c) = bears M (bufs s c)" "caches dev k (bufs ?t c) = caches dev k (bufs s c)" for c M dev k
    by (simp_all add: set_data_def upd_buf_def bears_def caches_def)
  show "keeps M s ?t" unfolding keeps_def flds by blast
  show "same_rest s ?t" "dwrites ?t = dwrites s" by (simp_all add: same_rest_def set_data_def)
  have bear: "bears (P \<union> L) (bufs s b)" using b m by (simp add: bears_def caches_def)
  have u: "unique_blocks (bufs ?t)" using ok unfolding cache_ok_def binv_def unique_blocks_def flds by blast
  have ptr: "get_next r ?t = get_next r s" "get_prev r ?t = get_prev r s" for r
    by (simp_all add: set_data_def)
  have "clean_unused (bufs ?t) (disk_now ?t)"
    unfolding clean_unused_def
  proof (intro allI impI)
    fix c assume c: "c < NBUF" "b_refcnt (bufs ?t c) = 0 \<and> b_valid (bufs ?t c)"
    then have "c \<noteq> b" using cache_ok_unused [OF ok c(1)] bear unfolding flds by blast
    moreover have "b_data (bufs s c) = disk_now s (b_blockno (bufs s c))"
      using c ok unfolding flds by (simp add: cache_ok_def binv_def clean_unused_def)
    ultimately show "b_data (bufs ?t c) = disk_now ?t (b_blockno (bufs ?t c))" by (simp add: set_data_def upd_buf_def)
  qed
  then have "binv ?t"
    using u lru_bufs_upd [OF ptr] ok unfolding cache_ok_def binv_def flds by (simp add: set_data_def)
  then show "cache_ok p P L ?t"
    using ok unfolding cache_ok_def flds by (simp add: set_data_def)
  show "logical ?t 1 n = (if n = m then d else logical s 1 n)"
  proof (cases "n = m")
    case True
    have "b_valid (bufs s b)" using ok b(1) bear by (simp add: cache_ok_def)
    then show ?thesis using True logical_cached [OF u b(1), of 1 m] b(2) by (simp add: flds) (simp add: set_data_def upd_buf_def)
  next
    case False
    let ?in = "\<lambda>c. caches 1 n (bufs s c) \<and> b_valid (bufs s c)"
    have f: "logical ?t 1 n = (case List.find ?in [0..<NBUF] of Some c \<Rightarrow> b_data (bufs ?t c) | None \<Rightarrow> disk_now ?t n)"
      unfolding logical_def flds ..
    have d: "disk_now ?t = disk_now s" by (simp add: set_data_def)
    have e: "b_data (bufs ?t c) = b_data (bufs s c)" if "caches 1 n (bufs s c)" for c
      using that False b(2) by (auto simp: set_data_def upd_buf_def caches_def)
    show ?thesis
    proof (cases "List.find ?in [0..<NBUF]")
      case None
      then show ?thesis using False by (simp only: f logical_def [of s] d option.case if_False)
    next
      case (Some c)
      then have "caches 1 n (bufs s c)" unfolding find_upt_Some by simp
      then show ?thesis using False Some by (simp only: f logical_def [of s] e option.case if_False)
    qed
  qed
qed

lemma cached_write:
  assumes ok: "cache_ok p P L s" and b: "b < NBUF" "caches 1 m (bufs s b)" and m: "m \<in> L"
  shows "\<exists>s'. bwrite b s = Inr s' \<and> cache_ok p P L s' \<and> same_rest s s' \<and> keeps M s s' \<and>
    dwrites s' = dwrites s @ [(m, logical s 1 m)] \<and> (\<forall>n. logical s' 1 n = logical s 1 n)"
proof -
  let ?t = "s\<lparr>dwrites := dwrites s @ [(m, b_data (bufs s b))]\<rparr>"
  have bear: "bears L (bufs s b)" "b_blockno (bufs s b) = m" using b m by (auto simp: bears_def caches_def)
  then have own: "b_valid (bufs s b)" "sl_locked (slks s (BufSlk b))" "sl_pid (slks s (BufSlk b)) = p_pid (procs s p)"
    using ok b(1) by (auto simp: cache_ok_def bears_def)
  have inv: "binv s" using ok by (simp add: cache_ok_def)
  have k: "binv ?t" "\<And>n. logical ?t 1 n = logical s 1 n" using bwrite_ok [OF inv b(1) own(1) refl] bear(2) by simp_all
  have "bwrite b s = Inr ?t" using bwrite_eq [of s p b] ok own bear(2) by (simp add: cache_ok_def)
  moreover have "cache_ok p P L ?t" using ok k(1) by (simp add: cache_ok_def)
  ultimately show ?thesis using k(2) cached_data [OF ok b] m
    by (intro exI [of _ ?t]) (simp add: same_rest_def keeps_def)
qed

lemma cached_release:
  assumes ok: "cache_ok p P L s" and b: "b < NBUF" "caches 1 m (bufs s b)" and m: "m \<in> L"
    and wb: "m \<notin> P \<Longrightarrow> logical s 1 m = disk_now s m"
  shows "\<exists>s'. brelse b s = Inr s' \<and> cache_ok p P (L - {m}) s' \<and> same_rest s s' \<and> dwrites s' = dwrites s \<and>
    keeps M s s' \<and> (\<forall>n. logical s' 1 n = logical s 1 n)"
proof -
  have bear: "bears L (bufs s b)" "b_blockno (bufs s b) = m" "b_dev (bufs s b) = 1" using b m by (auto simp: bears_def caches_def)
  then have own: "sl_locked (slks s (BufSlk b))" "sl_pid (slks s (BufSlk b)) = p_pid (procs s p)"
    and ref: "b_refcnt (bufs s b) = of_bool (m \<in> P) + 1"
    using ok b(1) by (auto simp: cache_ok_def bears_def)
  have inv: "binv s" "cur s = Some p" "held s = []" using ok by (simp_all add: cache_ok_def)
  then obtain xs where xs: "lru s xs" by (auto simp: binv_def)
  have wback: "b_data (bufs s b) = disk_now s (b_blockno (bufs s b))" if "m \<notin> P"
    using wb [OF that] cached_data [OF ok b] m bear(2) by simp
  obtain s' where s': "brelse b s = Inr s'" "binv s'" "held s' = []" "cur s' = cur s" "\<And>q. p_pid (procs s' q) = p_pid (procs s q)"
      "\<And>c. content (bufs s' c) = (if c = b then content ((bufs s b)\<lparr>b_refcnt := b_refcnt (bufs s b) - 1\<rparr>) else content (bufs s c))"
      "slks s' = (slks s)(BufSlk b := (slks s (BufSlk b))\<lparr>sl_locked := False, sl_pid := 0\<rparr>)"
      "dwrites s' = dwrites s" "dimage s' = dimage s" "bstate.more s' = bstate.more s" "\<And>n. logical s' 1 n = logical s 1 n"
    using brelse_ok [OF inv b(1) own _ xs] wback unfolding ref of_bool_small by blast
  have flds: "b_valid (bufs s' c) = b_valid (bufs s c)" "b_dev (bufs s' c) = b_dev (bufs s c)"
      "b_blockno (bufs s' c) = b_blockno (bufs s c)" "b_data (bufs s' c) = b_data (bufs s c)"
      "b_refcnt (bufs s' c) = (if c = b then of_bool (m \<in> P) else b_refcnt (bufs s c))" for c
    using s'(6) [of c] ref by (simp_all add: content_def split: if_splits)
  have rel: "bears M (bufs s' c) = bears M (bufs s c)" "caches 1 k (bufs s' c) = caches 1 k (bufs s c)" for c M k
    by (simp_all add: bears_def caches_def flds)
  have other: "bears (L - {m}) (bufs s c) \<longleftrightarrow> bears L (bufs s c) \<and> c \<noteq> b" if "c < NBUF" for c
    using cache_ok_unique [OF ok b(1) that b(2)] bear by (auto simp: bears_def caches_def)
  have "cache_ok p P (L - {m}) s'"
    unfolding cache_ok_def rel flds(1)
  proof (intro conjI allI impI ballI)
    fix c assume c: "c < NBUF"
    show "sl_locked (slks s' (BufSlk c)) \<longleftrightarrow> bears (L - {m}) (bufs s c)"
      using ok c other [OF c] by (auto simp: cache_ok_def s'(7))
    show "sl_pid (slks s' (BufSlk c)) = p_pid (procs s' p)" if "bears (L - {m}) (bufs s c)"
      using that ok c other [OF c] by (auto simp: cache_ok_def s'(5,7))
    show "b_valid (bufs s c)" if "bears (P \<union> (L - {m})) (bufs s c)"
      using that ok c by (auto simp: cache_ok_def bears_def)
    show "b_refcnt (bufs s' c) = of_bool (bears P (bufs s c)) + of_bool (bears (L - {m}) (bufs s c))"
      using ok c other [OF c] bear unfolding flds by (auto simp: cache_ok_def bears_def)
  next
    fix k assume "k \<in> P \<union> (L - {m})"
    then show "\<exists>c < NBUF. caches 1 k (bufs s c)" using ok by (auto simp: cache_ok_def)
  qed (use s' inv in simp_all)
  then show ?thesis using s' rel by (intro exI [of _ s']) (simp add: same_rest_def keeps_def)
qed

lemma cached_unpin:
  assumes ok: "cache_ok p P L s" and b: "b < NBUF" "caches 1 m (bufs s b)" and m: "m \<in> L" "m \<in> P"
  shows "\<exists>s'. bunpin b s = Inr s' \<and> cache_ok p (P - {m}) L s' \<and> same_rest s s' \<and> dwrites s' = dwrites s \<and>
    keeps M s s' \<and> (\<forall>n. logical s' 1 n = logical s 1 n)"
proof -
  let ?t = "upd_buf b (\<lambda>x. x\<lparr>b_refcnt := b_refcnt x - 1\<rparr>) s"
  have flds: "b_valid (bufs ?t c) = b_valid (bufs s c)" "b_dev (bufs ?t c) = b_dev (bufs s c)"
      "b_blockno (bufs ?t c) = b_blockno (bufs s c)" "b_data (bufs ?t c) = b_data (bufs s c)"
      "b_refcnt (bufs ?t c) = (if c = b then b_refcnt (bufs s b) - 1 else b_refcnt (bufs s c))" for c
    by (simp_all add: upd_buf_def)
  have rel: "bears M (bufs ?t c) = bears M (bufs s c)" "caches dev k (bufs ?t c) = caches dev k (bufs s c)" for c M dev k
    by (simp_all only: bears_def caches_def flds)
  have bear: "bears L (bufs s b)" "bears P (bufs s b)" "b_blockno (bufs s b) = m" "b_dev (bufs s b) = 1"
    using b m by (auto simp: bears_def caches_def)
  then have ref: "b_refcnt (bufs s b) - 1 = 1" using ok b(1) by (auto simp: cache_ok_def)
  have other: "bears (P - {m}) (bufs s c) \<longleftrightarrow> bears P (bufs s c) \<and> c \<noteq> b" if "c < NBUF" for c
    using cache_ok_unique [OF ok b(1) that b(2)] bear by (auto simp: bears_def caches_def)
  have ptr: "get_next r ?t = get_next r s" "get_prev r ?t = get_prev r s" for r by simp_all
  have d: "disk_now ?t = disk_now s" by simp
  have "binv ?t"
    using lru_bufs_upd [OF ptr] ok ref
    unfolding cache_ok_def binv_def unique_blocks_def clean_unused_def flds rel d by auto
  then have "cache_ok p (P - {m}) L ?t"
    unfolding cache_ok_def rel flds using ok other ref bear
    by (auto simp: cache_ok_def) (auto simp: bears_def)
  moreover have "logical ?t 1 n = logical s 1 n" for n by (rule logical_cong) (simp_all only: flds d simp_thms)
  moreover have "bunpin b s = Inr ?t" using ok by (simp add: bunpin_def cache_ok_def with_lock_def lock_simps upd_buf_def)
  ultimately show ?thesis using rel(2) by (intro exI [of _ ?t]) (simp add: same_rest_def keeps_def)
qed

lemma cache_ok_cong:
  assumes "held t = held s" "cur t = cur s" "procs t = procs s" "slks t = slks s" "bufs t = bufs s"
    "bhead_prev t = bhead_prev s" "bhead_next t = bhead_next s" "dimage t = dimage s" "dwrites t = dwrites s"
  shows "cache_ok p P L t = cache_ok p P L s" "logical t = logical s" "disk_now t = disk_now s"
proof -
  have "get_next r t = get_next r s" "get_prev r t = get_prev r s" for r
    using assms(5-7) by (cases r; simp add: get_next.simps get_prev.simps)+
  then have "lru t xs = lru s xs" for xs by (rule lru_cong)
  moreover show d: "disk_now t = disk_now s" using assms(8,9) by (simp add: disk_now_def)
  ultimately have "binv t = binv s" unfolding binv_def assms by simp
  then show "cache_ok p P L t = cache_ok p P L s" unfolding cache_ok_def assms by simp
  show "logical t = logical s" unfolding logical_def fun_eq_iff assms d by simp
qed

section \<open>Copying one block\<close>

lemma same_rest_log:
  assumes "same_rest s s'"
  shows "log_start s' = log_start s" "log_size s' = log_size s" "log_outstanding s' = log_outstanding s"
    "log_committing s' = log_committing s" "log_dev s' = log_dev s" "lh_n s' = lh_n s" "lh_block s' = lh_block s"
    "lstate.more s' = lstate.more s"
  using assms by (cases s; cases s'; simp add: same_rest_def)+

definition log_block :: "'a lstate_scheme \<Rightarrow> nat \<Rightarrow> u32" where
  "log_block s i = log_start s + of_nat i + 1"

lemma disk_now_same_rest: "same_rest s s' \<Longrightarrow> dwrites s' = dwrites s @ w \<Longrightarrow> disk_now s' = foldl put_block (disk_now s) w"
  by (simp add: disk_now_def same_rest_def)

lemma read_two:
  assumes ok: "cache_ok p P {} s" and ne: "m1 \<noteq> m2" and card: "card P < NBUF" and room: "m2 \<in> P \<or> Suc (card P) < NBUF"
  shows "\<exists>b1 s1 b2 s2. bread 1 m1 s = Inr (b1, s1) \<and> bread 1 m2 s1 = Inr (b2, s2) \<and> same_rest s s1 \<and> same_rest s s2 \<and>
    cache_ok p P {m1, m2} s2 \<and> b1 < NBUF \<and> b2 < NBUF \<and> caches 1 m1 (bufs s2 b1) \<and> caches 1 m2 (bufs s2 b2) \<and>
    dwrites s2 = dwrites s \<and> (\<forall>n. logical s2 1 n = logical s 1 n)"
proof -
  obtain b1 s1 where r1: "bread 1 m1 s = Inr (b1, s1)" "cache_ok p P {m1} s1" "same_rest s s1" "b1 < NBUF"
      "caches 1 m1 (bufs s1 b1)" "dwrites s1 = dwrites s" "\<And>n. logical s1 1 n = logical s 1 n"
    using cached_read [OF ok, of m1] card by auto
  have "card (P \<union> {m1}) \<le> Suc (card P)" using card_Un_le [of P "{m1}"] by simp
  then obtain b2 s2 where r2: "bread 1 m2 s1 = Inr (b2, s2)" "cache_ok p P {m2, m1} s2" "same_rest s1 s2" "b2 < NBUF"
      "caches 1 m2 (bufs s2 b2)" "keeps (P \<union> {m1}) s1 s2" "dwrites s2 = dwrites s1" "\<And>n. logical s2 1 n = logical s1 1 n"
    using cached_read [OF r1(2), of m2] ne room by force
  have "caches 1 m1 (bufs s2 b1)" by (rule keepsD [OF r2(6) r1(4) _ r1(5)]) simp
  then show ?thesis using r1 r2 same_rest_trans [OF r1(3) r2(3)]
    by (intro exI [of _ b1] exI [of _ s1] exI [of _ b2] exI [of _ s2]) (simp add: insert_commute)
qed

lemma set_and_write:
  assumes ok: "cache_ok p P L s" and b: "b < NBUF" "caches 1 m (bufs s b)" and m: "m \<in> L"
  shows "\<exists>s'. bwrite b (set_data b d s) = Inr s' \<and> cache_ok p P L s' \<and> same_rest s s' \<and> keeps UNIV s s' \<and>
    dwrites s' = dwrites s @ [(m, d)] \<and> disk_now s' m = d \<and> (\<forall>n. logical s' 1 n = (if n = m then d else logical s 1 n))"
proof -
  have "m \<in> P \<union> L" using m by simp
  note t = cached_set [OF ok b this, where d = d]
  have c: "caches 1 m (bufs (set_data b d s) b)" by (rule keepsD [OF t(3) b(1) UNIV_I b(2)])
  obtain s' where s': "bwrite b (set_data b d s) = Inr s'" "cache_ok p P L s'" "same_rest (set_data b d s) s'"
      "keeps UNIV (set_data b d s) s'" "dwrites s' = dwrites (set_data b d s) @ [(m, logical (set_data b d s) 1 m)]"
      "\<And>n. logical s' 1 n = logical (set_data b d s) 1 n"
    using cached_write [OF t(1) b(1) c m] by blast
  have w: "same_rest s s'" "dwrites s' = dwrites s @ [(m, d)]" using same_rest_trans [OF t(4) s'(3)] s'(5) t(2,5) by simp_all
  have "keeps UNIV s s'" using s'(4) t(3) [of UNIV] by (simp add: keeps_def)
  then show ?thesis using s' w t(2) disk_now_same_rest [OF w] by (intro exI [of _ s']) (simp add: put_block_def)
qed

lemma write_log_one_ok:
  assumes ok: "cache_ok p P {} s" and dev: "log_dev s = 1" and src: "lh_block s i \<in> P"
    and dst: "log_block s i \<notin> P" and card: "card P < NBUF"
  shows "\<exists>s'. write_log_one i s = Inr s' \<and> cache_ok p P {} s' \<and> same_rest s s' \<and>
    dwrites s' = dwrites s @ [(log_block s i, logical s 1 (lh_block s i))] \<and>
    (\<forall>n. logical s' 1 n = (if n = log_block s i then logical s 1 (lh_block s i) else logical s 1 n))"
proof -
  let ?to = "log_block s i" and ?fr = "lh_block s i"
  have ne: "?to \<noteq> ?fr" using src dst by auto
  obtain b1 s1 b2 s2 where r: "bread 1 ?to s = Inr (b1, s1)" "bread 1 ?fr s1 = Inr (b2, s2)" "same_rest s s1" "same_rest s s2"
      "cache_ok p P {?to, ?fr} s2" "b1 < NBUF" "b2 < NBUF" "caches 1 ?to (bufs s2 b1)" "caches 1 ?fr (bufs s2 b2)"
      "dwrites s2 = dwrites s" "\<And>n. logical s2 1 n = logical s 1 n"
    using read_two [OF ok ne card] src by blast
  have d2: "b_data (bufs s2 b2) = logical s 1 ?fr" using cached_data [OF r(5,7,9)] r(11) by simp
  obtain s4 where s4: "bwrite b1 (set_data b1 (logical s 1 ?fr) s2) = Inr s4" "cache_ok p P {?to, ?fr} s4" "same_rest s2 s4"
      "keeps UNIV s2 s4" "dwrites s4 = dwrites s @ [(?to, logical s 1 ?fr)]" "disk_now s4 ?to = logical s 1 ?fr"
      "\<And>n. logical s4 1 n = (if n = ?to then logical s 1 ?fr else logical s 1 n)"
    using set_and_write [OF r(5,6,8), of "logical s 1 ?fr"] r(10,11) by auto
  note c4 = keepsD [OF s4(4) r(6) UNIV_I r(8)] keepsD [OF s4(4) r(7) UNIV_I r(9)]
  obtain s5 where s5: "brelse b2 s4 = Inr s5" "cache_ok p P ({?to, ?fr} - {?fr}) s5" "same_rest s4 s5" "keeps UNIV s4 s5"
      "dwrites s5 = dwrites s4" "\<And>n. logical s5 1 n = logical s4 1 n"
    using cached_release [OF s4(2) r(7) c4(2)] src by blast
  have L5: "{?to, ?fr} - {?fr} = {?to}" using ne by auto
  have "disk_now s5 = disk_now s4" using disk_now_same_rest [OF s5(3), of "[]"] s5(5) by simp
  then have "logical s5 1 ?to = disk_now s5 ?to" using s4(6,7) s5(6) by simp
  then obtain s6 where s6: "brelse b1 s5 = Inr s6" "cache_ok p P ({?to} - {?to}) s6" "same_rest s5 s6"
      "dwrites s6 = dwrites s5" "\<And>n. logical s6 1 n = logical s5 1 n"
    using cached_release [OF s5(2) [unfolded L5] r(6) keepsD [OF s5(4) r(6) UNIV_I c4(1)]] by auto
  have "write_log_one i s = Inr s6"
    using r(1,2) s4(1) s5(1) s6(1) dev same_rest_log [OF r(3)] d2 by (simp add: write_log_one_def log_block_def Let_def)
  moreover have "same_rest s s6" using r(4) s4(3) s5(3) s6(3) by (simp add: same_rest_def)
  ultimately show ?thesis using s6 s5(5,6) s4(5,7) by (intro exI [of _ s6]) simp
qed

lemma install_one_ok:
  assumes ok: "cache_ok p P {} s" and dev: "log_dev s = 1" and dst: "rec \<or> lh_block s i \<in> P"
    and src: "log_block s i \<notin> P" "log_block s i \<noteq> lh_block s i" "logical s 1 (log_block s i) = disk_now s (log_block s i)"
    and card: "card P < NBUF" "rec \<Longrightarrow> P = {}"
  shows "\<exists>s'. install_one rec i s = Inr s' \<and> cache_ok p (P - {lh_block s i}) {} s' \<and> same_rest s s' \<and>
    dwrites s' = dwrites s @ [(lh_block s i, disk_now s (log_block s i))] \<and>
    (\<forall>n. logical s' 1 n = (if n = lh_block s i then disk_now s (log_block s i) else logical s 1 n))"
proof -
  let ?to = "lh_block s i" and ?fr = "log_block s i" and ?d = "disk_now s (log_block s i)"
  have room: "?to \<in> P \<or> Suc (card P) < NBUF" using dst card(2) by auto
  obtain b1 s1 b2 s2 where r: "bread 1 ?fr s = Inr (b1, s1)" "bread 1 ?to s1 = Inr (b2, s2)" "same_rest s s1" "same_rest s s2"
      "cache_ok p P {?fr, ?to} s2" "b1 < NBUF" "b2 < NBUF" "caches 1 ?fr (bufs s2 b1)" "caches 1 ?to (bufs s2 b2)"
      "dwrites s2 = dwrites s" "\<And>n. logical s2 1 n = logical s 1 n"
    using read_two [OF ok src(2) card(1) room] by blast
  have d2: "b_data (bufs s2 b1) = ?d" using cached_data [OF r(5,6,8)] r(11) src(3) by simp
  obtain s4 where s4: "bwrite b2 (set_data b2 ?d s2) = Inr s4" "cache_ok p P {?fr, ?to} s4" "same_rest s2 s4"
      "keeps UNIV s2 s4" "dwrites s4 = dwrites s @ [(?to, ?d)]" "disk_now s4 ?to = ?d"
      "\<And>n. logical s4 1 n = (if n = ?to then ?d else logical s 1 n)"
    using set_and_write [OF r(5,7,9), of ?d] r(10,11) by auto
  note c4 = keepsD [OF s4(4) r(6) UNIV_I r(8)] keepsD [OF s4(4) r(7) UNIV_I r(9)]
  obtain s5 where s5: "(if \<not> rec then bunpin b2 s4 else Inr s4) = Inr s5" "cache_ok p (P - {?to}) {?fr, ?to} s5"
      "same_rest s4 s5" "keeps UNIV s4 s5" "dwrites s5 = dwrites s4" "\<And>n. logical s5 1 n = logical s4 1 n"
  proof (cases rec)
    case True
    then show ?thesis using that [of s4] s4(2) card(2) by (simp add: same_rest_def keeps_def)
  next
    case False
    then show ?thesis using that cached_unpin [OF s4(2) r(7) c4(2)] dst by auto
  qed
  have d5: "disk_now s5 = (disk_now s)(?to := ?d)"
    using disk_now_same_rest [OF same_rest_trans [OF same_rest_trans [OF r(4) s4(3)] s5(3)], of "[(?to, ?d)]"] s4(5) s5(5)
    by (simp add: put_block_def)
  have "logical s5 1 ?fr = disk_now s5 ?fr" using s4(7) s5(6) src(2,3) by (simp add: d5)
  then obtain s6 where s6: "brelse b1 s5 = Inr s6" "cache_ok p (P - {?to}) ({?fr, ?to} - {?fr}) s6" "same_rest s5 s6"
      "keeps UNIV s5 s6" "dwrites s6 = dwrites s5" "\<And>n. logical s6 1 n = logical s5 1 n"
    using cached_release [OF s5(2) r(6) keepsD [OF s5(4) r(6) UNIV_I c4(1)]] by auto
  have L6: "{?fr, ?to} - {?fr} = {?to}" using src(2) by auto
  have "disk_now s6 = disk_now s5" using disk_now_same_rest [OF s6(3), of "[]"] s6(5) by simp
  then have "logical s6 1 ?to = disk_now s6 ?to" using s4(7) s5(6) s6(6) by (simp add: d5)
  then obtain s7 where s7: "brelse b2 s6 = Inr s7" "cache_ok p (P - {?to}) ({?to} - {?to}) s7" "same_rest s6 s7"
      "dwrites s7 = dwrites s6" "\<And>n. logical s7 1 n = logical s6 1 n"
    using cached_release [OF s6(2) [unfolded L6] r(7) keepsD [OF s6(4) r(7) UNIV_I keepsD [OF s5(4) r(7) UNIV_I c4(2)]]] by auto
  have "install_one rec i s = Inr s7"
    using r(1,2) s4(1) s5(1) s6(1) s7(1) dev same_rest_log [OF r(3)] d2
    by (simp add: install_one_def log_block_def Let_def)
  moreover have "same_rest s s7" using r(4) s4(3) s5(3) s6(3) s7(3) by (simp add: same_rest_def)
  ultimately show ?thesis using s7 s6(5,6) s5(5,6) s4(5,7) by (intro exI [of _ s7]) simp
qed

section \<open>Adding a block to the transaction\<close>

lemma log_index_fresh: "(\<And>j. i \<le> j \<Longrightarrow> j < i + k \<Longrightarrow> f j \<noteq> b) \<Longrightarrow> log_index f b k i = i + k"
  by (induction k arbitrary: i) auto

lemma log_index_found:
  "\<exists>j. i \<le> j \<and> j < i + k \<and> f j = b \<Longrightarrow> log_index f b k i < i + k \<and> f (log_index f b k i) = b"
proof (induction k arbitrary: i)
  case (Suc k)
  show ?case
  proof (cases "f i = b")
    case False
    obtain j where "i \<le> j" "j < i + Suc k" "f j = b" using Suc.prems by blast
    then have "\<exists>j. Suc i \<le> j \<and> j < Suc i + k \<and> f j = b" using False by (metis Suc_leI add_Suc_shift le_neq_implies_less)
    from Suc.IH [OF this] False show ?thesis by simp
  qed simp
qed auto

text \<open>
  An open transaction: the header names the pinned blocks, each of them once, and fewer than
  the log area holds.
\<close>

definition txn :: "nat \<Rightarrow> u32 set \<Rightarrow> u32 set \<Rightarrow> 'a lstate_scheme \<Rightarrow> bool" where
  "txn p P L s \<longleftrightarrow> cache_ok p P L s \<and> P = lh_block s ` {..<lh_len s} \<and> inj_on (lh_block s) {..<lh_len s} \<and>
     lh_n s = of_nat (lh_len s) \<and> lh_len s < LOGSIZE \<and> log_size s = 30 \<and> 1 \<le> sint (log_outstanding s)"

definition same_env :: "'a lstate_scheme \<Rightarrow> 'a lstate_scheme \<Rightarrow> bool" where
  "same_env s t \<longleftrightarrow> lstate.more t = lstate.more s \<and> dwrites t = dwrites s \<and> dimage t = dimage s \<and> cur t = cur s \<and> pmem t = pmem s"

lemma txn_rest:
  assumes "txn p P L s" "cache_ok p P M t" "same_rest s t"
  shows "txn p P M t"
  using assms same_rest_log [OF assms(3)] by (simp add: txn_def lh_len_def)

lemma cached_pin:
  assumes ok: "cache_ok p P L s" and b: "b < NBUF" "caches 1 m (bufs s b)" and m: "m \<in> L" "m \<notin> P"
  defines "t \<equiv> upd_buf b (\<lambda>x. x\<lparr>b_refcnt := b_refcnt x + 1\<rparr>) s"
  shows "cache_ok p (insert m P) L t" "keeps M s t" "logical t 1 n = logical s 1 n"
proof -
  let ?t = "upd_buf b (\<lambda>x. x\<lparr>b_refcnt := b_refcnt x + 1\<rparr>) s"
  have flds: "b_valid (bufs ?t c) = b_valid (bufs s c)" "b_dev (bufs ?t c) = b_dev (bufs s c)"
      "b_blockno (bufs ?t c) = b_blockno (bufs s c)" "b_data (bufs ?t c) = b_data (bufs s c)"
      "b_refcnt (bufs ?t c) = (if c = b then b_refcnt (bufs s b) + 1 else b_refcnt (bufs s c))" for c
    by (simp_all add: upd_buf_def)
  have rel: "bears M (bufs ?t c) = bears M (bufs s c)" "caches dev k (bufs ?t c) = caches dev k (bufs s c)" for c M dev k
    by (simp_all only: bears_def caches_def flds)
  have bear: "bears L (bufs s b)" "\<not> bears P (bufs s b)" "b_blockno (bufs s b) = m" "b_dev (bufs s b) = 1"
    using b m by (auto simp: bears_def caches_def)
  then have ref: "b_refcnt (bufs s b) = 1" "b_valid (bufs s b)" using ok b(1) by (auto simp: cache_ok_def bears_def)
  have other: "bears (insert m P) (bufs s c) \<longleftrightarrow> bears P (bufs s c) \<or> c = b" if "c < NBUF" for c
    using cache_ok_unique [OF ok b(1) that b(2)] bear by (auto simp: bears_def caches_def)
  have ptr: "get_next r ?t = get_next r s" "get_prev r ?t = get_prev r s" for r by simp_all
  have d: "disk_now ?t = disk_now s" by simp
  have "binv ?t"
    using lru_bufs_upd [OF ptr] ok ref
    unfolding cache_ok_def binv_def unique_blocks_def clean_unused_def flds rel d by auto
  then show "cache_ok p (insert m P) L t"
    unfolding t_def cache_ok_def rel flds using ok other ref bear b m(1)
    by (auto simp: cache_ok_def) (auto simp: bears_def)
  show "logical t 1 n = logical s 1 n" unfolding t_def by (rule logical_cong) (simp_all only: flds d simp_thms)
  show "keeps M s t" unfolding t_def keeps_def rel by blast
qed

lemma sint_small_nat: "n \<le> 100 \<Longrightarrow> sint (of_nat n :: c_int) = int n"
  using sint_word_of_int [of "int n", where 'a = 32] by simp

lemma lh_len_held [simp]: "lh_len (s\<lparr>held := h\<rparr>) = lh_len s"
  by (simp add: lh_len_def)

lemma cached_log_write:
  fixes s :: "'a lstate_scheme"
  assumes t: "txn p P L s" and n: "lh_len s < 29" and b: "b < NBUF" "caches 1 m (bufs s b)" and m: "m \<in> L"
  shows "\<exists>s' :: 'a lstate_scheme. log_write b s = Inr s' \<and> txn p (insert m P) L s' \<and> same_env s s' \<and> keeps M s s' \<and>
    (\<forall>k. logical s' 1 k = logical s 1 k)"
proof -
  let ?n = "lh_len s" and ?i = "log_index (lh_block s) m (lh_len s) 0"
  have ok: "cache_ok p P L s" "held s = []" and P: "P = lh_block s ` {..<?n}" and inj: "inj_on (lh_block s) {..<?n}"
    and ln: "lh_n s = of_nat ?n" and rest: "log_size s = 30" "1 \<le> sint (log_outstanding s)"
    using t by (auto simp: txn_def cache_ok_def)
  have sn: "sint (lh_n s) = int ?n" using ln sint_small_nat [of ?n] n by simp
  have bno: "b_blockno (bufs s b) = m" using b(2) by (simp add: caches_def)
  show ?thesis
  proof (cases "m \<in> P")
    case True
    then have "\<exists>j. 0 \<le> j \<and> j < 0 + ?n \<and> lh_block s j = m" unfolding P by auto
    from log_index_found [OF this] have i: "?i < ?n" "lh_block s ?i = m" by simp_all
    have upd: "(lh_block s)(?i := m) = lh_block s" using i(2) by auto
    have w: "log_write b s = Inr s"
      using ok(2) sn n rest i(1) bno by (simp add: log_write_def lock_simps Let_def upd)
    show ?thesis using w t True by (intro exI [of _ s]) (simp add: same_env_def keeps_def insert_absorb)
  next
    case False
    then have i: "?i = ?n" using log_index_fresh [of 0 ?n "lh_block s" m] unfolding P by auto
    let ?u = "upd_buf b (\<lambda>x. x\<lparr>b_refcnt := b_refcnt x + 1\<rparr>) s"
    let ?t = "?u\<lparr>lh_block := (lh_block s)(?n := m), lh_n := lh_n s + 1\<rparr>"
    have w: "log_write b s = Inr ?t"
      using ok(2) sn n rest i bno
      by (simp add: log_write_def lock_simps Let_def bpin_def with_lock_def) (simp add: upd_buf_def)
    note c = cached_pin [OF ok(1) b m False]
    have g: "cache_ok p (insert m P) L ?t" "logical ?t = logical ?u" using cache_ok_cong [of ?t ?u] c(1) by simp_all
    have lt: "lh_n ?t = of_nat (Suc ?n)" using ln by simp
    have "nat (sint (of_nat (Suc ?n) :: c_int)) = Suc ?n" by (subst sint_small_nat) (use n in simp_all)
    then have l: "lh_len ?t = Suc ?n" unfolding lh_len_def [of ?t] lt .
    let ?f = "(lh_block s)(?n := m)"
    have im: "?f ` {..<?n} = P" unfolding P by (rule image_cong) auto
    have "inj_on ?f {..<?n} = inj_on (lh_block s) {..<?n}" by (rule inj_on_cong) auto
    then have "inj_on ?f (insert ?n {..<?n})" using inj False im by (simp only: inj_on_insert) simp
    moreover have fb: "lh_block ?t = ?f" by simp
    ultimately have "inj_on (lh_block ?t) {..<lh_len ?t}" unfolding l lessThan_Suc by (simp only: fb)
    moreover have "insert m P = lh_block ?t ` {..<lh_len ?t}" unfolding l lessThan_Suc fb image_insert im by simp
    moreover have "log_size ?t = 30" "log_outstanding ?t = log_outstanding s" using rest by (simp_all add: upd_buf_def)
    ultimately have "txn p (insert m P) L ?t" unfolding txn_def using g(1) lt l n rest(2) by simp
    moreover have "keeps M s ?t" using c(2) [of M] by (simp add: keeps_def)
    ultimately show ?thesis using w g(2) c(3) by (intro exI [of _ ?t]) (simp add: same_env_def upd_buf_def)
  qed
qed

section \<open>What a disk stands for\<close>

text \<open>
  A disk with a log at block \<open>st\<close> stands for the disk that recovery makes of it: a block that
  the header names has the contents of its log block.
\<close>

definition hdr_n :: "u32 \<Rightarrow> (u32 \<Rightarrow> u8 list) \<Rightarrow> nat" where
  "hdr_n st d = nat (sint (get32 (d st) 0))"

definition hdr_block :: "u32 \<Rightarrow> (u32 \<Rightarrow> u8 list) \<Rightarrow> nat \<Rightarrow> u32" where
  "hdr_block st d i = get32 (d st) (4 + 4 * i)"

definition in_log :: "u32 \<Rightarrow> u32 \<Rightarrow> bool" where
  "in_log st m \<longleftrightarrow> unat (m - st) \<le> LOGSIZE"

definition recovered :: "u32 \<Rightarrow> (u32 \<Rightarrow> u8 list) \<Rightarrow> u32 \<Rightarrow> u8 list" where
  "recovered st d m =
     (case List.find (\<lambda>i. hdr_block st d i = m) [0..<hdr_n st d] of
        Some i \<Rightarrow> d (st + of_nat i + 1)
      | None \<Rightarrow> d m)"

definition blocks_ok :: "u32 \<Rightarrow> nat \<Rightarrow> (nat \<Rightarrow> u32) \<Rightarrow> bool" where
  "blocks_ok st n f \<longleftrightarrow> n < LOGSIZE \<and> inj_on f {..<n} \<and> (\<forall>i < n. \<not> in_log st (f i))"

definition disk_ok :: "u32 \<Rightarrow> (u32 \<Rightarrow> u8 list) \<Rightarrow> bool" where
  "disk_ok st d \<longleftrightarrow> length (d st) = BSIZE \<and> blocks_ok st (hdr_n st d) (hdr_block st d)"

lemma in_log_header [simp]: "in_log st st"
  by (simp add: in_log_def)

lemma outside_log: "\<not> in_log st (st + 31)"
  by (simp add: in_log_def)

lemma log_block_offset:
  assumes "i < LOGSIZE"
  shows "unat (st + of_nat i + 1 - st :: u32) = Suc i"
proof -
  have "st + of_nat i + 1 - st = (of_nat (Suc i) :: u32)" by simp
  moreover have "unat (of_nat (Suc i) :: u32) = Suc i" by (rule unat_of_nat_lt) (use assms in simp)
  ultimately show ?thesis by presburger
qed

lemma in_log_block: "i < LOGSIZE \<Longrightarrow> in_log st (st + of_nat i + 1)"
  unfolding in_log_def log_block_offset by simp

lemma log_block_inj:
  assumes "i < LOGSIZE" "j < LOGSIZE" "st + of_nat i + 1 = (st + of_nat j + 1 :: u32)"
  shows "i = j"
  using log_block_offset [OF assms(1), of st] log_block_offset [OF assms(2), of st] assms(3) by simp

lemma log_block_header: "i < LOGSIZE \<Longrightarrow> st + of_nat i + 1 \<noteq> (st :: u32)"
  using log_block_offset [of i st] by (metis diff_self nat.distinct(1) unsigned_0)

lemma hdr_cong: "d' st = d st \<Longrightarrow> hdr_n st d' = hdr_n st d \<and> hdr_block st d' = hdr_block st d"
  by (simp add: hdr_n_def hdr_block_def fun_eq_iff)

text \<open>Installing a block of the header does not change what the disk stands for.\<close>

lemma recovered_install:
  assumes ok: "disk_ok st d" and i: "i < hdr_n st d" and m: "\<not> in_log st m"
  shows "recovered st (d(hdr_block st d i := d (st + of_nat i + 1))) m = recovered st d m"
    "disk_ok st (d(hdr_block st d i := d (st + of_nat i + 1)))"
proof -
  let ?d = "d(hdr_block st d i := d (st + of_nat i + 1))"
  have out: "\<not> in_log st (hdr_block st d i)" and n: "hdr_n st d < LOGSIZE"
    using ok i by (auto simp: disk_ok_def blocks_ok_def)
  then have st: "?d st = d st" by auto
  note h = hdr_cong [of ?d st d, OF st]
  have lb: "?d (st + of_nat j + 1) = d (st + of_nat j + 1)" if "j < LOGSIZE" for j
    using in_log_block [OF that, of st] out by auto
  show "disk_ok st ?d" using ok h st by (simp add: disk_ok_def)
  show "recovered st ?d m = recovered st d m"
  proof (cases "List.find (\<lambda>i. hdr_block st d i = m) [0..<hdr_n st d]")
    case None
    then have "m \<noteq> hdr_block st d i" using i by (auto simp: find_none)
    then show ?thesis using None h by (simp add: recovered_def)
  next
    case (Some j)
    then have "j < LOGSIZE" using find_in [OF Some] n by auto
    then show ?thesis using Some h lb by (simp add: recovered_def)
  qed
qed

lemma recovered_empty: "hdr_n st d = 0 \<Longrightarrow> recovered st d m = d m"
  by (simp add: recovered_def)

lemma length_head_data [simp]:
  assumes "length d = BSIZE" "nat (sint n) \<le> LOGSIZE"
  shows "length (head_data n f d) = BSIZE"
proof -
  have "length (fold (\<lambda>i d. put32 d (4 + 4 * i) (f i)) [0..<k] (put32 d 0 n)) = BSIZE" if "k \<le> LOGSIZE" for k
    using that by (induction k) (simp_all add: assms(1))
  then show ?thesis using assms(2) by (simp add: head_data_def)
qed

lemma head_data_get:
  assumes "length d = BSIZE" "nat (sint n) \<le> LOGSIZE"
  shows "get32 (head_data n f d) 0 = n" "i < nat (sint n) \<Longrightarrow> get32 (head_data n f d) (4 + 4 * i) = f i"
proof -
  let ?e = "\<lambda>k. fold (\<lambda>i d. put32 d (4 + 4 * i) (f i)) [0..<k] (put32 d 0 n)"
  have l: "length (?e k) = BSIZE" if "k \<le> LOGSIZE" for k
    using that by (induction k) (simp_all add: assms(1))
  have "get32 (?e k) 0 = n" if "k \<le> LOGSIZE" for k
    using that by (induction k) (simp_all add: assms(1) l get32_put32_other)
  then show "get32 (head_data n f d) 0 = n" using assms(2) by (simp add: head_data_def)
  have "i < k \<Longrightarrow> get32 (?e k) (4 + 4 * i) = f i" if "k \<le> LOGSIZE" for k
    using that
  proof (induction k)
    case (Suc k)
    then show ?case by (cases "i = k") (simp_all add: l get32_put32_other)
  qed simp
  then show "get32 (head_data n f d) (4 + 4 * i) = f i" if "i < nat (sint n)"
    using assms(2) that by (simp add: head_data_def)
qed

text \<open>Writing a header makes the disk stand for the contents of the log blocks it names.\<close>

lemma recovered_header:
  assumes "length h = BSIZE" "blocks_ok st (nat (sint n)) f" and m: "\<not> in_log st m"
  shows "disk_ok st (d(st := head_data n f h))"
    "recovered st (d(st := head_data n f h)) m =
      (case List.find (\<lambda>i. f i = m) [0..<nat (sint n)] of Some i \<Rightarrow> d (st + of_nat i + 1) | None \<Rightarrow> d m)"
proof -
  let ?d = "d(st := head_data n f h)"
  have n: "nat (sint n) < LOGSIZE" using assms(2) by (simp add: blocks_ok_def)
  have h: "hdr_n st ?d = nat (sint n)" "\<And>i. i < nat (sint n) \<Longrightarrow> hdr_block st ?d i = f i"
    using head_data_get [OF assms(1)] n by (simp_all add: hdr_n_def hdr_block_def)
  then have "inj_on (hdr_block st ?d) {..<nat (sint n)} = inj_on f {..<nat (sint n)}" by (intro inj_on_cong) simp
  then show "disk_ok st ?d" using assms(1,2) n h by (simp add: disk_ok_def blocks_ok_def)
  have f: "List.find (\<lambda>i. hdr_block st ?d i = m) [0..<nat (sint n)] = List.find (\<lambda>i. f i = m) [0..<nat (sint n)]"
    by (rule find_cong) (use h(2) in auto)
  have "m \<noteq> st" using m by auto
  moreover have "st + of_nat i + 1 \<noteq> st" if "List.find (\<lambda>i. f i = m) [0..<nat (sint n)] = Some i" for i
    using log_block_header [of i st] find_in [OF that] n by simp
  ultimately show "recovered st ?d m = (case List.find (\<lambda>i. f i = m) [0..<nat (sint n)] of Some i \<Rightarrow> d (st + of_nat i + 1) | None \<Rightarrow> d m)"
    unfolding recovered_def h(1) f by (auto split: option.split)
qed

section \<open>The loops\<close>

lemma put_blocks_other: "m \<notin> fst ` set ws \<Longrightarrow> foldl put_block d ws m = d m"
  by (induction ws arbitrary: d) (auto simp: put_block_def)

lemma log_block_same_rest: "same_rest s s' \<Longrightarrow> log_block s' i = log_block s i"
  by (simp add: log_block_def same_rest_log)

definition log_writes :: "'a lstate_scheme \<Rightarrow> nat \<Rightarrow> (u32 \<times> u8 list) list" where
  "log_writes s k = map (\<lambda>i. (log_block s i, logical s 1 (lh_block s i))) [0..<k]"

lemma write_log_ok:
  assumes ok: "cache_ok p P {} s" and dev: "log_dev s = 1" and card: "card P < NBUF"
    and bl: "\<forall>i < k. lh_block s i \<in> P \<and> log_block s i \<notin> P"
  shows "\<exists>s'. foldE write_log_one [0..<k] s = Inr s' \<and> cache_ok p P {} s' \<and> same_rest s s' \<and>
    dwrites s' = dwrites s @ log_writes s k \<and> logical s' 1 = foldl put_block (logical s 1) (log_writes s k)"
  using bl
proof (induction k)
  case 0
  then show ?case using ok by (simp add: log_writes_def same_rest_def)
next
  case (Suc k)
  then obtain t where t: "foldE write_log_one [0..<k] s = Inr t" "cache_ok p P {} t" "same_rest s t"
      "dwrites t = dwrites s @ log_writes s k" "logical t 1 = foldl put_block (logical s 1) (log_writes s k)"
    using less_SucI by blast
  note l = same_rest_log [OF t(3)]
  have keep: "logical t 1 (lh_block s k) = logical s 1 (lh_block s k)"
  proof -
    have "lh_block s k \<noteq> log_block s i" if "i < k" for i using Suc.prems that by (metis less_SucI lessI)
    then have "lh_block s k \<notin> log_block s ` {..<k}" by blast
    then show ?thesis unfolding t(5)
      by (intro put_blocks_other) (simp add: log_writes_def image_image atLeast0LessThan)
  qed
  have pre: "log_dev t = 1" "lh_block t k \<in> P" "log_block t k \<notin> P" using Suc.prems dev l log_block_same_rest [OF t(3)] by simp_all
  obtain u where u: "write_log_one k t = Inr u" "cache_ok p P {} u" "same_rest t u"
      "dwrites u = dwrites t @ [(log_block s k, logical s 1 (lh_block s k))]"
      "\<And>n. logical u 1 n = (if n = log_block s k then logical s 1 (lh_block s k) else logical t 1 n)"
    using write_log_one_ok [OF t(2) pre card] unfolding log_block_same_rest [OF t(3)] l keep by blast
  have "logical u 1 = put_block (logical t 1) (log_block s k, logical s 1 (lh_block s k))"
    using u(5) by (auto simp: put_block_def fun_eq_iff)
  then show ?case using t u same_rest_trans [OF t(3) u(3)]
    by (intro exI [of _ u]) (simp add: foldE_append log_writes_def)
qed

definition install_writes :: "'a lstate_scheme \<Rightarrow> nat \<Rightarrow> (u32 \<times> u8 list) list" where
  "install_writes s k = map (\<lambda>i. (lh_block s i, disk_now s (log_block s i))) [0..<k]"

lemma install_trans_ok:
  assumes ok: "cache_ok p P {} s" and dev: "log_dev s = 1" and card: "card P < NBUF" "rec \<Longrightarrow> P = {}"
    and bl: "blocks_ok (log_start s) n (lh_block s)"
    and dst: "\<not> rec \<Longrightarrow> \<forall>i < n. lh_block s i \<in> P"
    and src: "\<forall>m. in_log (log_start s) m \<longrightarrow> m \<notin> P \<and> logical s 1 m = disk_now s m"
    and k: "k \<le> n"
  shows "\<exists>s'. foldE (install_one rec) [0..<k] s = Inr s' \<and> cache_ok p (P - lh_block s ` {..<k}) {} s' \<and> same_rest s s' \<and>
    dwrites s' = dwrites s @ install_writes s k \<and> logical s' 1 = foldl put_block (logical s 1) (install_writes s k)"
  using k
proof (induction k)
  case 0
  then show ?case using ok by (simp add: install_writes_def same_rest_def)
next
  case (Suc k)
  then obtain t where t: "foldE (install_one rec) [0..<k] s = Inr t" "cache_ok p (P - lh_block s ` {..<k}) {} t" "same_rest s t"
      "dwrites t = dwrites s @ install_writes s k" "logical t 1 = foldl put_block (logical s 1) (install_writes s k)"
    using Suc_leD by blast
  note l = same_rest_log [OF t(3)] and d = disk_now_same_rest [OF t(3,4)]
  have kn: "k < n" "k < LOGSIZE" using Suc.prems bl by (auto simp: blocks_ok_def)
  have lb: "in_log (log_start s) (log_block s k)" using in_log_block [OF kn(2)] by (simp add: log_block_def)
  have home: "\<not> in_log (log_start s) (lh_block s i)" if "i \<le> k" for i using that kn bl by (auto simp: blocks_ok_def)
  have "log_block s k \<notin> fst ` set (install_writes s k)" using lb home by (auto simp: install_writes_def)
  then have same: "logical t 1 (log_block s k) = disk_now s (log_block s k)" "disk_now t (log_block s k) = disk_now s (log_block s k)"
    using src lb unfolding t(5) d by (simp_all add: put_blocks_other)
  have ne: "log_block s k \<noteq> lh_block s k" using lb home by auto
  have "lh_block s k \<notin> lh_block s ` {..<k}"
    using inj_on_image_mem_iff [of "lh_block s" "{..<n}" k "{..<k}"] kn(1) bl by (simp add: blocks_ok_def subset_iff)
  then have in_P: "rec \<or> lh_block s k \<in> P - lh_block s ` {..<k}" using dst kn(1) by blast
  let ?P = "P - lh_block s ` {..<k}"
  have "card ?P \<le> card P" by (rule card_mono) auto
  then have P: "card ?P < NBUF" "rec \<Longrightarrow> ?P = {}" using card by simp_all
  have pre: "log_dev t = 1" "rec \<or> lh_block t k \<in> ?P" "log_block t k \<notin> ?P" "log_block t k \<noteq> lh_block t k"
      "logical t 1 (log_block t k) = disk_now t (log_block t k)"
    using dev in_P ne same src lb l log_block_same_rest [OF t(3)] by simp_all
  obtain u where u: "install_one rec k t = Inr u" "cache_ok p (P - lh_block s ` {..<k} - {lh_block s k}) {} u" "same_rest t u"
      "dwrites u = dwrites t @ [(lh_block s k, disk_now s (log_block s k))]"
      "\<And>n. logical u 1 n = (if n = lh_block s k then disk_now s (log_block s k) else logical t 1 n)"
    using install_one_ok [OF t(2) pre P] unfolding log_block_same_rest [OF t(3)] l same by blast
  have P': "P - lh_block s ` {..<k} - {lh_block s k} = P - lh_block s ` {..<Suc k}" by (auto simp: lessThan_Suc)
  have "logical u 1 = put_block (logical t 1) (lh_block s k, disk_now s (log_block s k))"
    using u(5) by (auto simp: put_block_def fun_eq_iff)
  then show ?case using t u(1,3,4) u(2) [unfolded P'] same_rest_trans [OF t(3) u(3)]
    by (intro exI [of _ u]) (simp add: foldE_append install_writes_def)
qed

lemma write_head_ok:
  assumes ok: "cache_ok p P {} s" and dev: "log_dev s = 1" and st: "log_start s \<notin> P" and card: "card P < NBUF"
  shows "\<exists>s'. write_head s = Inr s' \<and> cache_ok p P {} s' \<and> same_rest s s' \<and>
    dwrites s' = dwrites s @ [(log_start s, head_data (lh_n s) (lh_block s) (logical s 1 (log_start s)))] \<and>
    logical s' 1 = (logical s 1)(log_start s := head_data (lh_n s) (lh_block s) (logical s 1 (log_start s)))"
proof -
  let ?st = "log_start s" and ?h = "head_data (lh_n s) (lh_block s) (logical s 1 (log_start s))"
  obtain b s1 where r: "bread 1 ?st s = Inr (b, s1)" "cache_ok p P {?st} s1" "same_rest s s1" "b < NBUF"
      "caches 1 ?st (bufs s1 b)" "dwrites s1 = dwrites s" "\<And>n. logical s1 1 n = logical s 1 n"
    using cached_read [OF ok, of ?st] card by auto
  have d: "b_data (bufs s1 b) = logical s 1 ?st" using cached_data [OF r(2,4,5)] r(7) by simp
  obtain s2 where s2: "bwrite b (set_data b ?h s1) = Inr s2" "cache_ok p P {?st} s2" "same_rest s1 s2" "keeps UNIV s1 s2"
      "dwrites s2 = dwrites s @ [(?st, ?h)]" "disk_now s2 ?st = ?h"
      "\<And>n. logical s2 1 n = (if n = ?st then ?h else logical s 1 n)"
    using set_and_write [OF r(2,4,5), of ?h] r(6,7) by auto
  have e: "logical s2 1 ?st = disk_now s2 ?st" using s2(6,7) by simp
  obtain s3 where s3: "brelse b s2 = Inr s3" "cache_ok p P ({?st} - {?st}) s3" "same_rest s2 s3" "dwrites s3 = dwrites s2"
      "\<And>n. logical s3 1 n = logical s2 1 n"
    using cached_release [OF s2(2) r(4) keepsD [OF s2(4) r(4) UNIV_I r(5)] singletonI e] by blast
  have "write_head s = Inr s3"
    using r(1) s2(1) s3(1) dev same_rest_log [OF r(3)] d by (simp add: write_head_def Let_def)
  moreover have "same_rest s s3" using r(3) s2(3) s3(3) by (simp add: same_rest_def)
  ultimately show ?thesis using s3 s2(5,7) by (intro exI [of _ s3]) (simp add: fun_eq_iff)
qed

section \<open>Recovery and commit\<close>

lemma read_head_ok:
  assumes ok: "cache_ok p {} {} s" and dev: "log_dev s = 1" and hd: "hdr_n (log_start s) (disk_now s) \<le> LOGSIZE"
    and cl: "logical s 1 (log_start s) = disk_now s (log_start s)"
  shows "\<exists>s'. read_head s = Inr s' \<and> cache_ok p {} {} s' \<and> dwrites s' = dwrites s \<and> dimage s' = dimage s \<and> logical s' 1 = logical s 1 \<and>
    log_start s' = log_start s \<and> log_dev s' = 1 \<and> lh_len s' = hdr_n (log_start s) (disk_now s) \<and>
    (\<forall>i < lh_len s'. lh_block s' i = hdr_block (log_start s) (disk_now s) i)"
proof -
  let ?st = "log_start s" and ?d = "disk_now s (log_start s)"
  obtain b s1 where r: "bread 1 ?st s = Inr (b, s1)" "cache_ok p {} {?st} s1" "same_rest s s1" "b < NBUF"
      "caches 1 ?st (bufs s1 b)" "dwrites s1 = dwrites s" "\<And>n. logical s1 1 n = logical s 1 n"
    using cached_read [OF ok, of ?st] by auto
  note l = same_rest_log [OF r(3)]
  define f where "f = fold (\<lambda>i f. f(i := get32 ?d (4 + 4 * i))) [0..<hdr_n ?st (disk_now s)] (lh_block s)"
  define s2 where "s2 = s1\<lparr>lh_n := get32 ?d 0, lh_block := f\<rparr>"
  have d: "b_data (bufs s1 b) = ?d" using cached_data [OF r(2,4,5)] r(7) cl by simp
  have k: "cache_ok p {} {?st} s2" "logical s2 = logical s1" "disk_now s2 = disk_now s1"
    using cache_ok_cong [of s2 s1] r(2) by (simp_all add: s2_def)
  have "disk_now s1 = disk_now s" using disk_now_same_rest [OF r(3), of "[]"] r(6) by simp
  then have e: "logical s2 1 ?st = disk_now s2 ?st" using k(2,3) r(7) cl by simp
  have c: "caches 1 ?st (bufs s2 b)" using r(5) by (simp add: s2_def)
  obtain s3 where s3: "brelse b s2 = Inr s3" "cache_ok p {} ({?st} - {?st}) s3" "same_rest s2 s3" "dwrites s3 = dwrites s2"
      "\<And>n. logical s3 1 n = logical s2 1 n"
    using cached_release [OF k(1) r(4) c singletonI e] by blast
  note l3 = same_rest_log [OF s3(3)]
  have len: "lh_len (s1\<lparr>lh_n := get32 ?d 0\<rparr>) = hdr_n ?st (disk_now s)" by (simp add: lh_len_def hdr_n_def)
  have "read_head s = Inr s3"
    using r(1) s3(1) dev d l hd len by (simp add: read_head_def Let_def s2_def f_def)
  moreover have "fold (\<lambda>i f. f(i := get32 ?d (4 + 4 * i))) [0..<k] g i = hdr_block ?st (disk_now s) i" if "i < k" for i k g
    using that by (induction k) (auto simp: hdr_block_def less_Suc_eq)
  moreover have "lh_len s3 = hdr_n ?st (disk_now s)" using l3 by (simp add: lh_len_def s2_def hdr_n_def)
  ultimately show ?thesis using s3 k(2) r(3,6,7) l l3 dev
    by (intro exI [of _ s3]) (simp add: s2_def f_def fun_eq_iff same_rest_def)
qed

definition recovery_writes :: "u32 \<Rightarrow> (u32 \<Rightarrow> u8 list) \<Rightarrow> (u32 \<times> u8 list) list" where
  "recovery_writes st d =
     map (\<lambda>i. (hdr_block st d i, d (st + of_nat i + 1))) [0..<hdr_n st d] @ [(st, put32 (d st) 0 0)]"

lemma unpinned_clean:
  assumes ok: "cache_ok p P {} s" and m: "m \<notin> P"
  shows "logical s 1 m = disk_now s m"
proof (cases "\<exists>b < NBUF. caches 1 m (bufs s b)")
  case True
  then obtain b where b: "b < NBUF" "caches 1 m (bufs s b)" by blast
  have "b_refcnt (bufs s b) = 0" using cache_ok_unused [OF ok b(1)] b(2) m by (auto simp: bears_def caches_def)
  then show ?thesis using logical_cached [of s b 1 m] ok b
    by (auto simp: cache_ok_def binv_def clean_unused_def caches_def)
next
  case False
  then show ?thesis by (intro logical_uncached) blast
qed

lemma head_data_0 [simp]: "head_data 0 f d = put32 d 0 0"
  by (simp add: head_data_def)

lemma initlog_ok:
  assumes ok: "cache_ok p {} {} r" and d: "disk_ok st (disk_now r)"
  shows "\<exists>r'. initlog 1 st nlog r = Inr r' \<and> cache_ok p {} {} r' \<and> dimage r' = dimage r \<and> lh_n r' = 0 \<and>
    log_start r' = st \<and> dwrites r' = dwrites r @ recovery_writes st (disk_now r)"
proof -
  let ?d = "disk_now r"
  define r0 where "r0 = r\<lparr>log_start := st, log_size := nlog, log_dev := 1\<rparr>"
  have k0: "cache_ok p {} {} r0" "logical r0 = logical r" "disk_now r0 = disk_now r"
    using cache_ok_cong [of r0 r] ok by (simp_all add: r0_def)
  have f0: "log_start r0 = st" "log_dev r0 = 1" "dwrites r0 = dwrites r" "dimage r0 = dimage r" by (simp_all add: r0_def)
  have n: "hdr_n st ?d < LOGSIZE" and bl: "blocks_ok st (hdr_n st ?d) (hdr_block st ?d)"
    using d by (auto simp: disk_ok_def blocks_ok_def)
  have hd: "hdr_n (log_start r0) (disk_now r0) \<le> LOGSIZE" "logical r0 1 (log_start r0) = disk_now r0 (log_start r0)"
    using n unpinned_clean [OF k0(1)] by (simp_all add: f0 k0(3))
  obtain r1 where r1: "read_head r0 = Inr r1" "cache_ok p {} {} r1" "dwrites r1 = dwrites r" "dimage r1 = dimage r"
      "logical r1 1 = logical r0 1" "log_start r1 = st" "log_dev r1 = 1" "lh_len r1 = hdr_n st ?d"
      "\<forall>i < hdr_n st ?d. lh_block r1 i = hdr_block st ?d i"
    using read_head_ok [OF k0(1) f0(2) hd] f0 k0(3) by auto
  have d1: "disk_now r1 = ?d" using r1(3,4) by (simp add: disk_now_def)
  have inj: "inj_on (lh_block r1) {..<hdr_n st ?d} = inj_on (hdr_block st ?d) {..<hdr_n st ?d}"
    by (rule inj_on_cong) (use r1(9) in simp)
  then have bl1: "blocks_ok (log_start r1) (hdr_n st ?d) (lh_block r1)" using bl r1(6,9) by (simp add: blocks_ok_def)
  have src1: "\<forall>m. in_log (log_start r1) m \<longrightarrow> m \<notin> {} \<and> logical r1 1 m = disk_now r1 m"
    using unpinned_clean [OF r1(2)] by simp
  have iw: "install_writes r1 (hdr_n st ?d) = map (\<lambda>i. (hdr_block st ?d i, ?d (st + of_nat i + 1))) [0..<hdr_n st ?d]"
    using r1(6,9) by (simp add: install_writes_def d1 log_block_def)
  obtain r2 where r2: "install_trans True r1 = Inr r2" "cache_ok p {} {} r2" "same_rest r1 r2"
      "dwrites r2 = dwrites r @ install_writes r1 (hdr_n st ?d)"
    using install_trans_ok [OF r1(2,7) _ _ bl1 _ src1 order_refl, of True] r1(3,8) by (auto simp: install_trans_def)
  note l2 = same_rest_log [OF r2(3)]
  define r3 where "r3 = r2\<lparr>lh_n := 0\<rparr>"
  have k3: "cache_ok p {} {} r3" "log_dev r3 = 1" "log_start r3 \<notin> {}"
    using cache_ok_cong(1) [of r3 r2] r2(2) l2 r1(7) by (simp_all add: r3_def)
  have st: "st \<notin> fst ` set (install_writes r1 (hdr_n st ?d))"
    using bl by (auto simp: iw blocks_ok_def)
  have "disk_now r2 st = ?d st"
    unfolding disk_now_same_rest [OF r2(3), of "install_writes r1 (hdr_n st ?d)", unfolded r2(4) r1(3), OF refl] d1
    by (rule put_blocks_other [OF st])
  then have "logical r3 1 (log_start r3) = ?d st"
    using unpinned_clean [OF k3(1)] cache_ok_cong(3) [of r3 r2] l2 r1(6) by (simp add: r3_def)
  then obtain r4 where r4: "write_head r3 = Inr r4" "cache_ok p {} {} r4" "same_rest r3 r4"
      "dwrites r4 = dwrites r3 @ [(st, put32 (?d st) 0 0)]"
    using write_head_ok [OF k3] l2 r1(6) by (auto simp: r3_def)
  have "initlog 1 st nlog r = Inr r4"
    using r1(1) r2(1) r4(1) by (simp add: initlog_def recover_from_log_def r0_def r3_def)
  moreover have "dimage r4 = dimage r" using r4(3) r2(3) r1(4) by (simp add: same_rest_def r3_def)
  ultimately show ?thesis using r4(2,4) r2(4) same_rest_log [OF r4(3)] l2 r1(6)
    by (intro exI [of _ r4]) (simp add: recovery_writes_def iw r3_def)
qed

text \<open>
  A transaction that is ready to commit: nobody uses a buffer, the blocks of the header are
  pinned, different from each other and outside the log, and the header on disk is empty.
\<close>

definition txn_ok :: "nat \<Rightarrow> 'a lstate_scheme \<Rightarrow> bool" where
  "txn_ok p s \<longleftrightarrow> cache_ok p (lh_block s ` {..<lh_len s}) {} s \<and> log_dev s = 1 \<and> 0 < lh_len s \<and>
     blocks_ok (log_start s) (lh_len s) (lh_block s) \<and>
     length (disk_now s (log_start s)) = BSIZE \<and> hdr_n (log_start s) (disk_now s) = 0"

definition head_on_disk :: "'a lstate_scheme \<Rightarrow> u8 list" where
  "head_on_disk s = head_data (lh_n s) (lh_block s) (disk_now s (log_start s))"

definition home_writes :: "'a lstate_scheme \<Rightarrow> nat \<Rightarrow> (u32 \<times> u8 list) list" where
  "home_writes s k = map (\<lambda>i. (lh_block s i, logical s 1 (lh_block s i))) [0..<k]"

definition commit_writes :: "'a lstate_scheme \<Rightarrow> (u32 \<times> u8 list) list" where
  "commit_writes s = log_writes s (lh_len s) @ (log_start s, head_on_disk s) #
     home_writes s (lh_len s) @ [(log_start s, put32 (head_on_disk s) 0 0)]"

lemma fst_writes:
  "fst ` set (log_writes s k) = log_block s ` {..<k}" "fst ` set (home_writes s k) = lh_block s ` {..<k}"
  by (simp_all add: log_writes_def home_writes_def image_image atLeast0LessThan)

lemma put_blocks_nth:
  assumes "inj_on f {..<n}" "j < n"
  shows "foldl put_block d (map (\<lambda>i. (f i, g i)) [0..<n]) (f j) = g j"
  using assms
proof (induction n)
  case (Suc n)
  have i: "inj_on f {..<n}" using Suc.prems(1) by (rule inj_on_subset) auto
  show ?case
  proof (cases "j = n")
    case False
    then have "f j \<noteq> f n" using Suc.prems inj_onD [of f "{..<Suc n}" j n] by auto
    then show ?thesis using Suc.IH [OF i] Suc.prems(2) False by (simp add: put_block_def)
  qed (simp add: put_block_def)
qed simp

lemma put_blocks_find:
  assumes "inj_on f {..<n}"
  shows "foldl put_block d (map (\<lambda>i. (f i, g i)) [0..<n]) m =
     (case List.find (\<lambda>i. f i = m) [0..<n] of Some i \<Rightarrow> g i | None \<Rightarrow> d m)"
proof (cases "List.find (\<lambda>i. f i = m) [0..<n]")
  case None
  then have "m \<notin> fst ` set (map (\<lambda>i. (f i, g i)) [0..<n])" by (auto simp: find_none)
  from put_blocks_other [OF this] show ?thesis unfolding None by simp
next
  case (Some i)
  then have "i < n" "f i = m" using find_in [OF Some] by auto
  then show ?thesis unfolding Some using put_blocks_nth [OF assms, of i d g] by simp
qed

lemma inj_log_block: "n \<le> LOGSIZE \<Longrightarrow> inj_on (log_block s) {..<n}"
  by (rule inj_onI, rule log_block_inj) (auto simp: log_block_def)

lemma commit_ok:
  assumes "txn_ok p s"
  shows "\<exists>s'. commit s = Inr s' \<and> cache_ok p {} {} s' \<and> dimage s' = dimage s \<and> lh_n s' = 0 \<and>
    dwrites s' = dwrites s @ commit_writes s"
proof -
  let ?n = "lh_len s" and ?P = "lh_block s ` {..<lh_len s}" and ?st = "log_start s"
  have t: "cache_ok p ?P {} s" "log_dev s = 1" "0 < ?n" "blocks_ok ?st ?n (lh_block s)"
    using assms by (auto simp: txn_ok_def)
  have card: "card ?P < NBUF" using card_image_le [of "{..<?n}" "lh_block s"] t(4) by (simp add: blocks_ok_def)
  have out: "m \<notin> ?P" if "in_log ?st m" for m using that t(4) by (auto simp: blocks_ok_def)
  have n: "?n < LOGSIZE" using t(4) by (simp add: blocks_ok_def)
  have lb: "in_log ?st (log_block s i)" "log_block s i \<noteq> ?st" if "i < ?n" for i
    using that n in_log_block [of i ?st] log_block_header [of i ?st] by (simp_all add: log_block_def)
  have "?st \<notin> log_block s ` {..<?n}" using lb(2) by (metis imageE lessThan_iff)
  with out [OF in_log_header] have st: "?st \<notin> ?P" "?st \<notin> fst ` set (log_writes s ?n)" "?st \<notin> fst ` set (home_writes s ?n)"
    unfolding fst_writes by blast+
  have bl: "\<forall>i < ?n. lh_block s i \<in> ?P \<and> log_block s i \<notin> ?P" using out lb(1) by blast
  obtain s1 where s1: "write_log s = Inr s1" "cache_ok p ?P {} s1" "same_rest s s1" "dwrites s1 = dwrites s @ log_writes s ?n"
      "logical s1 1 = foldl put_block (logical s 1) (log_writes s ?n)"
    using write_log_ok [OF t(1,2) card bl] by (auto simp: write_log_def)
  note l1 = same_rest_log [OF s1(3)]
  have h0: "logical s1 1 ?st = disk_now s ?st"
    unfolding s1(5) using put_blocks_other [OF st(2)] unpinned_clean [OF t(1) st(1)] by simp
  have pre: "log_dev s1 = 1" "log_start s1 \<notin> ?P" using t(2) st(1) by (simp_all only: l1 not_False_eq_True)
  obtain s2 where s2: "write_head s1 = Inr s2" "cache_ok p ?P {} s2" "same_rest s1 s2"
      "dwrites s2 = dwrites s1 @ [(?st, head_on_disk s)]" "logical s2 1 = (logical s1 1)(?st := head_on_disk s)"
    using write_head_ok [OF s1(2) pre card] unfolding l1 h0 head_on_disk_def [symmetric] by blast
  note l2 = same_rest_log [OF s2(3), unfolded l1]
  have src: "\<forall>m. in_log (log_start s2) m \<longrightarrow> m \<notin> ?P \<and> logical s2 1 m = disk_now s2 m"
    using out unpinned_clean [OF s2(2)] unfolding l2 by simp
  have "disk_now s2 (log_block s i) = logical s 1 (lh_block s i)" if i: "i < ?n" for i
  proof -
    have "disk_now s2 (log_block s i) = logical s2 1 (log_block s i)" using src lb(1) [OF i] unfolding l2 by simp
    also have "\<dots> = logical s1 1 (log_block s i)" using lb(2) [OF i] unfolding s2(5) by simp
    finally show ?thesis using put_blocks_nth [OF inj_log_block [OF less_imp_le [OF n]] i] unfolding s1(5) log_writes_def by simp
  qed
  then have iw: "install_writes s2 ?n = home_writes s ?n" by (simp add: install_writes_def home_writes_def l2 log_block_def)
  have pre2: "blocks_ok (log_start s2) ?n (lh_block s2)" "log_dev s2 = 1" "\<forall>i < ?n. lh_block s2 i \<in> ?P" "lh_len s2 = ?n"
    using t(2,4) by (simp_all add: l2 lh_len_def)
  obtain s3 where s3: "install_trans False s2 = Inr s3" "cache_ok p {} {} s3" "same_rest s2 s3"
      "dwrites s3 = dwrites s2 @ home_writes s ?n" "logical s3 1 = foldl put_block (logical s2 1) (home_writes s ?n)"
    using install_trans_ok [OF s2(2) pre2(2) card _ pre2(1) pre2(3) src order_refl, of False]
    unfolding install_trans_def pre2(4) iw l2 Diff_cancel by blast
  note l3 = same_rest_log [OF s3(3), unfolded l2]
  define s4 where "s4 = s3\<lparr>lh_n := 0\<rparr>"
  have "logical s3 1 ?st = head_on_disk s" unfolding s3(5) put_blocks_other [OF st(3)] s2(5) by simp
  then have k4: "cache_ok p {} {} s4" "log_dev s4 = 1" "log_start s4 \<notin> {}" "logical s4 1 (log_start s4) = head_on_disk s"
    using cache_ok_cong(1,2) [of s4 s3] s3(2) l3 t(2) by (simp_all add: s4_def)
  obtain s5 where s5: "write_head s4 = Inr s5" "cache_ok p {} {} s5" "same_rest s4 s5"
      "dwrites s5 = dwrites s4 @ [(?st, put32 (head_on_disk s) 0 0)]"
    using write_head_ok [OF k4(1-3)] k4(4) l3 by (auto simp: s4_def)
  have "0 < sint (lh_n s)" using t(3) by (simp add: lh_len_def)
  then have "commit s = Inr s5"
    using s5(1) by (simp only: commit_def s1(1) s2(1) s3(1) s4_def if_True bindE.simps)
  moreover have "dimage s5 = dimage s" using s1(3) s2(3) s3(3) s5(3) by (simp add: same_rest_def s4_def)
  moreover have "dwrites s5 = dwrites s @ commit_writes s" using s5(4) s3(4) s2(4) s1(4) by (simp add: commit_writes_def s4_def)
  moreover have "lh_n s5 = 0" using same_rest_log(6) [OF s5(3)] by (simp add: s4_def)
  ultimately show ?thesis using s5(2) by blast
qed

section \<open>Crashes\<close>

lemma install_prefix:
  assumes ok: "disk_ok st d" and j: "j \<le> hdr_n st d"
  defines "e \<equiv> foldl put_block d (map (\<lambda>i. (hdr_block st d i, d (st + of_nat i + 1))) [0..<j])"
  shows "disk_ok st e" "\<And>m. in_log st m \<Longrightarrow> e m = d m" "\<And>m. \<not> in_log st m \<Longrightarrow> recovered st e m = recovered st d m"
proof -
  let ?W = "\<lambda>j. map (\<lambda>i. (hdr_block st d i, d (st + of_nat i + 1))) [0..<j]"
  have "disk_ok st (foldl put_block d (?W j)) \<and> (\<forall>m. in_log st m \<longrightarrow> foldl put_block d (?W j) m = d m) \<and>
    (\<forall>m. \<not> in_log st m \<longrightarrow> recovered st (foldl put_block d (?W j)) m = recovered st d m)"
    using j
  proof (induction j)
    case 0
    then show ?case using ok by simp
  next
    case (Suc j)
    let ?e = "foldl put_block d (?W j)"
    have e: "disk_ok st ?e" "\<And>m. in_log st m \<Longrightarrow> ?e m = d m" "\<And>m. \<not> in_log st m \<Longrightarrow> recovered st ?e m = recovered st d m"
      using Suc.IH Suc.prems by simp_all
    have h: "hdr_n st ?e = hdr_n st d" "hdr_block st ?e = hdr_block st d" using hdr_cong [of ?e st d] e(2) by simp_all
    have l: "j < hdr_n st ?e" "?e (st + of_nat j + 1) = d (st + of_nat j + 1)" "\<not> in_log st (hdr_block st d j)"
      using e(2) [OF in_log_block [of j st]] ok Suc.prems h by (auto simp: disk_ok_def blocks_ok_def)
    have next_e: "foldl put_block d (?W (Suc j)) = ?e(hdr_block st ?e j := ?e (st + of_nat j + 1))"
      using l(2) by (simp add: put_block_def h(2))
    have "recovered st (?e(hdr_block st ?e j := ?e (st + of_nat j + 1))) m = recovered st d m" if "\<not> in_log st m" for m
      using recovered_install(1) [OF e(1) l(1) that] e(3) [OF that] by simp
    moreover have "disk_ok st (?e(hdr_block st ?e j := ?e (st + of_nat j + 1)))"
      using recovered_install(2) [OF e(1) l(1), of "hdr_block st d j"] l(3) .
    moreover have "(?e(hdr_block st ?e j := ?e (st + of_nat j + 1))) m = d m" if "in_log st m" for m
      using e(2) [OF that] that l(3) h(2) by auto
    ultimately show ?case unfolding next_e by blast
  qed
  then show "disk_ok st e" "\<And>m. in_log st m \<Longrightarrow> e m = d m" "\<And>m. \<not> in_log st m \<Longrightarrow> recovered st e m = recovered st d m"
    unfolding e_def by blast+
qed

lemma recovery_prefix:
  assumes ok: "disk_ok st d" and m: "\<not> in_log st m"
  shows "disk_ok st (foldl put_block d (take k (recovery_writes st d)))"
    "recovered st (foldl put_block d (take k (recovery_writes st d))) m = recovered st d m"
    "foldl put_block d (recovery_writes st d) m = recovered st d m"
proof -
  let ?n = "hdr_n st d"
  let ?W = "map (\<lambda>i. (hdr_block st d i, d (st + of_nat i + 1))) [0..<?n]"
  let ?e = "foldl put_block d ?W" and ?z = "put32 (d st) 0 0"
  have len: "length (d st) = BSIZE" and inj: "inj_on (hdr_block st d) {..<?n}"
    using ok by (auto simp: disk_ok_def blocks_ok_def)
  have whole: "foldl put_block d (recovery_writes st d) = ?e(st := ?z)" by (simp add: recovery_writes_def put_block_def)
  have z: "hdr_n st (?e(st := ?z)) = 0" using len by (simp add: hdr_n_def)
  then have zok: "disk_ok st (?e(st := ?z))" using len by (simp add: disk_ok_def blocks_ok_def)
  have "?e m = recovered st d m" unfolding recovered_def by (rule put_blocks_find [OF inj])
  then have zm: "(?e(st := ?z)) m = recovered st d m" using m by auto
  then show "foldl put_block d (recovery_writes st d) m = recovered st d m" unfolding whole .
  have "disk_ok st (foldl put_block d (take k (recovery_writes st d))) \<and>
    recovered st (foldl put_block d (take k (recovery_writes st d))) m = recovered st d m"
  proof (cases "k \<le> ?n")
    case True
    then have "take k (recovery_writes st d) = map (\<lambda>i. (hdr_block st d i, d (st + of_nat i + 1))) [0..<k]"
      by (simp add: recovery_writes_def take_map)
    then show ?thesis using install_prefix [OF ok True] m by simp
  next
    case False
    then have "take k (recovery_writes st d) = recovery_writes st d" by (simp add: recovery_writes_def)
    then show ?thesis using zok recovered_empty [OF z] zm whole by simp
  qed
  then show "disk_ok st (foldl put_block d (take k (recovery_writes st d)))"
    "recovered st (foldl put_block d (take k (recovery_writes st d))) m = recovered st d m" by blast+
qed

lemma commit_prefix:
  assumes t: "txn_ok p s" and m: "\<not> in_log (log_start s) m"
  shows "disk_ok (log_start s) (foldl put_block (disk_now s) (take k (commit_writes s)))"
    "recovered (log_start s) (foldl put_block (disk_now s) (take k (commit_writes s))) m =
      (if k \<le> lh_len s then disk_now s m else logical s 1 m)"
proof -
  let ?n = "lh_len s" and ?st = "log_start s" and ?f = "lh_block s" and ?d = "disk_now s"
  have bl: "blocks_ok ?st ?n ?f" and len: "length (?d ?st) = BSIZE" and n0: "hdr_n ?st ?d = 0"
    and ok: "cache_ok p (?f ` {..<?n}) {} s" using t by (auto simp: txn_ok_def)
  have n: "?n < LOGSIZE" "nat (sint (lh_n s)) = ?n" using bl by (simp_all add: blocks_ok_def lh_len_def)
  have lb: "in_log ?st (log_block s i)" "log_block s i \<noteq> ?st" if "i < ?n" for i
    using that n in_log_block [of i ?st] log_block_header [of i ?st] by (simp_all add: log_block_def)
  have logs: "foldl put_block ?d (log_writes s j) x = ?d x" if "j \<le> ?n" "x = ?st \<or> x = m" for j x
  proof (rule put_blocks_other, unfold fst_writes)
    show "x \<notin> log_block s ` {..<j}" using that lb m by (metis imageE lessThan_iff order.strict_trans2)
  qed
  let ?d2 = "(foldl put_block ?d (log_writes s ?n))(?st := head_on_disk s)"
  have nth: "foldl put_block ?d (log_writes s ?n) (log_block s i) = logical s 1 (?f i)" if "i < ?n" for i
    unfolding log_writes_def by (rule put_blocks_nth [OF inj_log_block [OF less_imp_le [OF n(1)]] that])
  have r2: "disk_ok ?st ?d2" "recovered ?st ?d2 m = logical s 1 m"
  proof -
    note r = recovered_header [OF len, where st = ?st and n = "lh_n s" and f = ?f and m = m and d = "foldl put_block ?d (log_writes s ?n)", unfolded n(2), OF bl m,
        folded head_on_disk_def]
    show "disk_ok ?st ?d2" by (rule r(1))
    show "recovered ?st ?d2 m = logical s 1 m"
    proof (cases "List.find (\<lambda>i. ?f i = m) [0..<?n]")
      case None
      then have "m \<notin> ?f ` {..<?n}" by (auto simp: find_none)
      then show ?thesis unfolding r(2) None using unpinned_clean [OF ok] logs [OF order_refl, of m] by simp
    next
      case (Some i)
      then have "i < ?n" "?f i = m" using find_in [OF Some] by auto
      then show ?thesis unfolding r(2) Some using nth [of i] by (simp add: log_block_def)
    qed
  qed
  have "hdr_n ?st ?d2 = ?n" "\<And>i. i < ?n \<Longrightarrow> hdr_block ?st ?d2 i = ?f i"
    using head_data_get [OF len, where n = "lh_n s" and f = ?f] n by (simp_all add: hdr_n_def hdr_block_def head_on_disk_def)
  moreover have "?d2 (?st + of_nat i + 1) = logical s 1 (?f i)" if "i < ?n" for i
    using nth [OF that] lb(2) [OF that] by (simp add: log_block_def)
  ultimately have rw: "recovery_writes ?st ?d2 = home_writes s ?n @ [(?st, put32 (head_on_disk s) 0 0)]"
    by (simp add: recovery_writes_def home_writes_def)
  have lenw: "length (log_writes s ?n) = ?n" by (simp add: log_writes_def)
  have "disk_ok ?st (foldl put_block ?d (take k (commit_writes s))) \<and>
    recovered ?st (foldl put_block ?d (take k (commit_writes s))) m = (if k \<le> ?n then ?d m else logical s 1 m)"
  proof (cases "k \<le> ?n")
    case True
    then have "take k (commit_writes s) = log_writes s k" by (simp add: commit_writes_def lenw) (simp add: log_writes_def take_map)
    moreover have h: "hdr_n ?st (foldl put_block ?d (log_writes s k)) = 0"
      using logs [OF True, of ?st] n0 by (simp add: hdr_n_def)
    moreover have "length (foldl put_block ?d (log_writes s k) ?st) = BSIZE" using logs [OF True, of ?st] len by simp
    ultimately show ?thesis using True recovered_empty [OF h] logs [OF True, of m]
      by (simp add: disk_ok_def blocks_ok_def)
  next
    case False
    then obtain j where j: "k = Suc (?n + j)" using less_imp_Suc_add not_le by blast
    have "take k (commit_writes s) = log_writes s ?n @ (?st, head_on_disk s) # take j (recovery_writes ?st ?d2)"
      by (simp add: commit_writes_def rw j lenw)
    then have "foldl put_block ?d (take k (commit_writes s)) = foldl put_block ?d2 (take j (recovery_writes ?st ?d2))"
      by (simp add: put_block_def)
    then show ?thesis using recovery_prefix(1,2) [OF r2(1) m, of j] r2(2) False by simp
  qed
  then show "disk_ok ?st (foldl put_block ?d (take k (commit_writes s)))"
    "recovered ?st (foldl put_block ?d (take k (commit_writes s))) m = (if k \<le> ?n then ?d m else logical s 1 m)" by blast+
qed

section \<open>Properties\<close>

lemma disk_after:
  assumes "dimage s' = dimage s" "dwrites s' = dwrites s @ ws"
  shows "disk_now s' = foldl put_block (disk_now s) ws"
  using assms by (simp add: disk_now_def)

lemma reboot:
  assumes "disk_ok st d" "cache_ok q {} {} r" "disk_now r = d"
  shows "\<exists>r'. initlog 1 st nlog r = Inr r' \<and> lh_n r' = 0 \<and> cache_ok q {} {} r' \<and>
    (\<forall>m. \<not> in_log st m \<longrightarrow> disk_now r' m = recovered st d m)"
proof -
  obtain r' where r': "initlog 1 st nlog r = Inr r'" "cache_ok q {} {} r'" "dimage r' = dimage r" "lh_n r' = 0"
      "dwrites r' = dwrites r @ recovery_writes st d"
    using initlog_ok [OF assms(2), of st nlog] assms(1,3) by auto
  then show ?thesis using disk_after [OF r'(3,5)] recovery_prefix(3) [OF assms(1)] assms(3) by simp
qed


text \<open>A disk with an empty log and one modified block in the cache.\<close>

definition demo_txn :: lstate where
  "demo_txn = bstate.extend (demo_bstate\<lparr>dimage := \<lambda>_. replicate BSIZE 0,
       bufs := (bufs demo_bstate)(0 := (bufs demo_bstate 0)\<lparr>b_valid := True, b_dev := 1, b_blockno := 50,
         b_refcnt := 1, b_data := replicate BSIZE 7\<rparr>)\<rparr>) (lstate.fields 2 30 0 True 1 1 (\<lambda>_. 50))"

lemma demo_txn_simps:
  "log_start demo_txn = 2" "log_dev demo_txn = 1" "lh_n demo_txn = 1" "lh_block demo_txn = (\<lambda>_. 50)" "held demo_txn = []"
  "cur demo_txn = Some 1" "dwrites demo_txn = []" "dimage demo_txn = (\<lambda>_. replicate BSIZE 0)" "slks demo_txn = slks demo_bstate"
  "bufs demo_txn = (bufs demo_bstate)(0 := (bufs demo_bstate 0)\<lparr>b_valid := True, b_dev := 1, b_blockno := 50,
     b_refcnt := 1, b_data := replicate BSIZE 7\<rparr>)"
  "bhead_next demo_txn = bhead_next demo_bstate" "bhead_prev demo_txn = bhead_prev demo_bstate"
  by (simp_all add: demo_txn_def bstate.defs lstate.defs demo_quiet)

lemma demo_txn_cached: "cache_ok 1 {50} {} demo_txn"
proof -
  have "get_next r demo_txn = get_next r demo_bstate" "get_prev r demo_txn = get_prev r demo_bstate" for r
    by (cases r; simp add: get_next.simps get_prev.simps demo_txn_simps)+
  then have "lru demo_txn xs = lru demo_bstate xs" for xs by (rule lru_cong)
  then have l: "\<exists>xs. lru demo_txn xs \<and> set xs = {..<NBUF}" using demo_binv by (simp add: binv_def)
  have sl: "\<not> sl_locked (slks demo_bstate (BufSlk b))" if "b < NBUF" for b
    using demo_binv that by (simp add: binv_def demo_bufs)
  have b: "binv demo_txn"
    unfolding binv_def using l sl
    by (simp add: unique_blocks_def clean_unused_def demo_txn_simps demo_bufs caches_def)
  show ?thesis
    unfolding cache_ok_def using b sl
    by (auto simp: demo_txn_simps demo_bufs caches_def bears_def intro: exI [of _ 0])
qed

lemma demo_txn_ok: "txn_ok 1 demo_txn"
proof -
  have n: "lh_len demo_txn = 1" by (simp add: lh_len_def demo_txn_simps)
  have d: "disk_now demo_txn = (\<lambda>_. replicate BSIZE 0)" by (simp add: disk_now_def demo_txn_simps)
  have P: "lh_block demo_txn ` {..<lh_len demo_txn} = {50}" unfolding n by (auto simp: demo_txn_simps)
  have "get32 (replicate BSIZE 0) 0 = 0" by (simp add: get32_def get_bytes_def word_of_def numeral_eq_Suc)
  then show ?thesis unfolding txn_ok_def P using demo_txn_cached
    by (simp add: n d demo_txn_simps blocks_ok_def in_log_def hdr_n_def inj_on_def)
qed




end
