(* ===== verification/LogSpace.thy ===== *)
theory LogSpace
  imports LogSpec
begin

text \<open>
  Room in the log. An operation reserves ten blocks with \<open>begin_op\<close> and uses the reservation
  up with its calls of \<open>log_write\<close>; the reservations and the blocks already in the header
  never exceed LOGSIZE, whatever the order in which operations begin, write and end.
\<close>

section \<open>What the cache leaves alone\<close>

text \<open>No operation of the cache touches the log's own variables.\<close>

lemma lock_more:
  "lacquire l s = Inr t \<Longrightarrow> bstate.more t = bstate.more s" "lrelease l s = Inr t \<Longrightarrow> bstate.more t = bstate.more s"
  by (auto simp: lacquire_Inr_iff lrelease_Inr_iff)

lemma wakeup_more: "wakeup c s = Inr t \<Longrightarrow> bstate.more t = bstate.more s"
  using wakeup_frame [of c s t] by auto

lemma ptr_more [simp]:
  "bstate.more (set_next r v s) = bstate.more s" "bstate.more (set_prev r v s) = bstate.more s"
  "bstate.more (upd_buf b f s) = bstate.more s" "bstate.more (disk_rw b w s) = bstate.more s"
  "bstate.more (link_front b s) = bstate.more s" "bstate.more (push_front b s) = bstate.more s"
  "bstate.more (unlink b s) = bstate.more s" "bstate.more (upd_slk l g s) = bstate.more s"
  by (cases r; simp add: set_next.simps set_prev.simps upd_buf_def)
    (cases r; simp add: set_next.simps set_prev.simps upd_buf_def disk_rw_def link_front_def push_front_def unlink_def upd_slk_def)+

lemma acquiresleep_more:
  assumes "acquiresleep 1 stay_blocked l s = Inr t"
  shows "bstate.more t = bstate.more s"
proof -
  have "sleep stay_blocked c k u \<noteq> Inr v" for c k and u v :: "'a bstate_scheme"
    by (auto simp: sleep_def sched_def stay_blocked_def bindE_Inr_iff Let_def split: if_splits)
  then have "acquiresleep_loop (Suc 0) stay_blocked l u = Inr v \<Longrightarrow> v = u" for u v :: "'a bstate_scheme"
    by (auto simp: acquiresleep_loop.simps bindE_Inr_iff split: if_splits)
  then show ?thesis using assms
    by (fastforce simp: acquiresleep_def bindE_Inr_iff Let_def dest: lock_more)
qed

lemma bread_more:
  assumes "bread dev n s = Inr (b, t)"
  shows "bstate.more t = bstate.more s"
proof -
  obtain u where u: "bget dev n s = Inr (b, u)" "bstate.more t = bstate.more u"
    using assms by (auto simp: bread_def bindE_Inr_iff Let_def split: if_splits)
  obtain v hit where v: "lacquire BcacheLock s = Inr v"
      "(case hit of
         Some b \<Rightarrow> bindE (lrelease BcacheLock (upd_buf b (\<lambda>x. x\<lparr>b_refcnt := b_refcnt x + 1\<rparr>) v)) (\<lambda>s.
           bindE (acquiresleep 1 stay_blocked (BufSlk b) s) (\<lambda>s. Inr (b, s)))
       | None \<Rightarrow> bindE (search NBUF (\<lambda>r. get_prev r v) (\<lambda>b. b_refcnt (bufs v b) = 0) (get_prev Head v)) (\<lambda>free.
           case free of
             Some b \<Rightarrow> bindE (lrelease BcacheLock (upd_buf b (\<lambda>x. x\<lparr>b_dev := dev, b_blockno := n, b_valid := False, b_refcnt := 1\<rparr>) v)) (\<lambda>s.
               bindE (acquiresleep 1 stay_blocked (BufSlk b) s) (\<lambda>s. Inr (b, s)))
           | None \<Rightarrow> Inl (Panic ''bget: no buffers''))) = Inr (b, u)"
    using u(1) unfolding bget_def bindE_Inr_iff Let_def by blast
  then obtain f w where "lrelease BcacheLock (upd_buf b f v) = Inr w" "acquiresleep 1 stay_blocked (BufSlk b) w = Inr u"
    by (auto simp: bindE_Inr_iff split: option.splits)
  then have "bstate.more u = bstate.more v" using lock_more(2) acquiresleep_more by (metis ptr_more(3))
  then show ?thesis using u(2) lock_more(1) [OF v(1)] by simp
qed

lemma holdingsleep_more: "holdingsleep l s = Inr (h, t) \<Longrightarrow> bstate.more t = bstate.more s"
  by (auto simp: holdingsleep_def bindE_Inr_iff dest!: lock_more)

lemma bwrite_more: "bwrite b s = Inr t \<Longrightarrow> bstate.more t = bstate.more s"
  by (auto simp: bwrite_def bindE_Inr_iff split: if_splits dest!: holdingsleep_more)

lemma releasesleep_more: "releasesleep l s = Inr t \<Longrightarrow> bstate.more t = bstate.more s"
  by (auto simp: releasesleep_def bindE_Inr_iff Let_def dest!: lock_more wakeup_more)

lemma brelse_more: "brelse b s = Inr t \<Longrightarrow> bstate.more t = bstate.more s"
  by (auto simp: brelse_def bindE_Inr_iff Let_def split: if_splits dest!: holdingsleep_more releasesleep_more lock_more)

lemma pin_more: "bpin b s = Inr t \<Longrightarrow> bstate.more t = bstate.more s" "bunpin b s = Inr t \<Longrightarrow> bstate.more t = bstate.more s"
  by (auto simp: bpin_def bunpin_def with_lock_def bindE_Inr_iff dest!: lock_more)

lemmas cache_more = bread_more bwrite_more brelse_more pin_more lock_more wakeup_more

lemma set_data_more [simp]: "bstate.more (set_data b d s) = bstate.more s"
  by (simp add: set_data_def)

lemma write_head_more: "write_head s = Inr t \<Longrightarrow> bstate.more t = bstate.more s"
  by (auto simp: write_head_def bindE_Inr_iff Let_def dest!: cache_more)

lemma write_log_one_more: "write_log_one i s = Inr t \<Longrightarrow> bstate.more t = bstate.more s"
  by (auto simp: write_log_one_def bindE_Inr_iff Let_def dest!: cache_more)

lemma install_one_more: "install_one r i s = Inr t \<Longrightarrow> bstate.more t = bstate.more s"
  by (auto simp: install_one_def bindE_Inr_iff Let_def split: if_splits dest!: cache_more)

lemma log_loops_more:
  "write_log s = Inr t \<Longrightarrow> bstate.more t = bstate.more s" "install_trans r s = Inr t \<Longrightarrow> bstate.more t = bstate.more s"
  unfolding write_log_def install_trans_def
  by (erule foldE_invariant [where I = "\<lambda>u. bstate.more u = bstate.more s"]; simp add: write_log_one_more install_one_more)+

lemma same_more:
  assumes "bstate.more t = bstate.more s"
  shows "log_outstanding t = log_outstanding s" "log_committing t = log_committing s" "lh_n t = lh_n s"
    "lh_block t = lh_block s" "log_size t = log_size s"
  using assms by (cases s; cases t; simp)+

lemma same_moreD:
  "bstate.more t = bstate.more s \<Longrightarrow> log_outstanding t = log_outstanding s \<and> lh_n t = lh_n s \<and> log_size t = log_size s"
  using same_more [of t s] by simp

lemma commit_more:
  assumes "commit s = Inr t"
  shows "log_outstanding t = log_outstanding s" "log_size t = log_size s" "lh_n t = (if 0 < sint (lh_n s) then 0 else lh_n s)"
proof -
  have "log_outstanding t = log_outstanding s \<and> log_size t = log_size s \<and> lh_n t = (if 0 < sint (lh_n s) then 0 else lh_n s)"
  proof (cases "0 < sint (lh_n s)")
    case True
    then obtain x y v where v: "write_log s = Inr x" "write_head x = Inr y" "install_trans False y = Inr v"
        and t: "write_head (v\<lparr>lh_n := 0\<rparr>) = Inr t"
      using assms by (auto simp: commit_def bindE_Inr_iff)
    have "bstate.more v = bstate.more s"
      using log_loops_more(1) [OF v(1)] write_head_more [OF v(2)] log_loops_more(2) [OF v(3)] by simp
    with t obtain u where u: "bstate.more u = bstate.more s" "write_head (u\<lparr>lh_n := 0\<rparr>) = Inr t" by blast
    then show ?thesis using True write_head_more [OF u(2)] same_more [OF u(1)] same_more [of t "u\<lparr>lh_n := 0\<rparr>"] by simp
  qed (use assms in \<open>simp add: commit_def\<close>)
  then show "log_outstanding t = log_outstanding s" "log_size t = log_size s" "lh_n t = (if 0 < sint (lh_n s) then 0 else lh_n s)"
    by blast+
qed

section \<open>Reservations\<close>

text \<open>
  \<open>reach s ws\<close>: from a log with no operation under way the kernel has come to \<open>s\<close>, with one
  entry in \<open>ws\<close> for each operation under way, the number of its calls of \<open>log_write\<close>, none
  of which makes more than MAXOPBLOCKS. Anything that leaves the log's variables alone may
  happen in between.
\<close>

inductive reach :: "'a lstate_scheme \<Rightarrow> nat list \<Rightarrow> bool" where
  start: "log_outstanding s = 0 \<Longrightarrow> lh_n s = 0 \<Longrightarrow> reach s []"
| begin_op: "reach s ws \<Longrightarrow> begin_op fuel stay_blocked s = Inr t \<Longrightarrow> reach t (0 # ws)"
| log_write: "reach s (xs @ w # ys) \<Longrightarrow> w < 10 \<Longrightarrow> log_write b s = Inr t \<Longrightarrow> reach t (xs @ Suc w # ys)"
| end_op: "reach s (xs @ w # ys) \<Longrightarrow> end_op s = Inr t \<Longrightarrow> reach t (xs @ ys)"
| other: "reach s ws \<Longrightarrow> bstate.more t = bstate.more s \<Longrightarrow> reach t ws"

definition room :: "'a lstate_scheme \<Rightarrow> nat list \<Rightarrow> bool" where
  "room s ws \<longleftrightarrow> log_outstanding s = of_nat (length ws) \<and> lh_n s = of_nat (lh_len s) \<and>
     lh_len s + sum_list (map (\<lambda>w. 10 - w) ws) \<le> 30 \<and> (\<forall>w \<in> set ws. w \<le> 10) \<and> length ws \<le> 3"

lemma begin_op_more:
  assumes "begin_op fuel stay_blocked s = Inr t"
  shows "sint (lh_n s + (log_outstanding s + 1) * 10) \<le> 30" "log_outstanding t = log_outstanding s + 1"
    "lh_n t = lh_n s" "log_size t = log_size s"
proof -
  have "sleep stay_blocked c k u \<noteq> Inr v" for c k and u v :: "'a lstate_scheme"
    by (auto simp: sleep_def sched_def stay_blocked_def bindE_Inr_iff Let_def split: if_splits)
  then have no: "\<nexists>v. (case fuel of 0 \<Rightarrow> Inl OutOfFuel | Suc n \<Rightarrow> bindE (sleep stay_blocked ChLog LogLock u) (begin_op_loop n stay_blocked)) = Inr v"
    for u :: "'a lstate_scheme" by (simp add: bindE_Inr_iff split: nat.split)
  obtain u where u: "lacquire LogLock s = Inr u" "begin_op_loop fuel stay_blocked u = Inr t"
    using assms unfolding begin_op_def bindE_Inr_iff by blast
  have c: "\<not> (log_committing u \<or> 30 < sint (lh_n u + (log_outstanding u + 1) * 10))"
  proof
    assume full: "log_committing u \<or> 30 < sint (lh_n u + (log_outstanding u + 1) * 10)"
    show False using no [of u] u(2) unfolding begin_op_loop.simps [of fuel stay_blocked u] if_P [OF full] by blast
  qed
  have r: "lrelease LogLock (u\<lparr>log_outstanding := log_outstanding u + 1\<rparr>) = Inr t"
    using u(2) unfolding begin_op_loop.simps [of fuel stay_blocked u] if_not_P [OF c] .
  note f = same_more [OF lock_more(1) [OF u(1)]] same_more [OF lock_more(2) [OF r]]
  show "sint (lh_n s + (log_outstanding s + 1) * 10) \<le> 30" "log_outstanding t = log_outstanding s + 1"
    "lh_n t = lh_n s" "log_size t = log_size s"
    using c f by simp_all
qed

lemma log_write_more:
  assumes "log_write b s = Inr t"
  shows "log_outstanding t = log_outstanding s" "log_size t = log_size s" "lh_n t = lh_n s \<or> lh_n t = lh_n s + 1"
    "sint (lh_n s) < 30"
proof -
  obtain u where u: "lacquire LogLock s = Inr u" "sint (lh_n u) < 30"
    and w: "bindE (if int (log_index (lh_block u) (b_blockno (bufs u b)) (lh_len u) 0) = sint (lh_n u)
        then bindE (bpin b (u\<lparr>lh_block := (lh_block u)(log_index (lh_block u) (b_blockno (bufs u b)) (lh_len u) 0 := b_blockno (bufs u b))\<rparr>))
          (\<lambda>s. Inr (s\<lparr>lh_n := lh_n s + 1\<rparr>))
        else Inr (u\<lparr>lh_block := (lh_block u)(log_index (lh_block u) (b_blockno (bufs u b)) (lh_len u) 0 := b_blockno (bufs u b))\<rparr>))
      (lrelease LogLock) = Inr t"
    using assms by (auto simp: log_write_def bindE_Inr_iff Let_def split: if_splits)
  note f = same_more [OF lock_more(1) [OF u(1)]]
  have "log_outstanding t = log_outstanding s \<and> log_size t = log_size s \<and> (lh_n t = lh_n s \<or> lh_n t = lh_n s + 1)"
    using w f by (auto simp: bindE_Inr_iff split: if_splits dest!: lock_more(2) pin_more(1) same_moreD)
  then show "log_outstanding t = log_outstanding s" "log_size t = log_size s" "lh_n t = lh_n s \<or> lh_n t = lh_n s + 1"
    "sint (lh_n s) < 30" using u(2) f by auto
qed

lemma end_op_more:
  assumes "end_op s = Inr t"
  shows "log_outstanding t = log_outstanding s - 1" "log_size t = log_size s" "lh_n t = lh_n s \<or> lh_n t = 0"
proof -
  obtain u where u: "lacquire LogLock s = Inr u"
    and w: "(let s = u\<lparr>log_outstanding := log_outstanding u - 1\<rparr> in
     if log_committing s then Inl (Panic ''log.committing'')
     else
       let do_commit = (log_outstanding s = 0) in
       bindE (if do_commit then Inr (s\<lparr>log_committing := True\<rparr>) else wakeup (Some ChLog) s) (\<lambda>s.
       bindE (lrelease LogLock s) (\<lambda>s.
       if do_commit then
         bindE (commit s) (\<lambda>s.
         bindE (lacquire LogLock s) (\<lambda>s.
         let s = s\<lparr>log_committing := False\<rparr> in
         bindE (wakeup (Some ChLog) s) (lrelease LogLock)))
       else Inr s))) = Inr t"
    using assms unfolding end_op_def bindE_Inr_iff by blast
  note f = same_moreD [OF lock_more(1) [OF u]]
  have "log_outstanding t = log_outstanding s - 1 \<and> log_size t = log_size s \<and> (lh_n t = lh_n s \<or> lh_n t = 0)"
  proof (cases "log_outstanding u - 1 = 0")
    case True
    then obtain v c d e where v: "lrelease LogLock (u\<lparr>log_outstanding := 0, log_committing := True\<rparr>) = Inr v" "commit v = Inr c"
        "lacquire LogLock c = Inr d" "wakeup (Some ChLog) (d\<lparr>log_committing := False\<rparr>) = Inr e" "lrelease LogLock e = Inr t"
      using w by (auto simp: Let_def bindE_Inr_iff split: if_splits)
    then show ?thesis using f True commit_more [OF v(2)] same_moreD [OF lock_more(2) [OF v(1)]] same_moreD [OF lock_more(1) [OF v(3)]]
        same_moreD [OF wakeup_more [OF v(4)]] same_moreD [OF lock_more(2) [OF v(5)]] by (simp split: if_splits)
  next
    case False
    then obtain v where v: "wakeup (Some ChLog) (u\<lparr>log_outstanding := log_outstanding u - 1\<rparr>) = Inr v" "lrelease LogLock v = Inr t"
      using w by (auto simp: Let_def bindE_Inr_iff split: if_splits)
    then show ?thesis using f same_moreD [OF wakeup_more [OF v(1)]] same_moreD [OF lock_more(2) [OF v(2)]] by simp
  qed
  then show "log_outstanding t = log_outstanding s - 1" "log_size t = log_size s" "lh_n t = lh_n s \<or> lh_n t = 0" by blast+
qed

lemma sum_credit_le: "sum_list (map (\<lambda>w. 10 - w) ws) \<le> 10 * length (ws :: nat list)"
  by (induction ws) auto

lemma lh_len_of_nat: "lh_n s = of_nat n \<Longrightarrow> n \<le> 100 \<Longrightarrow> lh_len s = n"
  by (simp add: lh_len_def sint_small_nat)

lemma room_begin:
  assumes r: "room s ws" and b: "begin_op fuel stay_blocked s = Inr t"
  shows "room t (0 # ws)"
proof -
  have n: "lh_n s = of_nat (lh_len s)" "log_outstanding s = of_nat (length ws)" "lh_len s \<le> 30" "length ws \<le> 3"
    using r by (auto simp: room_def)
  note f = begin_op_more [OF b]
  have "lh_n s + (log_outstanding s + 1) * 10 = of_nat (lh_len s + (length ws + 1) * 10)" using n(1,2) by simp
  moreover have "lh_len s + (length ws + 1) * 10 \<le> 100" using n(3,4) by simp
  ultimately have "lh_len s + (length ws + 1) * 10 \<le> 30" using f(1) sint_small_nat by (metis nat_int_comparison(3) of_nat_numeral)
  moreover have "lh_len t = lh_len s" using f(3) by (simp add: lh_len_def)
  ultimately show ?thesis using r f(2,3) sum_credit_le [of ws] by (simp add: room_def)
qed

lemma room_write:
  assumes r: "room s (xs @ w # ys)" "w < 10" and b: "log_write b s = Inr t"
  shows "room t (xs @ Suc w # ys)"
proof -
  have n: "lh_n s = of_nat (lh_len s)" "lh_len s \<le> 29" using r by (auto simp: room_def)
  note f = log_write_more [OF b]
  have "lh_n t = of_nat (lh_len s) \<or> lh_n t = of_nat (Suc (lh_len s))" using f(3) n(1) by auto
  then have "lh_n t = of_nat (lh_len t) \<and> lh_len t \<le> Suc (lh_len s)"
    using lh_len_of_nat [of t "lh_len s"] lh_len_of_nat [of t "Suc (lh_len s)"] n(2) by auto
  moreover have "10 - w = Suc (10 - Suc w)" using r(2) by simp
  ultimately show ?thesis using r f(1) by (auto simp: room_def)
qed

lemma room_end:
  assumes r: "room s (xs @ w # ys)" and b: "end_op s = Inr t"
  shows "room t (xs @ ys)"
proof -
  have n: "lh_n s = of_nat (lh_len s)" "lh_len s \<le> 30" using r by (auto simp: room_def)
  note f = end_op_more [OF b]
  have "lh_n t = of_nat (lh_len t) \<and> lh_len t \<le> lh_len s"
    using f(3) n lh_len_of_nat [of t "lh_len s"] lh_len_of_nat [of t 0] by auto
  then show ?thesis using r f(1) by (auto simp: room_def)
qed

lemma reach_room: "reach s ws \<Longrightarrow> room s ws"
proof (induction rule: reach.induct)
  case (start s)
  then show ?case using lh_len_of_nat [of s 0] by (simp add: room_def)
next
  case (other s ws t)
  have "lh_len t = lh_len s" using same_more(3) [OF other(2)] by (simp add: lh_len_def)
  then show ?case using other(3) same_more(1,3) [OF other(2)] by (simp add: room_def)
qed (blast intro: room_begin room_write room_end)+

section \<open>A full log\<close>

text \<open>Three operations begin on an empty log and together write 29 different blocks.\<close>

definition demo_log :: lstate where
  "demo_log = bstate.extend demo_bstate (lstate.fields 2 30 0 False 1 0 (\<lambda>_. 0))"

definition filled :: "nat list \<Rightarrow> nat \<Rightarrow> 'a lstate_scheme \<Rightarrow> bool" where
  "filled ws n s \<longleftrightarrow> reach s ws \<and> held s = [] \<and> log_size s = 30 \<and> lh_n s = of_nat n \<and> \<not> log_committing s \<and>
     log_outstanding s = of_nat (length ws) \<and> (\<forall>j < n. lh_block s j = of_nat j)"

lemma filled_begin:
  fixes s :: "'a lstate_scheme"
  assumes "filled ws n s" "n + (length ws + 1) * 10 \<le> 30"
  shows "\<exists>t :: 'a lstate_scheme. filled (0 # ws) n t"
proof -
  let ?t = "s\<lparr>log_outstanding := log_outstanding s + 1\<rparr>"
  have e: "lh_n s + (log_outstanding s + 1) * 10 = of_nat (n + (length ws + 1) * 10)"
    using assms(1) by (simp add: filled_def)
  have "sint (lh_n s + (log_outstanding s + 1) * 10) \<le> 30"
    unfolding e by (subst sint_small_nat) (use assms(2) in linarith)+
  then have b: "begin_op 0 stay_blocked s = Inr ?t"
    using assms(1) by (simp add: filled_def begin_op_def begin_op_loop.simps [of 0] lock_simps)
  have "reach ?t (0 # ws)" using assms(1) b by (auto simp: filled_def intro: reach.begin_op)
  then show ?thesis using assms(1) by (intro exI [of _ ?t]) (simp add: filled_def)
qed

lemma filled_write:
  fixes s :: "'a lstate_scheme"
  assumes s: "filled (xs @ w # ys) n s" and n: "n < 29" "w < 10" and ws: "length (xs @ w # ys) \<le> 3"
  shows "\<exists>t :: 'a lstate_scheme. filled (xs @ Suc w # ys) (Suc n) t"
proof -
  let ?u = "upd_buf 0 (\<lambda>x. x\<lparr>b_blockno := of_nat n\<rparr>) s"
  have u: "reach ?u (xs @ w # ys)" using s by (auto simp: filled_def intro: reach.other)
  have f: "log_size ?u = 30" "lh_n ?u = of_nat n" "log_outstanding ?u = of_nat (length (xs @ w # ys))" "held ?u = []"
      "lh_block ?u = lh_block s" "b_blockno (bufs ?u 0) = of_nat n"
    using s same_more [of ?u s] by (simp_all add: filled_def upd_buf_def)
  have len: "lh_len ?u = n" using lh_len_of_nat [OF f(2)] n(1) by simp
  have sn: "sint (of_nat n :: c_int) = int n" "1 \<le> sint (of_nat (length (xs @ w # ys)) :: c_int)"
    using sint_small_nat [of n] sint_small_nat [of "length (xs @ w # ys)"] n(1) ws by simp_all
  have "of_nat j \<noteq> (of_nat n :: u32)" if "j < n" for j
  proof -
    have "unat (of_nat j :: u32) = j" "unat (of_nat n :: u32) = n" using that n(1) by (simp_all add: unat_of_nat_lt)
    then show ?thesis using that by auto
  qed
  then have i: "log_index (lh_block s) (of_nat n) n 0 = n"
    using log_index_fresh [of 0 n "lh_block s" "of_nat n"] s by (simp add: filled_def)
  let ?t = "(upd_buf 0 (\<lambda>x. x\<lparr>b_refcnt := b_refcnt x + 1\<rparr>) ?u)\<lparr>lh_block := (lh_block s)(n := of_nat n), lh_n := of_nat n + 1\<rparr>"
  have t: "log_write 0 ?u = Inr ?t"
    using f len i sn n(1)
    by (simp add: log_write_def lock_simps Let_def bpin_def with_lock_def lh_len_def) (simp add: upd_buf_def)
  have "reach ?t (xs @ Suc w # ys)" by (rule reach.log_write [OF u n(2) t])
  then show ?thesis using s same_more [of "upd_buf 0 (\<lambda>x. x\<lparr>b_refcnt := b_refcnt x + 1\<rparr>) ?u" s]
    by (intro exI [of _ ?t]) (auto simp: filled_def less_Suc_eq)
qed

lemma filled_writes:
  fixes s :: "'a lstate_scheme"
  assumes "filled (xs @ w # ys) n s" "n + k \<le> 29" "w + k \<le> 10" "length (xs @ w # ys) \<le> 3"
  shows "\<exists>t :: 'a lstate_scheme. filled (xs @ (w + k) # ys) (n + k) t"
  using assms
proof (induction k arbitrary: w n s)
  case (Suc k)
  obtain u :: "'a lstate_scheme" where "filled (xs @ Suc w # ys) (Suc n) u"
    using filled_write [OF Suc.prems(1)] Suc.prems(2-4) by auto
  from Suc.IH [OF this] Suc.prems(2-4) show ?case by simp
qed auto

lemma full_log: "\<exists>s :: lstate. filled [9, 10, 10] 29 s"
proof -
  have "filled [] 0 demo_log"
    by (auto simp: filled_def demo_log_def bstate.defs lstate.defs demo_quiet intro: reach.start)
  then obtain s1 :: lstate where "filled [0] 0 s1" using filled_begin [of "[]" 0 demo_log] by auto
  then obtain s2 :: lstate where "filled [0, 0] 0 s2" using filled_begin [of "[0]" 0 s1] by auto
  then obtain s3 :: lstate where "filled [0, 0, 0] 0 s3" using filled_begin [of "[0, 0]" 0 s2] by auto
  then obtain s4 :: lstate where "filled [9, 0, 0] 9 s4" using filled_writes [of "[]" 0 "[0, 0]" 0 s3 9] by auto
  then obtain s5 :: lstate where "filled [9, 10, 0] 19 s5" using filled_writes [of "[9]" 0 "[0]" 9 s4 10] by auto
  then show ?thesis using filled_writes [of "[9, 10]" 0 "[]" 19 s5 10] by auto
qed

section \<open>Properties\<close>

text \<open>C9: Operations under way stay within what they reserved. In every state the kernel can
  reach by beginning operations, writing at most ten blocks in each and ending them, in any
  order, the blocks in the header and the blocks the operations under way may still write are
  at most LOGSIZE together, and at most three operations are under way.\<close>

theorem log_reservation:
  assumes "reach s ws"
  shows "sint (lh_n s) + int (sum_list (map (\<lambda>w. 10 - w) ws)) \<le> 30 \<and> 0 \<le> sint (lh_n s) \<and>
    log_outstanding s = of_nat (length ws) \<and> length ws \<le> 3"
proof -
  have r: "lh_n s = of_nat (lh_len s)" "lh_len s + sum_list (map (\<lambda>w. 10 - w) ws) \<le> 30"
      "log_outstanding s = of_nat (length ws)" "length ws \<le> 3"
    using reach_room [OF assms] by (auto simp: room_def)
  have "sint (lh_n s) = int (lh_len s)" using sint_small_nat [of "lh_len s"] r(1,2) by simp
  then show ?thesis using r(2-4) by linarith
qed

theorem log_reservation_witness:
  "\<exists>s :: lstate. reach s [9, 10, 10] \<and> lh_n s = 29 \<and> log_outstanding s = 3"
proof -
  obtain s :: lstate where s: "reach s [9, 10, 10]" "lh_n s = 29" using full_log by (auto simp: filled_def)
  then show ?thesis using log_reservation [OF s(1)] by auto
qed

text \<open>C32: Inside its reservation an operation's \<open>log_write\<close> succeeds as long as the log area has a block
  left, and panics otherwise. \<open>begin_op\<close> counts LOGSIZE blocks but the area's first block is
  the header, so an area of LOGSIZE blocks, which is what \<^verbatim>\<open>mkfs\<close> makes, is one block short of
  the reservations.\<close>

theorem log_write_in_reservation:
  assumes "reach s (xs @ w # ys)" "w < 10" "LogLock \<notin> set (held s)" "BcacheLock \<notin> set (held s)" "sint (log_size s) \<in> {1..1000}"
  shows "if sint (lh_n s) + 1 < sint (log_size s) then \<exists>t. log_write b s = Inr t
     else log_write b s = Inl (Panic ''too big a transaction'')"
proof -
  have r: "lh_n s = of_nat (lh_len s)" "lh_len s \<le> 29" "log_outstanding s = of_nat (length (xs @ w # ys))" "length (xs @ w # ys) \<le> 3"
    using reach_room [OF assms(1)] assms(2) by (auto simp: room_def)
  have n: "sint (lh_n s) = int (lh_len s)" using sint_small_nat [of "lh_len s"] r(1,2) by simp
  have out: "1 \<le> sint (log_outstanding s)" using sint_small_nat [of "length (xs @ w # ys)"] r(3,4) by simp
  have "sint (log_size s - 1) = sint (log_size s) - 1"
    using sint_add_small [of "log_size s" "- 1"] assms(5) by simp
  then show ?thesis using n r(2) out assms(3,4)
    by (auto simp: log_write_def lock_simps Let_def bpin_def with_lock_def)
qed

theorem log_write_in_reservation_witness:
  "\<exists>s :: lstate. reach s [9, 10, 10] \<and> log_size s = 30 \<and> log_write 0 s = Inl (Panic ''too big a transaction'')"
proof -
  obtain s :: lstate where s: "reach s ([] @ 9 # [10, 10])" "lh_n s = 29" "log_size s = 30" "held s = []"
    using full_log by (auto simp: filled_def)
  have "log_write 0 s = Inl (Panic ''too big a transaction'')"
    using log_write_in_reservation [OF s(1), of 0] s(2-4) by simp
  then show ?thesis using s by auto
qed

end
