(* ===== verification/FsSpec.thy ===== *)
theory FsSpec
  imports Fs LogSpec
begin

text \<open>
  What the file system promises: path names are resolved element by element, an inode that
  is written to its block and read back is the same inode, and the bytes \<open>writei\<close> puts into a
  file are the ones \<open>readi\<close> finds there.
\<close>

section \<open>Path names\<close>

text \<open>The elements of a path: its parts between slashes, empty ones left out, cut to DIRSIZ.\<close>

fun split_slash :: "u8 list \<Rightarrow> u8 list list" where
  "split_slash [] = [[]]"
| "split_slash (c # cs) =
     (if c = slash then [] # split_slash cs
      else case split_slash cs of [] \<Rightarrow> [[c]] | x # xs \<Rightarrow> (c # x) # xs)"

definition elements :: "u8 list \<Rightarrow> u8 list list" where
  "elements path = map (take DIRSIZ) (filter (\<lambda>x. x \<noteq> []) (split_slash path))"

text \<open>Resolution of a list of elements.\<close>

fun resolve ::
  "bool \<Rightarrow> nat \<Rightarrow> u8 list \<Rightarrow> u8 list list \<Rightarrow> 'a fstate_scheme \<Rightarrow> stop + (nat \<times> u8 list) option \<times> 'a fstate_scheme" where
  "resolve nip ip name [] s =
     (if nip then bindE (iput ip s) (\<lambda>s. Inr (None, s)) else Inr (Some (ip, name), s))"
| "resolve nip ip _ (name # names) s =
     bindE (ilock ip s) (\<lambda>s.
     if i_type (inodes s ip) \<noteq> T_DIR then bindE (iunlockput ip s) (\<lambda>s. Inr (None, s))
     else if nip \<and> names = [] then bindE (iunlock ip s) (\<lambda>s. Inr (Some (ip, name), s))
     else
       bindE (dirlookup ip name s) (\<lambda>(hit, s).
       case hit of
         None \<Rightarrow> bindE (iunlockput ip s) (\<lambda>s. Inr (None, s))
       | Some (ip', _) \<Rightarrow> bindE (iunlockput ip s) (resolve nip ip' name names)))"

lemma split_slash_ne [simp]: "split_slash p \<noteq> []"
  by (induction p) (auto split: list.splits)

lemma split_slash_elem: "slash \<notin> set e \<Longrightarrow> split_slash (e @ r) = (e @ hd (split_slash r)) # tl (split_slash r)"
  by (induction e) (auto split: list.splits)

lemma elements_Nil [simp]: "elements [] = []"
  by (simp add: elements_def)

lemma elements_slash: "elements (slash # p) = elements p"
  by (simp add: elements_def)

lemma elements_drop: "elements (dropWhile (\<lambda>c. c = slash) p) = elements p"
  by (induction p) (auto simp: elements_slash)

lemma elements_append:
  assumes "slash \<notin> set e" "e \<noteq> []" "r = [] \<or> hd r = slash"
  shows "elements (e @ r) = take DIRSIZ e # elements r"
proof -
  have "hd (split_slash r) = []" using assms(3) by (cases r) auto
  moreover from this have "filter (\<lambda>x. x \<noteq> []) (tl (split_slash r)) = filter (\<lambda>x. x \<noteq> []) (split_slash r)"
    by (cases "split_slash r") auto
  ultimately show ?thesis using split_slash_elem [OF assms(1), of r] assms(2) by (simp add: elements_def)
qed

lemma elements_skipelem:
  "elements p = (case skipelem p of None \<Rightarrow> [] | Some (e, r) \<Rightarrow> e # elements r)"
proof -
  define q where "q = dropWhile (\<lambda>c. c = slash) p"
  define e where "e = takeWhile (\<lambda>c. c \<noteq> slash) q"
  define r where "r = dropWhile (\<lambda>c. c \<noteq> slash) q"
  have q: "elements p = elements q" unfolding q_def by (rule elements_drop [symmetric])
  have sk: "skipelem p = (if q = [] then None else Some (take DIRSIZ e, dropWhile (\<lambda>c. c = slash) r))"
    by (simp only: skipelem_def Let_def q_def e_def r_def)
  show ?thesis
  proof (cases "q = []")
    case True
    then show ?thesis unfolding q sk by (simp add: elements_def)
  next
    case False
    have er: "q = e @ r" unfolding e_def r_def by (rule takeWhile_dropWhile_id [symmetric])
    have "hd q \<noteq> slash" using False unfolding q_def by (rule hd_dropWhile)
    then have ne: "e \<noteq> []" using False unfolding e_def by (cases q) auto
    have "slash \<notin> set e" unfolding e_def by (auto dest: set_takeWhileD)
    moreover have "r = [] \<or> hd r = slash" using hd_dropWhile [of "\<lambda>c. c \<noteq> slash" q] unfolding r_def by blast
    ultimately have "elements q = take DIRSIZ e # elements r" unfolding er using ne by (intro elements_append)
    then show ?thesis unfolding q sk using False elements_drop [of r] by simp
  qed
qed

lemma skipelem_rest:
  assumes "skipelem p = Some (e, r)"
  shows "elements r = [] \<longleftrightarrow> r = []"
proof -
  obtain q where r: "r = dropWhile (\<lambda>c. c = slash) q"
    using assms unfolding skipelem_def Let_def by (auto split: if_splits)
  then have "dropWhile (\<lambda>c. c = slash) r = r" by simp
  then have "skipelem r = None \<longleftrightarrow> r = []" unfolding skipelem_def Let_def by simp
  then show ?thesis using elements_skipelem [of r] by (auto simp: elements_def split: option.splits)
qed

text \<open>C24: Path resolution is resolution of the path's elements. The loop of \<open>namex\<close>, which cuts one
  element at a time off the string, does what a recursion over the list of elements does,
  where the elements are the non-empty parts between slashes, cut to DIRSIZ bytes: repeated,
  leading and trailing slashes make no difference.\<close>

theorem namex_resolves_elements:
  fixes s :: "'a fstate_scheme"
  shows "namex_loop nip ip name path s = resolve nip ip name (elements path) s"
proof (induction path arbitrary: ip name s rule: length_induct)
  case (1 path)
  show ?case
  proof (cases "skipelem path")
    case None
    then show ?thesis by (subst namex_loop.simps) (simp add: elements_skipelem [of path])
  next
    case (Some er)
    then obtain e r where er: "skipelem path = Some (e, r)" by (cases er) auto
    have el: "elements r = [] \<longleftrightarrow> r = []" "elements path = e # elements r"
      using er skipelem_rest elements_skipelem [of path] by auto
    have ih: "namex_loop nip a e r = (resolve nip a e (elements r) :: 'a fstate_scheme \<Rightarrow> _)" for a
      using "1.IH" skipelem_shorter [OF er] by (intro ext) blast
    show ?thesis unfolding namex_loop.simps [of nip ip name path s] er option.case prod.case el resolve.simps ih ..
  qed
qed

section \<open>Inodes on disk\<close>

text \<open>A block of fields, each written once at its own place.\<close>

lemma get_put_other:
  "off + 4 \<le> length d \<Longrightarrow> j + m \<le> off \<or> off + 4 \<le> j \<Longrightarrow> get_bytes (put32 d off v) j m = get_bytes d j m"
  "off + 2 \<le> length d \<Longrightarrow> j + m \<le> off \<or> off + 2 \<le> j \<Longrightarrow> get_bytes (put16 d off w) j m = get_bytes d j m"
  by (simp_all add: put32_def put16_def get_put_bytes_other)

lemma fold_put32:
  assumes "off + 4 * n \<le> length d"
  shows "length (fold (\<lambda>k d. put32 d (off + 4 * k) (f k)) [0..<n] d) = length d"
    "i < n \<Longrightarrow> get32 (fold (\<lambda>k d. put32 d (off + 4 * k) (f k)) [0..<n] d) (off + 4 * i) = f i"
    "j + m \<le> off \<or> off + 4 * n \<le> j \<Longrightarrow>
       get_bytes (fold (\<lambda>k d. put32 d (off + 4 * k) (f k)) [0..<n] d) j m = get_bytes d j m"
proof -
  let ?e = "\<lambda>k. fold (\<lambda>k d. put32 d (off + 4 * k) (f k)) [0..<k] d"
  have l: "length (?e k) = length d" if "k \<le> n" for k
    using that by (induction k) (use assms in simp_all)
  then show "length (?e n) = length d" by simp
  have "i < k \<Longrightarrow> get32 (?e k) (off + 4 * i) = f i" if "k \<le> n" for k
    using that
  proof (induction k)
    case (Suc k)
    then show ?case using l [of k] assms by (cases "i = k") (simp_all add: get32_put32_other)
  qed simp
  then show "i < n \<Longrightarrow> get32 (?e n) (off + 4 * i) = f i" by simp
  show "get_bytes (?e n) j m = get_bytes d j m" if o: "j + m \<le> off \<or> off + 4 * n \<le> j"
  proof -
    have "get_bytes (?e k) j m = get_bytes d j m" if "k \<le> n" for k
      using that
    proof (induction k)
      case (Suc k)
      then have "get_bytes (put32 (?e k) (off + 4 * k) (f k)) j m = get_bytes (?e k) j m"
        using l [of k] assms o by (intro get_put_other(1)) auto
      then show ?case using Suc by simp
    qed simp
    then show ?thesis by simp
  qed
qed

lemma get_via_bytes: "get_bytes d j 2 = get_bytes e j 2 \<Longrightarrow> get16 d j = get16 e j" "get_bytes d j 4 = get_bytes e j 4 \<Longrightarrow> get32 d j = get32 e j"
  by (simp_all add: get16_def get32_def)

lemma get16_put32_other: "off + 4 \<le> length d \<Longrightarrow> j + 2 \<le> off \<or> off + 4 \<le> j \<Longrightarrow> get16 (put32 d off v) j = get16 d j"
  by (rule get_via_bytes(1)) (rule get_put_other)

text \<open>The fields that an inode has on disk.\<close>

definition same_dinode :: "inode \<Rightarrow> inode \<Rightarrow> bool" where
  "same_dinode i j \<longleftrightarrow> i_type i = i_type j \<and> i_major i = i_major j \<and> i_minor i = i_minor j \<and> i_nlink i = i_nlink j \<and>
     i_size i = i_size j \<and> (\<forall>k \<le> NDIRECT. i_addrs i k = i_addrs j k)"

lemma put_dinode_ok:
  assumes "off + 64 \<le> length d"
  shows "length (put_dinode off i d) = length d" "same_dinode (get_dinode off (put_dinode off i d) j) i"
    "a + n \<le> off \<or> off + 64 \<le> a \<Longrightarrow> get_bytes (put_dinode off i d) a n = get_bytes d a n"
proof -
  define h where "h = put32 (put16 (put16 (put16 (put16 d off (i_type i)) (off + 2) (i_major i)) (off + 4) (i_minor i)) (off + 6) (i_nlink i))
          (off + 8) (i_size i)"
  have p: "put_dinode off i d = fold (\<lambda>k d. put32 d (off + 12 + 4 * k) (i_addrs i k)) [0..<NDIRECT + 1] h"
    unfolding put_dinode_def h_def ..
  have lh: "length h = length d" using assms by (simp add: h_def)
  then have "off + 12 + 4 * (NDIRECT + 1) \<le> length h" using assms by simp
  note f = fold_put32 [OF this, where f = "i_addrs i", folded p]
  show "length (put_dinode off i d) = length d" using f(1) lh by simp
  have h: "get16 h off = i_type i" "get16 h (off + 2) = i_major i" "get16 h (off + 4) = i_minor i" "get16 h (off + 6) = i_nlink i"
      "get32 h (off + 8) = i_size i"
    using assms by (simp_all add: h_def get16_put16_other get16_put32_other)
  have "get_bytes (put_dinode off i d) x n = get_bytes h x n" if "x + n \<le> off + 12" for x n using f(3) [of x n] that by simp
  then have g: "x + 2 \<le> off + 12 \<Longrightarrow> get16 (put_dinode off i d) x = get16 h x"
    "x + 4 \<le> off + 12 \<Longrightarrow> get32 (put_dinode off i d) x = get32 h x" for x
    using get_via_bytes [of "put_dinode off i d" x h] by simp_all
  have "get32 (put_dinode off i d) (off + 12 + 4 * k) = i_addrs i k" if "k \<le> NDIRECT" for k
    using f(2) [of k] that by simp
  then show "same_dinode (get_dinode off (put_dinode off i d) j) i"
    using h by (simp add: same_dinode_def get_dinode_def g)
  show "get_bytes (put_dinode off i d) a n = get_bytes d a n" if "a + n \<le> off \<or> off + 64 \<le> a"
  proof -
    have "get_bytes (put_dinode off i d) a n = get_bytes h a n" by (rule f(3)) (use that in auto)
    also have "\<dots> = get_bytes d a n"
      using that unfolding h_def by (rule disjE) (use assms in \<open>simp_all add: get_put_other\<close>)
    finally show ?thesis .
  qed
qed

text \<open>C25: An inode that is copied to its place in a block and read back is the same inode, and no other
  inode of the block changes.\<close>

theorem dinode_roundtrip:
  assumes "length d = BSIZE"
  shows "same_dinode (get_dinode (dinode_off n) (put_dinode (dinode_off n) i d) j) i \<and>
    length (put_dinode (dinode_off n) i d) = BSIZE \<and>
    (\<forall>m. m mod IPB \<noteq> n mod IPB \<longrightarrow> get_dinode (dinode_off m) (put_dinode (dinode_off n) i d) j = get_dinode (dinode_off m) d j)"
proof -
  have off: "dinode_off m + 64 \<le> length d" for m
  proof -
    have "unat (m mod 16) < 16" by (simp add: unat_mod)
    then show ?thesis using assms unfolding dinode_off_def by linarith
  qed
  note p = put_dinode_ok [OF off [of n], where i = i]
  have "get_dinode (dinode_off m) (put_dinode (dinode_off n) i d) j = get_dinode (dinode_off m) d j"
    if "m mod IPB \<noteq> n mod IPB" for m
  proof -
    have "unat (m mod 16) \<noteq> unat (n mod 16)" using that by (simp add: word_unat_eq_iff)
    then have "dinode_off m + 64 \<le> dinode_off n \<or> dinode_off n + 64 \<le> dinode_off m" unfolding dinode_off_def by linarith
    then have b: "get_bytes (put_dinode (dinode_off n) i d) x k = get_bytes d x k"
      if "dinode_off m \<le> x" "x + k \<le> dinode_off m + 64" for x k
      using that by (intro p(3)) linarith
    have g16: "get16 (put_dinode (dinode_off n) i d) (dinode_off m + x) = get16 d (dinode_off m + x)" if "x \<le> 62" for x
      by (rule get_via_bytes(1), rule b) (use that in simp_all)
    have g32: "get32 (put_dinode (dinode_off n) i d) (dinode_off m + x) = get32 d (dinode_off m + x)" if "x \<le> 60" for x
      by (rule get_via_bytes(2), rule b) (use that in simp_all)
    have "get32 (put_dinode (dinode_off n) i d) (dinode_off m + 12 + 4 * k) = get32 d (dinode_off m + 12 + 4 * k)" if "k \<le> NDIRECT" for k
      using g32 [of "12 + 4 * k"] that by (simp add: add.assoc)
    then have "(\<lambda>k. if k \<le> NDIRECT then get32 (put_dinode (dinode_off n) i d) (dinode_off m + 12 + 4 * k) else i_addrs j k) =
        (\<lambda>k. if k \<le> NDIRECT then get32 d (dinode_off m + 12 + 4 * k) else i_addrs j k)" by auto
    then show ?thesis
      unfolding get_dinode_def using g16 [of 0] g16 [of 2] g16 [of 4] g16 [of 6] g32 [of 8] by simp
  qed
  then show ?thesis using p(1,2) assms by simp
qed

definition demo_file :: inode where
  "demo_file = \<lparr>i_dev = 1, i_inum = 17, i_ref = 1, i_valid = True, i_type = 2, i_major = 0, i_minor = 0, i_nlink = 1,
     i_size = 1500, i_addrs = (\<lambda>k. if k < 2 then 50 + of_nat k else 0)\<rparr>"

theorem dinode_roundtrip_witness:
  "length (replicate BSIZE 0 :: u8 list) = BSIZE \<and>
   i_size (get_dinode (dinode_off 17) (put_dinode (dinode_off 17) demo_file (replicate BSIZE 0)) (demo_file\<lparr>i_size := 0\<rparr>)) = 1500"
  using dinode_roundtrip [of "replicate BSIZE 0" 17 demo_file "demo_file\<lparr>i_size := 0\<rparr>"]
  by (simp add: same_dinode_def demo_file_def)

section \<open>File contents\<close>

text \<open>
  A file whose first \<open>nb\<close> blocks are allocated among the direct ones, and its contents: the
  current contents of these blocks one after the other.
\<close>

definition file_on :: "nat \<Rightarrow> nat \<Rightarrow> 'a fstate_scheme \<Rightarrow> bool" where
  "file_on nb ip s \<longleftrightarrow> i_dev (inodes s ip) = 1 \<and> nb \<le> NDIRECT \<and> inj_on (i_addrs (inodes s ip)) {..<nb} \<and>
     (\<forall>k < nb. i_addrs (inodes s ip) k \<noteq> 0 \<and> length (logical s 1 (i_addrs (inodes s ip) k)) = BSIZE)"

definition contents :: "nat \<Rightarrow> nat \<Rightarrow> 'a fstate_scheme \<Rightarrow> u8 list" where
  "contents nb ip s = concat (map (\<lambda>k. logical s 1 (i_addrs (inodes s ip) k)) [0..<nb])"

lemma length_blocks: "(\<And>k. k < nb \<Longrightarrow> length (f k) = n) \<Longrightarrow> length (concat (map f [0..<nb])) = n * nb"
  by (induction nb) auto

lemma blocks_split:
  assumes "k < nb"
  shows "concat (map f [0..<nb]) = concat (map f [0..<k]) @ f k @ concat (map f [Suc k..<nb])"
proof -
  have "[0..<nb] = [0..<k] @ k # [Suc k..<nb]"
    using assms upt_add_eq_append [of 0 k "nb - k"] upt_conv_Cons [of k nb] by simp
  then show ?thesis by simp
qed

lemma blocks_get:
  assumes f: "\<And>k. k < nb \<Longrightarrow> length (f k) = n" and k: "k < nb" and r: "r + m \<le> n"
  shows "get_bytes (concat (map f [0..<nb])) (n * k + r) m = get_bytes (f k) r m"
proof -
  have "length (concat (map f [0..<k])) = n * k" using f k by (intro length_blocks) simp
  then have "drop (n * k + r) (concat (map f [0..<nb])) = drop r (f k @ concat (map f [Suc k..<nb]))"
    using blocks_split [OF k, of f] by (simp add: add.commute [of "n * k"] drop_drop [symmetric] del: drop_drop)
  moreover have "r + m \<le> length (f k)" using f k r by simp
  ultimately show ?thesis by (simp add: get_bytes_def)
qed

lemma blocks_put:
  assumes f: "\<And>k. k < nb \<Longrightarrow> length (f k) = n" and k: "k < nb" and r: "r + length d \<le> n"
    and g: "\<And>j. j < nb \<Longrightarrow> g j = (if j = k then put_bytes (f k) r d else f j)"
  shows "concat (map g [0..<nb]) = put_bytes (concat (map f [0..<nb])) (n * k + r) d"
proof -
  have l: "length (concat (map f [0..<k])) = n * k" "length (f k) = n" using f k by (auto intro: length_blocks)
  have e: "map g [0..<k] = map f [0..<k]" "map g [Suc k..<nb] = map f [Suc k..<nb]" using g k by auto
  have "concat (map g [0..<nb]) = concat (map f [0..<k]) @ put_bytes (f k) r d @ concat (map f [Suc k..<nb])"
    unfolding blocks_split [OF k, of g] e using g [OF k] by simp
  then show ?thesis using l r blocks_split [OF k, of f] by (simp add: put_bytes_def)
qed

lemma get_bytes_split: "get_bytes d off (m + n) = get_bytes d off m @ get_bytes d (off + m) n"
  by (simp add: get_bytes_def take_add add.commute)

lemma put_bytes_append:
  "off + length a + length b \<le> length d \<Longrightarrow> put_bytes (put_bytes d off a) (off + length a) b = put_bytes d off (a @ b)"
  by (simp add: put_bytes_def add.commute add.left_commute)

lemma same_fs:
  assumes "lstate.more t = lstate.more s"
  shows "inodes t = inodes s" "sb t = sb s"
  using assms by (cases s; cases t; simp)+

lemma blk_pos:
  assumes "unat off + left \<le> BSIZE * nb" "nb \<le> NDIRECT" "0 < left"
  shows "unat (off div of_nat BSIZE) = unat off div BSIZE" "unat off div BSIZE < nb"
    "unat off = BSIZE * (unat off div BSIZE) + unat off mod BSIZE"
    "unat off mod BSIZE + blk_chunk off left \<le> BSIZE" "blk_chunk off left \<le> left"
    "unat (off + of_nat (blk_chunk off left)) = unat off + blk_chunk off left"
proof -
  show "unat (off div of_nat BSIZE) = unat off div BSIZE" by (simp add: unat_div)
  show "unat off div BSIZE < nb" using assms by (simp add: less_mult_imp_div_less mult.commute)
  show "unat off = BSIZE * (unat off div BSIZE) + unat off mod BSIZE" by simp
  have "unat off mod BSIZE < BSIZE" by simp
  then show "unat off mod BSIZE + blk_chunk off left \<le> BSIZE" unfolding blk_chunk_def by linarith
  show m: "blk_chunk off left \<le> left" by (simp add: blk_chunk_def)
  have "BSIZE * nb \<le> BSIZE * NDIRECT" using assms(2) by (rule mult_le_mono2)
  then have "unat off + blk_chunk off left < 2 ^ 32" using assms(1) m by simp
  then show "unat (off + of_nat (blk_chunk off left)) = unat off + blk_chunk off left"
    by (intro unat_add_of_nat) simp
qed

section \<open>Reading\<close>

lemma bmap_direct:
  assumes "file_on nb ip s" "unat bn < nb"
  shows "bmap ip bn s = Inr (i_addrs (inodes s ip) (unat bn), s)"
  using assms by (auto simp: bmap_def file_on_def Let_def)

lemma file_same:
  assumes "lstate.more t = lstate.more s" "\<And>m. logical t 1 m = logical s 1 m"
  shows "file_on nb ip t = file_on nb ip s" "contents nb ip t = contents nb ip s"
  using same_fs [OF assms(1)] assms(2) by (simp_all add: file_on_def contents_def)

lemma file_get:
  assumes "file_on nb ip s" "k < nb" "r + m \<le> BSIZE"
  shows "get_bytes (logical s 1 (i_addrs (inodes s ip) k)) r m = get_bytes (contents nb ip s) (BSIZE * k + r) m"
  unfolding contents_def using assms by (intro blocks_get [symmetric]) (auto simp: file_on_def)

lemma readi_loop_ok:
  assumes "cache_ok p P {} s" "file_on nb ip s" "unat off + left \<le> BSIZE * nb" "card P < NBUF"
  shows "\<exists>s'. readi_loop ip KernObj tot off left s = Inr ((of_nat (tot + left), get_bytes (contents nb ip s) (unat off) left), s') \<and>
    cache_ok p P {} s' \<and> same_rest s s' \<and> dwrites s' = dwrites s \<and> (\<forall>m. logical s' 1 m = logical s 1 m)"
  using assms
proof (induction left arbitrary: tot off s rule: less_induct)
  case (less left tot off s)
  show ?case
  proof (cases "left = 0")
    case True
    then show ?thesis using less.prems by (simp add: readi_loop.simps [of ip KernObj tot off 0] get_bytes_def same_rest_def)
  next
    case False
    have nb: "nb \<le> NDIRECT" using less.prems(2) by (simp add: file_on_def)
    have "0 < left" using False by simp
    note q = blk_pos [OF less.prems(3) nb this]
    let ?k = "unat off div BSIZE" and ?r = "unat off mod BSIZE" and ?m = "blk_chunk off left"
    let ?a = "i_addrs (inodes s ip) ?k"
    have bm: "bmap ip (off div of_nat BSIZE) s = Inr (?a, s)" using bmap_direct [OF less.prems(2)] q(1,2) by simp
    have dev: "i_dev (inodes s ip) = 1" using less.prems(2) by (simp add: file_on_def)
    obtain b s1 where r: "bread 1 ?a s = Inr (b, s1)" "cache_ok p P {?a} s1" "same_rest s s1" "b < NBUF"
        "caches 1 ?a (bufs s1 b)" "dwrites s1 = dwrites s" "\<And>n. logical s1 1 n = logical s 1 n"
      using cached_read [OF less.prems(1), of ?a] less.prems(4) by auto
    have d: "b_data (bufs s1 b) = logical s 1 ?a" using cached_data [OF r(2,4,5)] r(7) by simp
    have wb: "logical s1 1 ?a = disk_now s1 ?a" if "?a \<notin> P"
      using unpinned_clean [OF less.prems(1) that] r(7) disk_now_same_rest [OF r(3), of "[]"] r(6) by simp
    obtain s2 where s2: "brelse b s1 = Inr s2" "cache_ok p P ({?a} - {?a}) s2" "same_rest s1 s2" "dwrites s2 = dwrites s1"
        "\<And>n. logical s2 1 n = logical s1 1 n"
      using cached_release [OF r(2,4,5) singletonI wb] by blast
    have rest: "same_rest s s2" by (rule same_rest_trans [OF r(3) s2(3)])
    have lg: "logical s2 1 n = logical s 1 n" for n using r(7) s2(5) by simp
    note fs = same_fs [OF same_rest_log(8) [OF r(3)]] file_same [OF same_rest_log(8) [OF rest] lg]
    have ok2: "cache_ok p P {} s2" using s2(2) by simp
    have "left - ?m < left" using False blk_chunk_pos [of left off] by simp
    moreover have "file_on nb ip s2" using less.prems(2) fs by simp
    moreover have "unat (off + of_nat ?m) + (left - ?m) \<le> BSIZE * nb" using q(5,6) less.prems(3) by simp
    ultimately obtain s3 where s3: "readi_loop ip KernObj (tot + ?m) (off + of_nat ?m) (left - ?m) s2 =
          Inr ((of_nat (tot + ?m + (left - ?m)), get_bytes (contents nb ip s2) (unat off + ?m) (left - ?m)), s3)"
        "cache_ok p P {} s3" "same_rest s2 s3" "dwrites s3 = dwrites s2" "\<And>n. logical s3 1 n = logical s2 1 n"
      using less.IH [OF _ ok2 _ _ less.prems(4), of "left - ?m" "off + of_nat ?m" "tot + ?m"] unfolding q(6) by blast
    have piece: "get_bytes (logical s 1 ?a) ?r ?m = get_bytes (contents nb ip s) (unat off) ?m"
      using file_get [OF less.prems(2) q(2,4)] q(3) by simp
    have sp: "get_bytes (contents nb ip s) (unat off) left =
        get_bytes (contents nb ip s) (unat off) ?m @ get_bytes (contents nb ip s) (unat off + ?m) (left - ?m)"
      using get_bytes_split [of "contents nb ip s" "unat off" ?m "left - ?m"] q(5) by simp
    have "readi_loop ip KernObj tot off left s = Inr ((of_nat (tot + left), get_bytes (contents nb ip s) (unat off) left), s3)"
      using False bm dev r(1) s2(1) s3(1) fs(1,4) q(5) d piece
      by (subst readi_loop.simps) (simp add: either_copyout_def Let_def sp)
    moreover have "same_rest s s3" by (rule same_rest_trans [OF rest s3(3)])
    ultimately show ?thesis using s3 lg r(6) s2(4) q(5) by auto
  qed
qed

section \<open>Writing\<close>

lemma same_env_trans: "same_env s t \<Longrightarrow> same_env t u \<Longrightarrow> same_env s u"
  by (simp add: same_env_def)

text \<open>One round of \<open>writei\<close>: read the block, change a part of it, log it and release it.\<close>

lemma write_block:
  fixes s :: "'a fstate_scheme"
  assumes t: "txn p P {} s" and n: "lh_len s < 29"
  shows "\<exists>b (s1 :: 'a fstate_scheme) s2 s3. bread 1 a s = Inr (b, s1) \<and> b_data (bufs s1 b) = logical s 1 a \<and>
    same_rest s s1 \<and> log_write b (set_data b d s1) = Inr s2 \<and> brelse b s2 = Inr s3 \<and> txn p (insert a P) {} s3 \<and>
    lstate.more s3 = lstate.more s \<and> lh_len s1 = lh_len s \<and>
    (\<forall>m. logical s3 1 m = (if m = a then d else logical s 1 m))"
proof -
  have ok: "cache_ok p P {} s" and P: "P = lh_block s ` {..<lh_len s}" using t by (auto simp: txn_def)
  have card: "card P < NBUF" using card_image_le [of "{..<lh_len s}" "lh_block s"] n P by simp
  obtain b s1 where r: "bread 1 a s = Inr (b, s1)" "cache_ok p P {a} s1" "same_rest s s1" "b < NBUF"
      "caches 1 a (bufs s1 b)" "dwrites s1 = dwrites s" "\<And>n. logical s1 1 n = logical s 1 n"
    using cached_read [OF ok, of a] card by auto
  have dt: "b_data (bufs s1 b) = logical s 1 a" using cached_data [OF r(2,4,5)] r(7) by simp
  have "a \<in> P \<union> {a}" by simp
  note st = cached_set [OF r(2,4,5) this, where d = d]
  have c2: "caches 1 a (bufs (set_data b d s1) b)" by (rule keepsD [OF st(3) r(4) UNIV_I r(5)])
  have rest: "same_rest s (set_data b d s1)" by (rule same_rest_trans [OF r(3) st(4)])
  have t2: "txn p P {a} (set_data b d s1)" by (rule txn_rest [OF t st(1) rest])
  have n2: "lh_len (set_data b d s1) < 29" "lh_len s1 = lh_len s"
    using n same_rest_log(6) [OF rest] same_rest_log(6) [OF r(3)] by (simp_all add: lh_len_def)
  obtain s2 :: "'a fstate_scheme" where s2: "log_write b (set_data b d s1) = Inr s2" "txn p (insert a P) {a} s2"
      "same_env (set_data b d s1) s2" "keeps UNIV (set_data b d s1) s2" "\<And>k. logical s2 1 k = logical (set_data b d s1) 1 k"
    using cached_log_write [OF t2 n2(1) r(4) c2 singletonI] by blast
  have ok2: "cache_ok p (insert a P) {a} s2" using s2(2) unfolding txn_def by blast
  obtain s3 where s3: "brelse b s2 = Inr s3" "cache_ok p (insert a P) ({a} - {a}) s3" "same_rest s2 s3"
      "\<And>n. logical s3 1 n = logical s2 1 n"
    using cached_release [OF ok2 r(4) keepsD [OF s2(4) r(4) UNIV_I c2] singletonI] by auto
  have t3: "txn p (insert a P) {} s3" using txn_rest [OF s2(2) _ s3(3), of "{}"] s3(2) by simp
  have m: "lstate.more s3 = lstate.more s"
    using same_rest_log(8) [OF rest] s2(3) same_rest_log(8) [OF s3(3)] by (simp add: same_env_def)
  have lg: "logical s3 1 k = (if k = a then d else logical s 1 k)" for k using s3(4) s2(5) st(2) r(7) by simp
  show ?thesis using r(1,3) dt s2(1) s3(1) t3 m n2(2) lg by blast
qed

lemma txn_len:
  assumes "txn p P L s" "P \<subseteq> K" "card K \<le> n"
  shows "lh_len s \<le> n"
proof -
  have "lh_len s = card P" using assms(1) card_image [of "lh_block s" "{..<lh_len s}"] by (auto simp: txn_def)
  also have "\<dots> \<le> card K" using assms(2) by (intro card_mono) auto
  finally show ?thesis using assms(3) by simp
qed

definition addrs :: "nat \<Rightarrow> nat \<Rightarrow> 'a fstate_scheme \<Rightarrow> u32 set" where
  "addrs nb ip s = i_addrs (inodes s ip) ` {..<nb}"

lemma file_put:
  assumes f: "file_on nb ip s" and k: "k < nb" and r: "r + length d \<le> BSIZE"
    and t: "lstate.more t = lstate.more s"
      "\<And>m. logical t 1 m = (if m = i_addrs (inodes s ip) k then put_bytes (logical s 1 (i_addrs (inodes s ip) k)) r d else logical s 1 m)"
  shows "file_on nb ip t" "contents nb ip t = put_bytes (contents nb ip s) (BSIZE * k + r) d"
proof -
  note fs = same_fs [OF t(1)]
  have l: "length (logical s 1 (i_addrs (inodes s ip) j)) = BSIZE" if "j < nb" for j using f that by (simp add: file_on_def)
  have a: "logical t 1 (i_addrs (inodes s ip) j) =
      (if j = k then put_bytes (logical s 1 (i_addrs (inodes s ip) k)) r d else logical s 1 (i_addrs (inodes s ip) j))" if "j < nb" for j
    using t(2) inj_onD [of "i_addrs (inodes s ip)" "{..<nb}" j k] f k that by (auto simp: file_on_def)
  show "file_on nb ip t" using f a l [OF k] l r by (simp add: file_on_def fs)
  show "contents nb ip t = put_bytes (contents nb ip s) (BSIZE * k + r) d"
    unfolding contents_def fs by (rule blocks_put [OF l k r]) (use a in simp_all)
qed

lemma writei_loop_ok:
  fixes s :: "'a fstate_scheme"
  assumes "txn p P {} s" "P \<subseteq> K" "addrs nb ip s \<subseteq> K" "card K \<le> 28" "file_on nb ip s"
    "unat off + left \<le> BSIZE * nb" "tot + left \<le> length bs"
  shows "\<exists>(s' :: 'a fstate_scheme) P'. writei_loop ip (FromObj bs) tot off left s = Inr ((tot + left, off + of_nat left), s') \<and>
    txn p P' {} s' \<and> P' \<subseteq> K \<and> lstate.more s' = lstate.more s \<and> file_on nb ip s' \<and>
    contents nb ip s' = put_bytes (contents nb ip s) (unat off) (get_bytes bs tot left) \<and>
    (\<forall>m. m \<notin> addrs nb ip s \<longrightarrow> logical s' 1 m = logical s 1 m)"
  using assms
proof (induction left arbitrary: tot off s P rule: less_induct)
  case (less left tot off s P)
  show ?case
  proof (cases "left = 0")
    case True
    then show ?thesis using less.prems
      by (intro exI [of _ s] exI [of _ P]) (simp add: writei_loop.simps [of ip "FromObj bs" tot off 0] get_bytes_def put_bytes_def)
  next
    case False
    have nb: "nb \<le> NDIRECT" and dev: "i_dev (inodes s ip) = 1" using less.prems(5) by (simp_all add: file_on_def)
    have "0 < left" using False by simp
    note q = blk_pos [OF less.prems(6) nb this]
    let ?k = "unat off div BSIZE" and ?r = "unat off mod BSIZE" and ?m = "blk_chunk off left"
    let ?a = "i_addrs (inodes s ip) ?k" and ?d = "get_bytes bs tot ?m"
    have ld: "length ?d = ?m" using less.prems(7) q(5) by (simp add: get_bytes_def)
    have bm: "bmap ip (off div of_nat BSIZE) s = Inr (?a, s)" using bmap_direct [OF less.prems(5)] q(1,2) by simp
    have "lh_len s < 29" using txn_len [OF less.prems(1,2,4)] by simp
    from write_block [OF less.prems(1) this, of ?a "put_bytes (logical s 1 ?a) ?r ?d"]
    obtain b s2 and s1 s3 :: "'a fstate_scheme" where w: "bread 1 ?a s = Inr (b, s1)" "b_data (bufs s1 b) = logical s 1 ?a" "same_rest s s1"
        "log_write b (set_data b (put_bytes (logical s 1 ?a) ?r ?d) s1) = Inr s2" "brelse b s2 = Inr s3"
        "txn p (insert ?a P) {} s3" "lstate.more s3 = lstate.more s"
        "\<And>m. logical s3 1 m = (if m = ?a then put_bytes (logical s 1 ?a) ?r ?d else logical s 1 m)"
      by blast
    have aK: "?a \<in> addrs nb ip s" using q(2) by (simp add: addrs_def)
    note f3 = file_put [OF less.prems(5) q(2) _ w(7,8), unfolded ld, OF q(4)]
    have ad: "addrs nb ip s3 = addrs nb ip s" using same_fs [OF w(7)] by (simp add: addrs_def)
    have i: "left - ?m < left" "insert ?a P \<subseteq> K" "addrs nb ip s3 \<subseteq> K"
      "unat (off + of_nat ?m) + (left - ?m) \<le> BSIZE * nb" "tot + ?m + (left - ?m) \<le> length bs"
      using False blk_chunk_pos [of left off] less.prems(2,3,6,7) aK ad q(5,6) by auto
    obtain s4 :: "'a fstate_scheme" and P' where s4: "writei_loop ip (FromObj bs) (tot + ?m) (off + of_nat ?m) (left - ?m) s3 =
          Inr ((tot + ?m + (left - ?m), off + of_nat ?m + of_nat (left - ?m)), s4)"
        "txn p P' {} s4" "P' \<subseteq> K" "lstate.more s4 = lstate.more s3" "file_on nb ip s4"
        "contents nb ip s4 = put_bytes (contents nb ip s3) (unat (off + of_nat ?m)) (get_bytes bs (tot + ?m) (left - ?m))"
        "\<And>m. m \<notin> addrs nb ip s \<Longrightarrow> logical s4 1 m = logical s3 1 m"
      using less.IH [OF i(1) w(6) i(2,3) less.prems(4) f3(1) i(4,5)] unfolding ad by blast
    let ?d2 = "get_bytes bs (tot + ?m) (left - ?m)"
    have off: "off + of_nat ?m + of_nat (left - ?m) = off + of_nat left" using q(5) by (simp add: of_nat_diff)
    have run: "writei_loop ip (FromObj bs) tot off left s = Inr ((tot + left, off + of_nat left), s4)"
      using False bm dev w(1,2,4,5) s4(1) off q(5) same_fs [OF same_rest_log(8) [OF w(3)]]
      by (subst writei_loop.simps) (simp add: either_copyin_def Let_def get_bytes_def [symmetric])
    have len: "length (contents nb ip s) = BSIZE * nb"
      unfolding contents_def using less.prems(5) by (intro length_blocks) (simp add: file_on_def)
    have "length ?d2 = left - ?m" using less.prems(7) q(5) by (simp add: get_bytes_def)
    then have "unat off + length ?d + length ?d2 \<le> length (contents nb ip s)" using len ld less.prems(6) q(5) by simp
    from put_bytes_append [OF this] have "contents nb ip s4 = put_bytes (contents nb ip s) (unat off) (?d @ ?d2)"
      using s4(6) f3(2) q(3,6) ld by simp
    also have "?d @ ?d2 = get_bytes bs tot left" using get_bytes_split [of bs tot ?m "left - ?m"] q(5) by simp
    finally have "contents nb ip s4 = put_bytes (contents nb ip s) (unat off) (get_bytes bs tot left)" .
    moreover have "logical s4 1 m = logical s 1 m" if "m \<notin> addrs nb ip s" for m
      using s4(7) [OF that] w(8) aK that by auto
    ultimately show ?thesis using run s4(2-5) w(7) by (intro exI [of _ s4] exI [of _ P']) simp
  qed
qed

lemma txn_inodes:
  "txn p P L (upd_inode ip f s) = txn p P L s" "logical (upd_inode ip f s) = logical s"
  using cache_ok_cong [of "upd_inode ip f s" s] by (simp_all add: txn_def upd_inode_def lh_len_def)

definition inode_block :: "nat \<Rightarrow> 'a fstate_scheme \<Rightarrow> u32" where
  "inode_block ip s = IBLOCK (i_inum (inodes s ip)) (sb s)"

lemma iupdate_ok:
  fixes s :: "'a fstate_scheme"
  assumes t: "txn p P {} s" and n: "lh_len s < 29" and dev: "i_dev (inodes s ip) = 1"
  shows "\<exists>s' :: 'a fstate_scheme. iupdate ip s = Inr s' \<and> txn p (insert (inode_block ip s) P) {} s' \<and>
    lstate.more s' = lstate.more s \<and>
    (\<forall>m. m \<noteq> inode_block ip s \<longrightarrow> logical s' 1 m = logical s 1 m)"
proof -
  let ?a = "inode_block ip s"
  let ?d = "put_dinode (dinode_off (i_inum (inodes s ip))) (inodes s ip) (logical s 1 ?a)"
  obtain b s2 and s1 s3 :: "'a fstate_scheme" where w: "bread 1 ?a s = Inr (b, s1)" "b_data (bufs s1 b) = logical s 1 ?a" "same_rest s s1"
      "log_write b (set_data b ?d s1) = Inr s2" "brelse b s2 = Inr s3" "txn p (insert ?a P) {} s3" "lstate.more s3 = lstate.more s"
      "\<And>m. logical s3 1 m = (if m = ?a then ?d else logical s 1 m)"
    using write_block [OF t n, of ?a ?d] by blast
  have "iupdate ip s = Inr s3"
    using w(1,2,4,5) dev same_fs [OF same_rest_log(8) [OF w(3)]] by (simp add: iupdate_def Let_def inode_block_def)
  then show ?thesis using w(6-8) by (intro exI [of _ s3]) simp
qed

lemma writei_ok:
  fixes s :: "'a fstate_scheme"
  assumes t: "txn p P {} s" and f: "file_on nb ip s" and K: "card (insert (inode_block ip s) (P \<union> addrs nb ip s)) \<le> 28"
    and ib: "inode_block ip s \<notin> addrs nb ip s" and off: "off \<le> i_size (inodes s ip)" "unat off + length bs \<le> BSIZE * nb"
  shows "\<exists>(s' :: 'a fstate_scheme) P'. writei ip (FromObj bs) off (of_nat (length bs)) s = Inr (of_nat (length bs), s') \<and>
    txn p P' {} s' \<and> lh_len s' \<le> 28 \<and> file_on nb ip s' \<and> contents nb ip s' = put_bytes (contents nb ip s) (unat off) bs \<and>
    inodes s' = (inodes s)(ip := (inodes s ip)\<lparr>i_size := max (i_size (inodes s ip)) (off + of_nat (length bs))\<rparr>)"
proof -
  let ?K = "insert (inode_block ip s) (P \<union> addrs nb ip s)" and ?n = "length bs"
  have nb: "nb \<le> NDIRECT" "i_dev (inodes s ip) = 1" using f by (simp_all add: file_on_def)
  then have small: "unat off + ?n \<le> 12288" using off(2) by simp
  have un: "unat (of_nat ?n :: u32) = ?n" "unat (off + of_nat ?n) = unat off + ?n"
    using small by (auto intro: unat_of_nat_lt unat_add_of_nat)
  have ng: "\<not> i_size (inodes s ip) < off" "\<not> off + of_nat ?n < off" "\<not> of_nat ((NDIRECT + NINDIRECT) * BSIZE) < off + of_nat ?n"
    using off(1) un small by (simp_all add: word_less_nat_alt word_le_nat_alt not_less)
  have sub: "P \<subseteq> ?K" "addrs nb ip s \<subseteq> ?K" by auto
  obtain s1 :: "'a fstate_scheme" and P1 where s1: "writei_loop ip (FromObj bs) 0 off ?n s = Inr ((?n, off + of_nat ?n), s1)"
      "txn p P1 {} s1" "P1 \<subseteq> ?K" "lstate.more s1 = lstate.more s" "file_on nb ip s1"
      "contents nb ip s1 = put_bytes (contents nb ip s) (unat off) bs"
    using writei_loop_ok [OF t sub K f off(2), of 0 bs] by (auto simp: get_bytes_def)
  note fs1 = same_fs [OF s1(4)]
  let ?sz = "max (i_size (inodes s ip)) (off + of_nat ?n)"
  define s2 where "s2 = (if i_size (inodes s1 ip) < off + of_nat ?n then upd_inode ip (\<lambda>i. i\<lparr>i_size := off + of_nat ?n\<rparr>) s1 else s1)"
  have t2: "txn p P1 {} s2" "logical s2 = logical s1" using s1(2) by (simp_all add: s2_def txn_inodes)
  have i2: "inodes s2 = (inodes s)(ip := (inodes s ip)\<lparr>i_size := ?sz\<rparr>)" "sb s2 = sb s"
    unfolding s2_def using fs1 by (auto simp: upd_inode_def max_def)
  have "lh_len s2 < 29" using txn_len [OF t2(1) s1(3) K] by simp
  then obtain s3 :: "'a fstate_scheme" where s3: "iupdate ip s2 = Inr s3" "txn p (insert (inode_block ip s) P1) {} s3" "lstate.more s3 = lstate.more s2"
      "\<And>m. m \<noteq> inode_block ip s \<Longrightarrow> logical s3 1 m = logical s2 1 m"
    using iupdate_ok [OF t2(1), of ip] nb(2) i2 by (auto simp: inode_block_def)
  note fs3 = same_fs [OF s3(3)]
  have len3: "lh_len s3 \<le> 28" using txn_len [OF s3(2) _ K] s1(3) by simp
  have same: "logical s3 1 (i_addrs (inodes s ip) k) = logical s1 1 (i_addrs (inodes s ip) k)" if "k < nb" for k
  proof -
    have "i_addrs (inodes s ip) k \<noteq> inode_block ip s" using ib that unfolding addrs_def by (metis image_eqI lessThan_iff)
    then show ?thesis using s3(4) t2(2) by simp
  qed
  have m: "map (\<lambda>k. logical s3 1 (i_addrs (inodes s ip) k)) [0..<nb] = map (\<lambda>k. logical s1 1 (i_addrs (inodes s ip) k)) [0..<nb]"
    using same by simp
  have ia: "i_addrs (inodes s3 ip) = i_addrs (inodes s ip)" "i_addrs (inodes s1 ip) = i_addrs (inodes s ip)" using fs1 fs3 i2 by simp_all
  have c: "file_on nb ip s3" "contents nb ip s3 = contents nb ip s1"
    using s1(5) same fs1 i2 fs3 by (simp add: file_on_def) (simp only: contents_def ia m)
  have "writei ip (FromObj bs) off (of_nat ?n) s = Inr (of_nat ?n, s3)"
    using ng un(1) s1(1) s3(1) by (simp add: writei_def s2_def)
  then show ?thesis using s3(2) len3 c s1(6) i2 fs3 by (intro exI [of _ s3] exI [of _ "insert (inode_block ip s) P1"]) simp
qed

section \<open>Properties\<close>

text \<open>C2: What is written is what is read. For a file whose blocks are allocated (among the direct ones),
  \<open>writei\<close> of any bytes at any offset up to the file's end and inside its blocks, within a
  transaction that has room, writes all of them: the contents change there and nowhere else
  and the size grows to cover them. A \<open>readi\<close> of that range then returns these bytes.\<close>

theorem write_then_read:
  fixes s :: "'a fstate_scheme"
  assumes "txn p P {} s" "file_on nb ip s" "card (insert (inode_block ip s) (P \<union> addrs nb ip s)) \<le> 28"
    and "inode_block ip s \<notin> addrs nb ip s" "off \<le> i_size (inodes s ip)" "unat off + length bs \<le> BSIZE * nb"
  shows "\<exists>s' s'' :: 'a fstate_scheme. writei ip (FromObj bs) off (of_nat (length bs)) s = Inr (of_nat (length bs), s') \<and>
    contents nb ip s' = put_bytes (contents nb ip s) (unat off) bs \<and>
    i_size (inodes s' ip) = max (i_size (inodes s ip)) (off + of_nat (length bs)) \<and>
    readi ip KernObj off (of_nat (length bs)) s' = Inr ((of_nat (length bs), bs), s'')"
proof -
  let ?n = "length bs"
  obtain s' :: "'a fstate_scheme" and P' where w: "writei ip (FromObj bs) off (of_nat ?n) s = Inr (of_nat ?n, s')"
      "txn p P' {} s'" "lh_len s' \<le> 28" "file_on nb ip s'" "contents nb ip s' = put_bytes (contents nb ip s) (unat off) bs"
      "inodes s' = (inodes s)(ip := (inodes s ip)\<lparr>i_size := max (i_size (inodes s ip)) (off + of_nat ?n)\<rparr>)"
    using writei_ok [OF assms] by blast
  have ok: "cache_ok p P' {} s'" and P': "P' = lh_block s' ` {..<lh_len s'}" using w(2) by (auto simp: txn_def)
  have card: "card P' < NBUF" using card_image_le [of "{..<lh_len s'}" "lh_block s'"] w(3) P' by simp
  have "BSIZE * nb \<le> 12288" using assms(2) by (simp add: file_on_def)
  then have un: "unat (of_nat ?n :: u32) = ?n" "unat (off + of_nat ?n) = unat off + ?n"
    using assms(6) by (auto intro: unat_of_nat_lt unat_add_of_nat)
  obtain s'' where r: "readi_loop ip KernObj 0 off ?n s' = Inr ((of_nat ?n, get_bytes (contents nb ip s') (unat off) ?n), s'')"
    using readi_loop_ok [OF ok w(4) assms(6) card, of 0] by auto
  have "length (contents nb ip s) = BSIZE * nb"
    unfolding contents_def using assms(2) by (intro length_blocks) (simp add: file_on_def)
  then have "get_bytes (contents nb ip s') (unat off) ?n = bs"
    unfolding w(5) using assms(6) by (intro get_put_bytes) simp_all
  moreover have "\<not> i_size (inodes s' ip) < off" "\<not> off + of_nat ?n < off" "\<not> i_size (inodes s' ip) < off + of_nat ?n"
    using assms(5) un w(6) by (auto simp: word_less_nat_alt word_le_nat_alt not_less max_def)
  ultimately have "readi ip KernObj off (of_nat ?n) s' = Inr ((of_nat ?n, bs), s'')"
    using r un(1) by (simp add: readi_def Let_def)
  then show ?thesis using w by (intro exI [of _ s'] exI [of _ s'']) simp
qed

definition demo_fs :: fstate where
  "demo_fs = lstate.extend (bstate.extend (demo_bstate\<lparr>dimage := \<lambda>_. replicate BSIZE 0\<rparr>) (lstate.fields 2 30 1 False 1 0 (\<lambda>_. 0)))
     (fstate.fields \<lparr>sb_magic = 0x10203040, sb_size = 1000, sb_nblocks = 954, sb_ninodes = 200, sb_nlog = 30,
        sb_logstart = 2, sb_inodestart = 32, sb_bmapstart = 45\<rparr> (\<lambda>_. demo_file))"

lemmas demo_fs_defs = demo_fs_def fstate.defs lstate.defs bstate.defs

lemma demo_fs_txn: "txn 1 {} {} demo_fs" "logical demo_fs 1 m = replicate BSIZE 0"
proof -
  have "get_next x demo_fs = get_next x demo_bstate" "get_prev x demo_fs = get_prev x demo_bstate" for x
    by (cases x; simp add: get_next.simps get_prev.simps demo_fs_defs)+
  then have "lru demo_fs xs = lru demo_bstate xs" for xs by (rule lru_cong)
  then have "binv demo_fs" using demo_binv
    by (simp add: binv_def unique_blocks_def clean_unused_def demo_bufs) (simp add: demo_fs_defs demo_bufs)
  moreover have "\<not> sl_locked (slks demo_bstate (BufSlk b))" if "b < NBUF" for b
    using demo_binv that by (simp add: binv_def demo_bufs)
  ultimately have c: "cache_ok 1 {} {} demo_fs" by (simp add: cache_ok_def bears_def demo_quiet) (simp add: demo_fs_defs demo_quiet demo_bufs)
  then show "txn 1 {} {} demo_fs" by (simp add: txn_def lh_len_def) (simp add: demo_fs_defs)
  have "logical demo_fs 1 m = disk_now demo_fs m" by (rule unpinned_clean [OF c]) simp
  then show "logical demo_fs 1 m = replicate BSIZE 0" by (simp add: disk_now_def) (simp add: demo_fs_defs demo_quiet)
qed

theorem write_then_read_witness:
  "\<exists>s' s''. writei 3 (FromObj (replicate 100 9)) 1000 100 demo_fs = Inr (100, s') \<and>
     readi 3 KernObj 1000 100 s' = Inr ((100, replicate 100 9), s'')"
proof -
  have i: "inodes demo_fs 3 = demo_file" "inode_block 3 demo_fs = 33" by (simp_all add: inode_block_def IBLOCK_def demo_fs_defs demo_file_def)
  have a: "addrs 2 3 demo_fs = {50, 51}" 
  proof -
    have "{..<2 :: nat} = {0, 1}" by auto
    then show ?thesis unfolding addrs_def i by (simp add: demo_file_def)
  qed
  have ad: "i_addrs demo_file 0 = 50" "i_addrs demo_file (Suc 0) = 51" "i_dev demo_file = 1" by (simp_all add: demo_file_def)
  have "inj_on (i_addrs demo_file) {0, Suc 0}" by (simp add: ad)
  moreover have "{..<2 :: nat} = {0, Suc 0}" by auto
  moreover have "i_addrs demo_file k \<noteq> 0" if "k < 2" for k
  proof -
    have "k = 0 \<or> k = Suc 0" using that by auto
    then show ?thesis by (elim disjE) (simp_all add: ad)
  qed
  ultimately have f: "file_on 2 3 demo_fs" using ad(3) unfolding file_on_def i by (simp add: demo_fs_txn(2))
  have c: "card (insert (inode_block 3 demo_fs) ({} \<union> addrs 2 3 demo_fs)) \<le> 28" by (simp add: i a)
  have n: "inode_block 3 demo_fs \<notin> addrs 2 3 demo_fs" "1000 \<le> i_size (inodes demo_fs 3)"
      "unat (1000 :: u32) + length (replicate 100 9 :: u8 list) \<le> BSIZE * 2"
    by (simp_all add: i a) (simp add: demo_file_def)
  show ?thesis using write_then_read [OF demo_fs_txn(1) f c n] by auto
qed

end
