(* ===== verification/TrapSpec.thy ===== *)
theory TrapSpec
  imports Trap FsSpec
begin

text \<open>
  What traps promise: a timer interrupt charges every process for the tick and takes the
  CPU away from the running process exactly when it completes its quantum; a traced system
  call is reported with its name, its argument and the value it returned.
\<close>

section \<open>The clock\<close>

lemma set_tf_simps [simp]:
  "procs (set_tf p off v s) = procs s" "held (set_tf p off v s) = held s" "cur (set_tf p off v s) = cur s"
  "ticks (set_tf p off v s) = ticks s" "pstate.more (set_tf p off v s) = pstate.more s"
  by (simp_all add: set_tf_def)

definition ticked :: "'a pstate_scheme \<Rightarrow> 'a pstate_scheme" where
  "ticked s = awake (Some ChTicks) (table_map (\<lambda>_. tick_proc) (s\<lparr>ticks := ticks s + 1\<rparr>))"

lemma table_map_held: "table_map f (s\<lparr>held := h\<rparr>) = (table_map f s)\<lparr>held := h\<rparr>"
  by (simp add: table_map_def cong: if_cong)

lemma clockintr_eq:
  assumes "TicksLock \<notin> set (held s)" "no_plocks s"
  shows "clockintr s = Inr (ticked s)"
proof -
  let ?h = "s\<lparr>held := TicksLock # held s, ticks := ticks s + 1\<rparr>"
  have n: "no_plocks ?h" "no_plocks (table_map (\<lambda>_. tick_proc) ?h)"
    using assms(2) by (simp_all add: no_plocks_def table_map_def)
  have "clockintr s = lrelease TicksLock (awake (Some ChTicks) (table_map (\<lambda>_. tick_proc) ?h))"
    using assms(1) update_clock_ticks_eq [OF n(1)] wakeup_eq [OF n(2)] by (simp add: clockintr_def lock_simps)
  also have "?h = (s\<lparr>ticks := ticks s + 1\<rparr>)\<lparr>held := TicksLock # held s\<rparr>" by simp
  also have "lrelease TicksLock (awake (Some ChTicks) (table_map (\<lambda>_. tick_proc) \<dots>)) = Inr (ticked s)"
    unfolding table_map_held awake_held ticked_def [symmetric] by (rule lrelease_last) (simp add: ticked_def table_map_def)
  finally show ?thesis .
qed

lemma ticked_proc:
  assumes "p < NPROC"
  shows "procs (ticked s) p = (let r = tick_proc (procs s p) in
     if cur s \<noteq> Some p \<and> p_state r = SLEEPING \<and> p_chan r = Some ChTicks
     then r\<lparr>p_state := RUNNABLE, p_readyTime := ucast (ticks s + 1)\<rparr> else r)"
  using assms by (simp add: ticked_def awake_def table_map_def Let_def)

text \<open>What a tick charges to a process, and whom it wakes.\<close>

definition charged :: "u32 \<Rightarrow> nat option \<Rightarrow> nat \<Rightarrow> proc \<Rightarrow> proc \<Rightarrow> bool" where
  "charged now c q r r' \<longleftrightarrow>
     p_rutime r' = p_rutime r + of_bool (p_state r = RUNNING) \<and> p_tickcounter r' = p_tickcounter r + of_bool (p_state r = RUNNING) \<and>
     p_stime r' = p_stime r + of_bool (p_state r = SLEEPING) \<and> p_retime r' = p_retime r + of_bool (p_state r = RUNNABLE) \<and>
     p_pid r' = p_pid r \<and> p_killed r' = p_killed r \<and>
     (if p_state r = SLEEPING \<and> p_chan r = Some ChTicks \<and> c \<noteq> Some q
      then p_state r' = RUNNABLE \<and> p_readyTime r' = ucast now else p_state r' = p_state r \<and> p_readyTime r' = p_readyTime r)"

lemma ticked_charged: "q < NPROC \<Longrightarrow> charged (ticks s + 1) (cur s) q (procs s q) (procs (ticked s) q)"
  by (simp add: ticked_proc charged_def tick_proc_def Let_def split: procstate.split)

lemma ticked_frame:
  "ticks (ticked s) = ticks s + 1" "held (ticked s) = held s" "cur (ticked s) = cur s" "pstate.more (ticked s) = pstate.more s"
  by (simp_all add: ticked_def table_map_def)

lemma devintr_timer:
  assumes "scause s = 0x8000000000000001" "tp s = 0" "held s = []"
  shows "devintr env s = Inr (2, (ticked s)\<lparr>sip := sip (ticked s) AND NOT 2\<rparr>)"
proof -
  have "clockintr s = Inr (ticked s)" by (rule clockintr_eq) (simp_all add: assms(3) no_plocks_def)
  then show ?thesis using assms(1,2) by (simp add: devintr_def)
qed


section \<open>Tracing system calls\<close>

abbreviation decimal :: "c_int \<Rightarrow> string" where
  "decimal x \<equiv> printint x 10 True"

text \<open>The line the assignment asks for: process, call, argument of \<open>fork\<close>, \<open>kill\<close> and \<open>sbrk\<close>,
  and the value returned.\<close>

definition trace_line :: "c_int \<Rightarrow> c_int \<Rightarrow> c_int \<Rightarrow> c_int \<Rightarrow> string" where
  "trace_line pid num arg ret =
     decimal pid @ '': syscall '' @ sys_calls_names ! unat num @
     (if num = SYS_fork then '' NULL'' else if num = SYS_kill \<or> num = SYS_sbrk then CHR '' '' # decimal arg else []) @
     '' -> '' @ decimal ret @ [CHR 0x0A]"

definition say :: "string \<Rightarrow> 'a pstate_scheme \<Rightarrow> 'a pstate_scheme" where
  "say out s = s\<lparr>kout := kout s @ out\<rparr>"

lemma say_simps [simp]:
  "procs (say out s) = procs s" "held (say out s) = held s" "pmem (say out s) = pmem s" "cur (say out s) = cur s"
  by (simp_all add: say_def)

lemma printf_eq:
  assumes "PrLock \<notin> set (held s)" "format fmt args = Inr out"
  shows "printf fmt args s = Inr (say out s)"
  using assms by (simp add: printf_def say_def lock_simps Let_def lrelease_last)

lemma call_name_ok:
  assumes "0 \<le> sint num" "sint num < 25"
  shows "call_name num = Inr (sys_calls_names ! unat num)"
  using assms by (simp add: call_name_def sys_calls_names_def)

lemma print_trace_eq:
  assumes "0 \<le> sint num" "sint num < 25" "PrLock \<notin> set (held s)"
  shows "print_trace p num arg ret s = Inr (say (trace_line (p_pid (procs s p)) num arg ret) s)"
  unfolding print_trace_def call_name_ok [OF assms(1,2)]
  by (simp add: trace_line_def) (intro conjI impI; rule printf_eq [OF assms(3)]; simp)

lemma get_set_tf [simp]: "get_tf p off (set_tf p off v s) = v"
  by (simp add: get_tf_def set_tf_def)

lemma argint_0: "cur s = Some p \<Longrightarrow> argint 0 s = Inr (ucast (get_tf p TF_A0 s))"
  by (simp add: argint_def argraw_def myproc_def)

lemma fetch_argument:
  assumes "cur s = Some p"
  shows "bindE (if b then argint 0 s else Inr 0) f = f (if b then ucast (get_tf p TF_A0 s) else 0)"
  by (simp add: argint_0 [OF assms])

text \<open>C8: A system call that a handler serves leaves the handler's result in \<open>a0\<close>, and is reported
  on the console exactly when its bit of the process's mask is set after the call, by one line
  with the process, the name, the argument of \<open>fork\<close>, \<open>kill\<close> and \<open>sbrk\<close> as it was before
  the call, and the result.\<close>

theorem syscall_trace_line:
  fixes s s' :: "'a kstate_scheme"
  assumes "cur s = Some p" "num = ucast (get_tf p 168 s)" "0 < sint num" "sint num < 25"
    and "(syscalls env ! (unat num - 1)) s = Inr (r, s')" "PrLock \<notin> set (held s')"
  shows "syscall env s = Inr (let t = set_tf p TF_A0 r s' in
     if p_mask (procs s' p) AND push_bit (unat num) 1 \<noteq> 0
     then say (trace_line (p_pid (procs s' p)) num (ucast (get_tf p TF_A0 s)) (ucast r)) t else t)"
proof -
  have run: "run_syscall env p num s = Inr (set_tf p TF_A0 r s')"
    using assms(3-5) by (simp add: run_syscall_def)
  have "unat num < 32" using assms(3,4) unat_pos [of num] by linarith
  then have num: "unat num mod 32 = unat num" by simp
  have tr: "print_trace p num arg (ucast r) (set_tf p TF_A0 r s') = Inr (say (trace_line (p_pid (procs s' p)) num arg (ucast r)) (set_tf p TF_A0 r s'))"
    for arg using print_trace_eq [of num "set_tf p TF_A0 r s'" p arg "ucast r"] assms(3,4,6) by simp
  have line: "trace_line pid num (if num = SYS_fork \<or> num = SYS_kill \<or> num = SYS_sbrk then arg else 0) ret = trace_line pid num arg ret" for pid arg ret
    by (simp add: trace_line_def)
  show ?thesis unfolding syscall_def
    using assms(1) by (simp add: myproc_def fetch_argument assms(2) [symmetric] run traced_def num tr line Let_def)
qed

text \<open>C34: A system call whose number no handler serves is reported and fails with \<open>-1\<close>. When the bit
  that the number selects in the mask is set, reporting the call reads the table of names
  outside its bounds, for every number other than 0.\<close>

theorem syscall_unknown:
  fixes s :: "'a kstate_scheme"
  assumes "cur s = Some p" "num = ucast (get_tf p 168 s)" "sint num < 0 \<or> 25 \<le> sint num" "PrLock \<notin> set (held s)"
  shows "syscall env s =
     (if p_mask (procs s p) AND push_bit (unat num mod 32) 1 \<noteq> 0 then Inl OutOfBounds
      else Inr (set_tf p TF_A0 (-1) (say (decimal (p_pid (procs s p)) @ CHR '' '' # p_name (procs s p) @
        '': unknown sys call '' @ decimal num @ [CHR 0x0A]) s)))"
proof -
  let ?t = "say (decimal (p_pid (procs s p)) @ CHR '' '' # p_name (procs s p) @ '': unknown sys call '' @ decimal num @ [CHR 0x0A]) s"
  have "printf (''%d %s: unknown sys call %d'' @ [CHR 0x0A]) [AInt (p_pid (procs s p)), AStr (Some (p_name (procs s p))), AInt num] s = Inr ?t"
    by (rule printf_eq [OF assms(4)]) simp
  then have run: "run_syscall env p num s = Inr (set_tf p TF_A0 (-1) ?t)" using assms(3) by (auto simp: run_syscall_def)
  have "call_name num = Inl OutOfBounds" using assms(3) by (simp add: call_name_def sys_calls_names_def)
  then have "print_trace p num arg ret t = Inl OutOfBounds" for arg ret and t :: "'a kstate_scheme" by (simp add: print_trace_def)
  then show ?thesis unfolding syscall_def
    using assms(1) by (simp add: myproc_def fetch_argument assms(2) [symmetric] run traced_def Let_def)
qed

section \<open>A kernel with three processes\<close>

text \<open>A kernel that took a timer interrupt while the process in slot 1 was in the last tick of
  its quantum.\<close>

definition demo_kernel :: kstate where
  "demo_kernel = pipestate.extend (cstate.extend (fstate.extend demo_fs (cstate.fields (\<lambda>_. 0) 0 0 0 (\<lambda>_. 0) 0 0))
     (pipestate.fields (\<lambda>_. \<lparr>pi_data = \<lambda>_. 0, pi_nread = 0, pi_nwrite = 0, pi_readopen = False, pi_writeopen = False\<rparr>)))
     (kstate.fields (\<lambda>_. \<lparr>f_type = FD_NONE, f_ref = 0, f_readable = False, f_writable = False, f_pipe = 0, f_ip = 0, f_off = 0, f_major = 0\<rparr>))"

lemma set_links_base:
  "ticks (set_next x y s) = ticks s \<and> pmem (set_next x y s) = pmem s \<and> kout (set_next x y s) = kout s \<and> pr_locking (set_next x y s) = pr_locking s"
  "ticks (set_prev x y s) = ticks s \<and> pmem (set_prev x y s) = pmem s \<and> kout (set_prev x y s) = kout s \<and> pr_locking (set_prev x y s) = pr_locking s"
  by (cases x; simp add: set_next.simps set_prev.simps upd_buf_def)+

lemma binit_base: "ticks (binit s) = ticks s \<and> pmem (binit s) = pmem s \<and> kout (binit s) = kout s \<and> pr_locking (binit s) = pr_locking s"
proof -
  let ?step = "\<lambda>b s. link_front b (initsleeplock (BufSlk b) ''buffer'' (push_front b s))"
  have "ticks (fold ?step bs t) = ticks t \<and> pmem (fold ?step bs t) = pmem t \<and> kout (fold ?step bs t) = kout t \<and>
      pr_locking (fold ?step bs t) = pr_locking t" for bs and t :: "'a bstate_scheme"
    by (induction bs rule: rev_induct) (simp_all add: link_front_def push_front_def initsleeplock_def upd_slk_def Let_def set_links_base)
  from this [of "[0..<NBUF]" "set_next Head Head (set_prev Head Head s)"] show ?thesis
    by (simp add: binit_def Let_def set_links_base del: upt_rec_numeral)
qed

lemma demo_kernel_simps:
  "procs demo_kernel = demo_procs" "cur demo_kernel = Some 1" "held demo_kernel = []" "ticks demo_kernel = 20"
  "pmem demo_kernel = (\<lambda>_. 0)" "kout demo_kernel = []" "pr_locking demo_kernel"
  by (simp_all add: demo_kernel_def kstate.defs pipestate.defs cstate.defs demo_fs_defs demo_bstate_def binit_frame binit_base)
    (simp_all add: demo_boot_def)

definition demo_trap :: tstate where
  "demo_trap = vstate.extend (kstate.extend (demo_kernel\<lparr>procs := demo_procs(1 := (demo_procs 1)\<lparr>p_state := RUNNING, p_tickcounter := 4\<rparr>)\<rparr>)
     (vstate.fields (\<lambda>_. \<lparr>d_addr = DNull, d_len = 0, d_flags = 0, d_next = 0\<rparr>) 0 (\<lambda>_. 0) 0 (\<lambda>_. 0) (\<lambda>_. True) 0 (\<lambda>_. None) (\<lambda>_. 0)
       (\<lambda>_. \<lparr>req_type = 0, req_reserved = 0, req_sector = 0\<rparr>) (\<lambda>_. False) []))
     (tstate.fields 0 0x1000 0x8000000000000001 0 0 0 0 0 [] False)"

lemma demo_trap_simps:
  "procs demo_trap = demo_procs(1 := (demo_procs 1)\<lparr>p_state := RUNNING, p_tickcounter := 4\<rparr>)" "cur demo_trap = Some 1"
  "held demo_trap = []" "ticks demo_trap = 20" "scause demo_trap = 0x8000000000000001" "tp demo_trap = 0" "sstatus demo_trap = 0"
  by (simp_all add: demo_trap_def vstate.defs kstate.defs tstate.defs demo_kernel_simps)

definition demo_trap_env :: "policy \<Rightarrow> tstate trap_env" where
  "demo_trap_env pol = \<lparr>io_idle = \<lambda>_. True, io_fuel = 0, io_swtch = Inr,
     env_syms = \<lparr>sym_trampoline = 0x80007000, sym_uservec = 0x80007000, sym_userret = 0x80007090, sym_usertrap = 0x80002000,
       sym_kernelvec = 0x80005000, sym_forkret = 0x80001a00\<rparr>,
     env_junk = [], env_policy = pol, env_irq = 0, env_input = [], env_regs = \<lambda>_. 0\<rparr>"

lemma demo_policy: "env_policy (demo_trap_env pol) = pol"
  by (simp add: demo_trap_env_def)


text \<open>Slot 1 is about to run \<open>getpid\<close>, traced, and then a call that does not exist. The trap
  frame is the page at \<^verbatim>\<open>0x80020000\<close>.\<close>

definition demo_call :: "c_int \<Rightarrow> kstate" where
  "demo_call num = set_tf 1 168 (ucast num) (demo_kernel\<lparr>procs := demo_procs(1 := (demo_procs 1)\<lparr>p_mask := 2048, p_trapframe := 0x80020000\<rparr>)\<rparr>)"

lemma demo_call_simps:
  "cur (demo_call num) = Some 1" "get_tf 1 168 (demo_call num) = ucast num" "held (demo_call num) = []" "kout (demo_call num) = []"
  "p_mask (procs (demo_call num) 1) = 2048" "p_pid (procs (demo_call num) 1) = 2" "p_name (procs (demo_call num) 1) = []"
proof -
  show "get_tf 1 168 (demo_call num) = ucast num" unfolding demo_call_def by (rule get_set_tf)
qed (simp_all add: demo_call_def demo_kernel_simps demo_procs_def blank_proc_def, simp add: set_tf_def demo_kernel_simps)

definition demo_env :: "kstate sys_env" where
  "demo_env = \<lparr>io_idle = \<lambda>_. True, io_fuel = 0, io_swtch = Inr, env_syms = env_syms (demo_trap_env DEFAULT), env_junk = []\<rparr>"

theorem syscall_trace_line_witness:
  "\<exists>t. syscall demo_env (demo_call 11) = Inr t \<and> kout t = ''2: syscall getpid -> 2'' @ [CHR 0x0A] \<and> get_tf 1 TF_A0 t = 2"
proof -
  let ?t = "set_tf 1 TF_A0 2 (demo_call 11)"
  have "syscall demo_env (demo_call 11) = Inr (let t = ?t in
     if p_mask (procs (demo_call 11) 1) AND push_bit (unat (11 :: c_int)) 1 \<noteq> 0
     then say (trace_line (p_pid (procs (demo_call 11) 1)) 11 (ucast (get_tf 1 TF_A0 (demo_call 11))) (ucast (2 :: u64))) t else t)"
    by (rule syscall_trace_line) (simp_all add: demo_call_simps [unfolded One_nat_def] syscalls_def sys_getpid_def myproc_def)
  then have "syscall demo_env (demo_call 11) = Inr (say (''2: syscall getpid -> 2'' @ [CHR 0x0A]) ?t)"
    by (simp add: demo_call_simps [unfolded One_nat_def] trace_line_def sys_calls_names_def printint_def int_digits.simps digits_def)
  then show ?thesis by (simp add: say_def get_tf_def) (simp add: set_tf_def demo_call_simps [unfolded One_nat_def])
qed

theorem syscall_unknown_witness: "syscall demo_env (demo_call 43) = Inl OutOfBounds"
proof -
  have "syscall demo_env (demo_call 43) = (if p_mask (procs (demo_call 43) 1) AND push_bit (unat (43 :: c_int) mod 32) 1 \<noteq> 0 then Inl OutOfBounds
      else Inr (set_tf 1 TF_A0 (-1) (say (decimal (p_pid (procs (demo_call 43) 1)) @ CHR '' '' # p_name (procs (demo_call 43) 1) @
        '': unknown sys call '' @ decimal 43 @ [CHR 0x0A]) (demo_call 43))))"
    by (rule syscall_unknown) (simp_all add: demo_call_simps [unfolded One_nat_def])
  then show ?thesis by (simp add: demo_call_simps [unfolded One_nat_def])
qed

end
