(* ===== verification/ProcSpec.thy ===== *)
theory ProcSpec
  imports TrapSpec
begin

text \<open>
  The life of a process as its relatives see it: what \<open>exit\<close> leaves behind, what a waiting
  parent finds, and when a process that sleeps for a number of ticks comes back.
\<close>

section \<open>\<open>exit\<close>\<close>

text \<open>The entry of slot \<open>q\<close> after the processes in \<open>C\<close> have been handed over to \<open>init\<close>, which is
  woken if there are any.\<close>

definition roused :: "nat \<Rightarrow> bool \<Rightarrow> 'a pstate_scheme \<Rightarrow> nat \<Rightarrow> proc \<Rightarrow> proc" where
  "roused i b s q r =
     (if b \<and> q < NPROC \<and> cur s \<noteq> Some q \<and> p_state r = SLEEPING \<and> p_chan r = Some (ChProc i)
      then r\<lparr>p_state := RUNNABLE, p_readyTime := ucast (ticks s)\<rparr> else r)"

definition adopted :: "nat \<Rightarrow> nat \<Rightarrow> nat set \<Rightarrow> 'a pstate_scheme \<Rightarrow> nat \<Rightarrow> proc" where
  "adopted i p C s q = roused i (\<exists>c \<in> C. p_parent (procs s c) = Some p) s q
     (if q \<in> C \<and> p_parent (procs s q) = Some p then (procs s q)\<lparr>p_parent := Some i\<rparr> else procs s q)"

lemma roused_simps [simp]:
  "p_parent (roused i b s q r) = p_parent r" "roused i False s q r = r" "roused i b (s\<lparr>procs := P\<rparr>) q r = roused i b s q r"
  "(roused i b s q r)\<lparr>p_parent := v\<rparr> = roused i b s q (r\<lparr>p_parent := v\<rparr>)"
  by (simp_all add: roused_def)

lemma roused_roused [simp]: "roused i a s q (roused i b s q r) = roused i (a \<or> b) s q r"
proof (cases "b \<and> q < NPROC \<and> cur s \<noteq> Some q \<and> p_state r = SLEEPING \<and> p_chan r = Some (ChProc i)")
  case True
  then have "roused i (a \<or> b) s q r = r\<lparr>p_state := RUNNABLE, p_readyTime := ucast (ticks s)\<rparr>"
      "roused i b s q r = r\<lparr>p_state := RUNNABLE, p_readyTime := ucast (ticks s)\<rparr>"
    unfolding roused_def by (simp_all only: simp_thms if_True)
  moreover have "roused i a s q (r\<lparr>p_state := RUNNABLE, p_readyTime := t\<rparr>) = r\<lparr>p_state := RUNNABLE, p_readyTime := t\<rparr>" for t
    by (simp add: roused_def)
  ultimately show ?thesis by (simp only:)
next
  case False
  then have "roused i b s q r = r" unfolding roused_def by (simp only: if_False)
  moreover have "roused i (a \<or> b) s q r = roused i a s q r" unfolding roused_def by (rule if_cong) (use False in blast)+
  ultimately show ?thesis by (simp only:)
qed

lemma adopted_empty [simp]: "adopted i p {} s = procs s"
  by (simp add: adopted_def fun_eq_iff)

lemma adopted_one:
  "p_parent (adopted i p {x} s c) = (if c = x \<and> p_parent (procs s c) = Some p then Some i else p_parent (procs s c))"
  by (cases "c = x") (simp_all add: adopted_def)

lemma adopted_step:
  assumes "i \<noteq> p" "x \<notin> C"
  shows "adopted i p C (s\<lparr>procs := adopted i p {x} s\<rparr>) q = adopted i p (insert x C) s q"
proof -
  have "p_parent (adopted i p {x} s c) = p_parent (procs s c)" if "c \<in> C" for c
  proof -
    have "c \<noteq> x" using that assms(2) by metis
    then show ?thesis by (simp add: adopted_one)
  qed
  then have ex: "(\<exists>c \<in> C. p_parent (adopted i p {x} s c) = Some p) = (\<exists>c \<in> C. p_parent (procs s c) = Some p)"
    by (simp cong: bex_cong)
  let ?e = "\<exists>c \<in> C. p_parent (procs s c) = Some p" and ?f = "p_parent (procs s x) = Some p" and ?a = "adopted i p {x} s q"
  have l: "adopted i p C (s\<lparr>procs := adopted i p {x} s\<rparr>) q = roused i ?e s q (if q \<in> C \<and> p_parent ?a = Some p then ?a\<lparr>p_parent := Some i\<rparr> else ?a)"
    unfolding adopted_def [of i p C] by (simp add: ex)
  have r: "adopted i p (insert x C) s q = roused i (?e \<or> ?f) s q
      (if (q = x \<or> q \<in> C) \<and> p_parent (procs s q) = Some p then (procs s q)\<lparr>p_parent := Some i\<rparr> else procs s q)"
    unfolding adopted_def bex_simps insert_iff by (simp only: disj_commute)
  show ?thesis
  proof (cases "q = x")
    case True
    then have "q \<notin> C" using assms(2) by metis
    then show ?thesis unfolding l r using True by (simp add: adopted_def)
  next
    case False
    then have "?a = roused i ?f s q (procs s q)" "p_parent ?a = p_parent (procs s q)" by (simp_all add: adopted_def)
    then show ?thesis unfolding l r using False
      by (cases "q \<in> C \<and> p_parent (procs s q) = Some p") (simp_all only: roused_simps roused_roused simp_thms if_True if_False)
  qed
qed

lemma reparent_eq:
  assumes "initproc s = Some i" "i \<noteq> p" "no_plocks s"
  shows "reparent p s = Inr (s\<lparr>procs := adopted i p {..<NPROC} s\<rparr>)"
proof -
  define body where "body = (\<lambda>pp (s :: 'a pstate_scheme). if p_parent (procs s pp) = Some p
         then wakeup (map_option ChProc (initproc s)) (upd_proc pp (\<lambda>r. r\<lparr>p_parent := initproc s\<rparr>) s) else Inr s)"
  have one: "body x t = Inr (t\<lparr>procs := adopted i p {x} t\<rparr>)" if "initproc t = Some i" "no_plocks t" for x t
  proof (cases "p_parent (procs t x) = Some p")
    case True
    have "no_plocks (upd_proc x (\<lambda>r. r\<lparr>p_parent := Some i\<rparr>) t)" using that(2) by (simp add: no_plocks_def)
    then show ?thesis using True that(1)
      by (simp add: body_def wakeup_eq awake_def table_map_def) (simp add: upd_proc_def adopted_def roused_def fun_eq_iff)
  next
    case False
    then have "adopted i p {x} t = procs t" by (simp add: adopted_def fun_eq_iff)
    then show ?thesis using False by (simp add: body_def)
  qed
  have "foldE body xs t = Inr (t\<lparr>procs := adopted i p (set xs) t\<rparr>)" if "distinct xs" "initproc t = Some i" "no_plocks t" for xs t
    using that
  proof (induction xs arbitrary: t)
    case Nil
    show ?case by simp
  next
    case (Cons x xs)
    let ?u = "t\<lparr>procs := adopted i p {x} t\<rparr>"
    have "foldE body xs ?u = Inr (?u\<lparr>procs := adopted i p (set xs) ?u\<rparr>)"
      by (rule Cons.IH) (use Cons.prems in \<open>simp_all add: no_plocks_def\<close>)
    moreover have "adopted i p (set xs) ?u = adopted i p (set (x # xs)) t"
      using adopted_step [OF assms(2), of x "set xs" t] Cons.prems(1) by (simp add: fun_eq_iff)
    ultimately show ?case using one [OF Cons.prems(2,3)] by simp
  qed
  from this [of "[0..<NPROC]" s] show ?thesis
    using assms(1,3) by (simp add: reparent_def body_def lessThan_atLeast0 [symmetric] del: upt_conv_Cons upt_rec_numeral)
qed

text \<open>The state in which \<open>exit\<close> switches away for the last time.\<close>

definition left_behind :: "nat \<Rightarrow> nat \<Rightarrow> c_int \<Rightarrow> 'a pstate_scheme \<Rightarrow> 'a pstate_scheme" where
  "left_behind i p status s =
     (let s = awake (map_option ChProc (p_parent (procs s p))) (s\<lparr>procs := adopted i p {..<NPROC} s\<rparr>)
      in (upd_proc p (\<lambda>r. r\<lparr>p_xstate := status, p_state := ZOMBIE\<rparr>) s)\<lparr>held := [ProcLock p]\<rparr>)"

lemma adopted_held: "adopted i p C (s\<lparr>held := h\<rparr>) = adopted i p C s"
proof -
  have "roused i b (s\<lparr>held := h\<rparr>) q r = roused i b s q r" for b q r by (simp add: roused_def)
  then show ?thesis by (simp add: adopted_def fun_eq_iff)
qed

lemma exit_table_eq:
  assumes "cur s = Some p" "p < NPROC" "held s = []" "initproc s = Some i" "i \<noteq> p" "p_parent (procs s p) \<noteq> Some p"
  shows "exit_table swtch p status s = bindE (swtch (left_behind i p status s)) (\<lambda>_. Inl (Panic ''zombie exit''))"
proof -
  let ?h = "s\<lparr>held := [WaitLock]\<rparr>"
  let ?r = "?h\<lparr>procs := adopted i p {..<NPROC} ?h\<rparr>"
  have "reparent p ?h = Inr ?r" by (rule reparent_eq) (use assms in \<open>simp_all add: no_plocks_def\<close>)
  moreover have "p_parent (procs ?r p) = p_parent (procs s p)" using assms(6) by (simp add: adopted_def)
  moreover have "wakeup c ?r = Inr (awake c ?r)" for c by (rule wakeup_eq) (simp add: no_plocks_def)
  ultimately have "exit_table swtch p status s =
      bindE (sched swtch ((upd_proc p (\<lambda>r. r\<lparr>p_xstate := status, p_state := ZOMBIE\<rparr>)
        (awake (map_option ChProc (p_parent (procs s p))) ?r))\<lparr>held := [ProcLock p]\<rparr>)) (\<lambda>_. Inl (Panic ''zombie exit''))"
    using assms(3) by (simp add: exit_table_def lock_simps upd_proc_def)
  also have "(upd_proc p (\<lambda>r. r\<lparr>p_xstate := status, p_state := ZOMBIE\<rparr>) (awake (map_option ChProc (p_parent (procs s p))) ?r))\<lparr>held := [ProcLock p]\<rparr>
      = left_behind i p status s"
  proof -
    have "?r = (s\<lparr>procs := adopted i p {..<NPROC} s\<rparr>)\<lparr>held := [WaitLock]\<rparr>" by (simp add: adopted_held)
    then show ?thesis by (simp only: awake_held left_behind_def Let_def) (simp add: upd_proc_def)
  qed
  also have "sched swtch (left_behind i p status s) = swtch (left_behind i p status s)"
    using assms(1) by (simp add: sched_def myproc_def lholding_def left_behind_def Let_def)
  finally show ?thesis .
qed

lemma adopted_fields:
  assumes "cur s = Some p" "q < NPROC" "q \<noteq> p"
  shows "p_chan (adopted i p {..<NPROC} s q) = p_chan (procs s q)"
    "p_parent (adopted i p {..<NPROC} s q) = (if p_parent (procs s q) = Some p then Some i else p_parent (procs s q))"
    "p_state (adopted i p {..<NPROC} s q) = (if p_state (procs s q) = SLEEPING \<and> p_chan (procs s q) = Some (ChProc i) \<and>
       (\<exists>c < NPROC. p_parent (procs s c) = Some p) then RUNNABLE else p_state (procs s q))"
proof -
  have "p_chan (roused i b s q r) = p_chan r" "p_state (roused i b s q r) = (if b \<and> p_state r = SLEEPING \<and> p_chan r = Some (ChProc i) then RUNNABLE else p_state r)"
    for b r using assms by (simp_all add: roused_def)
  then show "p_chan (adopted i p {..<NPROC} s q) = p_chan (procs s q)"
    "p_parent (adopted i p {..<NPROC} s q) = (if p_parent (procs s q) = Some p then Some i else p_parent (procs s q))"
    "p_state (adopted i p {..<NPROC} s q) = (if p_state (procs s q) = SLEEPING \<and> p_chan (procs s q) = Some (ChProc i) \<and>
       (\<exists>c < NPROC. p_parent (procs s c) = Some p) then RUNNABLE else p_state (procs s q))"
    using assms(2) by (auto simp: adopted_def)
qed

text \<open>C15: \<open>exit\<close> never returns: it switches away holding only the lock of its own entry, which is a
  zombie with the status, and if it were resumed the kernel would stop. By then every child
  has been handed over to \<open>init\<close>, and exactly these have been woken: the parent, if it waits for
  its children, and \<open>init\<close>, if it waits and was given a child.\<close>

theorem exit_hands_over:
  assumes "cur s = Some p" "p < NPROC" "held s = []" "initproc s = Some i" "i \<noteq> p"
    and "p_parent (procs s p) = Some pp" "pp \<noteq> p"
  shows "\<exists>t. exit_table swtch p status s = bindE (swtch t) (\<lambda>_. Inl (Panic ''zombie exit'')) \<and>
    held t = [ProcLock p] \<and> p_state (procs t p) = ZOMBIE \<and> p_xstate (procs t p) = status \<and> p_parent (procs t p) = Some pp \<and>
    (\<forall>q < NPROC. q \<noteq> p \<longrightarrow>
       p_parent (procs t q) = (if p_parent (procs s q) = Some p then Some i else p_parent (procs s q)) \<and>
       p_state (procs t q) = (if p_state (procs s q) = SLEEPING \<and> (p_chan (procs s q) = Some (ChProc pp) \<or>
           p_chan (procs s q) = Some (ChProc i) \<and> (\<exists>c < NPROC. p_parent (procs s c) = Some p)) then RUNNABLE else p_state (procs s q)))"
proof (intro exI conjI allI impI)
  show "exit_table swtch p status s = bindE (swtch (left_behind i p status s)) (\<lambda>_. Inl (Panic ''zombie exit''))"
    by (rule exit_table_eq) (use assms in simp_all)
  show "held (left_behind i p status s) = [ProcLock p]" "p_state (procs (left_behind i p status s) p) = ZOMBIE"
    "p_xstate (procs (left_behind i p status s) p) = status" by (simp_all add: left_behind_def Let_def)
  show "p_parent (procs (left_behind i p status s) p) = Some pp" using assms(6,7) by (simp add: left_behind_def Let_def adopted_def)
  fix q assume q: "q < NPROC" "q \<noteq> p"
  note f = adopted_fields [OF assms(1) q]
  have e: "procs (left_behind i p status s) q = procs (awake (Some (ChProc pp)) (s\<lparr>procs := adopted i p {..<NPROC} s\<rparr>)) q"
    using q assms(6) by (simp add: left_behind_def Let_def)
  show "p_parent (procs (left_behind i p status s) q) = (if p_parent (procs s q) = Some p then Some i else p_parent (procs s q))"
    unfolding e using f(2) by simp
  have "p_state (procs (awake c (s\<lparr>procs := P\<rparr>)) q) = (if p_state (P q) = SLEEPING \<and> p_chan (P q) = c then RUNNABLE else p_state (P q))"
    for c P using q assms(1) by (simp add: awake_def)
  then show "p_state (procs (left_behind i p status s) q) = (if p_state (procs s q) = SLEEPING \<and> (p_chan (procs s q) = Some (ChProc pp) \<or>
           p_chan (procs s q) = Some (ChProc i) \<and> (\<exists>c < NPROC. p_parent (procs s c) = Some p)) then RUNNABLE else p_state (procs s q))"
    unfolding e by (auto simp: f(1,3))
qed

text \<open>Slot 1 exits; slot 2 is its child, and \<open>init\<close> waits.\<close>

definition demo_family :: "nat list pstate_scheme" where
  "demo_family = demo_pstate\<lparr>cur := Some 1, procs := demo_procs(0 := (demo_procs 0)\<lparr>p_state := SLEEPING, p_chan := Some (ChProc 0)\<rparr>,
     1 := (demo_procs 1)\<lparr>p_parent := Some 0\<rparr>, 2 := (demo_procs 2)\<lparr>p_parent := Some 1\<rparr>)\<rparr>"

lemma demo_family_simps:
  "cur demo_family = Some 1" "held demo_family = []" "initproc demo_family = Some 0" "p_parent (procs demo_family 1) = Some 0"
  "p_parent (procs demo_family 2) = Some 1" "p_state (procs demo_family 0) = SLEEPING" "p_chan (procs demo_family 0) = Some (ChProc 0)"
  by (simp_all add: demo_family_def demo_pstate_def)

theorem exit_hands_over_witness:
  "\<exists>t :: nat list pstate_scheme. exit_table Inr 1 7 demo_family = bindE (Inr t) (\<lambda>_. Inl (Panic ''zombie exit'')) \<and>
     p_state (procs t 1) = ZOMBIE \<and> p_parent (procs t 2) = Some 0 \<and> p_state (procs t 0) = RUNNABLE"
proof -
  have "\<exists>t :: nat list pstate_scheme. exit_table Inr 1 7 demo_family = bindE (Inr t) (\<lambda>_. Inl (Panic ''zombie exit'')) \<and>
    held t = [ProcLock 1] \<and> p_state (procs t 1) = ZOMBIE \<and> p_xstate (procs t 1) = 7 \<and> p_parent (procs t 1) = Some 0 \<and>
    (\<forall>q < NPROC. q \<noteq> 1 \<longrightarrow>
       p_parent (procs t q) = (if p_parent (procs demo_family q) = Some 1 then Some 0 else p_parent (procs demo_family q)) \<and>
       p_state (procs t q) = (if p_state (procs demo_family q) = SLEEPING \<and> (p_chan (procs demo_family q) = Some (ChProc 0) \<or>
           p_chan (procs demo_family q) = Some (ChProc 0) \<and> (\<exists>c < NPROC. p_parent (procs demo_family c) = Some 1))
         then RUNNABLE else p_state (procs demo_family q)))"
    using exit_hands_over [of demo_family 1 0 0 Inr 7] demo_family_simps by simp
  then obtain t :: "nat list pstate_scheme" where t: "exit_table Inr 1 7 demo_family = bindE (Inr t) (\<lambda>_. Inl (Panic ''zombie exit''))" "p_state (procs t 1) = ZOMBIE"
    and f: "\<forall>q < NPROC. q \<noteq> 1 \<longrightarrow>
       p_parent (procs t q) = (if p_parent (procs demo_family q) = Some 1 then Some 0 else p_parent (procs demo_family q)) \<and>
       p_state (procs t q) = (if p_state (procs demo_family q) = SLEEPING \<and> (p_chan (procs demo_family q) = Some (ChProc 0) \<or>
           p_chan (procs demo_family q) = Some (ChProc 0) \<and> (\<exists>c < NPROC. p_parent (procs demo_family c) = Some 1))
         then RUNNABLE else p_state (procs demo_family q))" by blast
  have "p_parent (procs t 2) = Some 0" using f [rule_format, of 2] by (simp add: demo_family_simps)
  moreover have "p_state (procs t 0) = RUNNABLE" using f [rule_format, of 0] by (simp add: demo_family_simps)
  ultimately show ?thesis using t by blast
qed

section \<open>\<open>wait\<close>\<close>

abbreviation zombie_child :: "nat \<Rightarrow> 'a pstate_scheme \<Rightarrow> nat \<Rightarrow> bool" where
  "zombie_child p s np \<equiv> p_parent (procs s np) = Some p \<and> p_state (procs s np) = ZOMBIE"

lemma wait_scan_eq:
  assumes "\<forall>np \<in> set nps. ProcLock np \<notin> set (held s)"
  shows "wait_scan addr perf p nps havekids s = (case List.find (zombie_child p s) nps of
       Some np \<Rightarrow> bindE (wait_reap addr perf p np (s\<lparr>held := ProcLock np # held s\<rparr>)) (\<lambda>(r, s). Inr ((Some r, True), s))
     | None \<Rightarrow> Inr ((None, havekids \<or> (\<exists>np \<in> set nps. p_parent (procs s np) = Some p)), s))"
  using assms
proof (induction nps arbitrary: havekids)
  case (Cons np nps)
  then show ?case by (auto simp: lock_simps bindE_assoc bindE_Inr split_def split: option.split)
qed simp

lemma wait_extension_eq:
  assumes "cur s = Some p" "held s = []"
  shows "wait_extension fuel swtch addr perf s =
    (case List.find (zombie_child p s) [0..<NPROC] of
       Some np \<Rightarrow> wait_reap addr perf p np (s\<lparr>held := [ProcLock np, WaitLock]\<rparr>)
     | None \<Rightarrow> if (\<forall>np < NPROC. p_parent (procs s np) \<noteq> Some p) \<or> p_killed (procs s p) then Inr (-1, s)
         else (case fuel of 0 \<Rightarrow> Inl OutOfFuel
               | Suc n \<Rightarrow> bindE (sleep swtch (ChProc p) WaitLock (s\<lparr>held := [WaitLock]\<rparr>)) (wait_loop n swtch addr perf p)))"
proof -
  let ?w = "s\<lparr>held := [WaitLock]\<rparr>"
  have "wait_scan addr perf p [0..<NPROC] False ?w = (case List.find (zombie_child p s) [0..<NPROC] of
       Some np \<Rightarrow> bindE (wait_reap addr perf p np (s\<lparr>held := [ProcLock np, WaitLock]\<rparr>)) (\<lambda>(r, s). Inr ((Some r, True), s))
     | None \<Rightarrow> Inr ((None, \<exists>np < NPROC. p_parent (procs s np) = Some p), ?w))"
    by (subst wait_scan_eq) (auto simp del: upt_conv_Cons upt_rec_numeral split: option.split)
  moreover have "wait_extension fuel swtch addr perf s = wait_loop fuel swtch addr perf p ?w"
    using assms by (simp add: wait_extension_def myproc_def lock_simps)
  ultimately have e: "wait_extension fuel swtch addr perf s = bindE (case List.find (zombie_child p s) [0..<NPROC] of
       Some np \<Rightarrow> bindE (wait_reap addr perf p np (s\<lparr>held := [ProcLock np, WaitLock]\<rparr>)) (\<lambda>(r, s). Inr ((Some r, True), s))
     | None \<Rightarrow> Inr ((None, \<exists>np < NPROC. p_parent (procs s np) = Some p), ?w)) (\<lambda>((r, havekids), s).
     case r of Some v \<Rightarrow> Inr (v, s) | None \<Rightarrow>
         if \<not> havekids \<or> p_killed (procs s p) then bindE (lrelease WaitLock s) (\<lambda>s. Inr (-1, s))
         else (case fuel of 0 \<Rightarrow> Inl OutOfFuel | Suc n \<Rightarrow> bindE (sleep swtch (ChProc p) WaitLock s) (wait_loop n swtch addr perf p)))"
    by (simp only: wait_loop.simps [of fuel])
  show ?thesis
  proof (cases "List.find (zombie_child p s) [0..<NPROC]")
    case None
    show ?thesis unfolding e None by (auto simp: lrelease_last [OF assms(2)])
  next
    case (Some np)
    show ?thesis unfolding e Some by (simp add: bindE_assoc split_def)
  qed
qed

text \<open>C16: A parent that waits once its child has exited does not sleep: after \<open>exit\<close> has switched away
  and the lock of the entry is free again, \<open>wait_extension\<close> of the parent, called on the table \<open>exit\<close>
  left, takes a zombie child at once, the first in the table, and collects it with exactly
  the locks of the child and of waiting held.\<close>

theorem exit_then_wait:
  assumes "cur s = Some p" "p < NPROC" "held s = []" "initproc s = Some i" "i \<noteq> p"
    and "p_parent (procs s p) = Some pp" "pp \<noteq> p"
  shows "\<exists>t. exit_table swtch p status s = bindE (swtch t) (\<lambda>_. Inl (Panic ''zombie exit'')) \<and>
    (\<exists>np \<le> p. p_state (procs t np) = ZOMBIE \<and> p_parent (procs t np) = Some pp \<and>
       (\<forall>fuel sw addr perf. wait_extension fuel sw addr perf (t\<lparr>cur := Some pp, held := []\<rparr>) =
          wait_reap addr perf pp np (t\<lparr>cur := Some pp, held := [ProcLock np, WaitLock]\<rparr>)))"
proof (intro exI [of _ "left_behind i p status s"] conjI)
  let ?t = "left_behind i p status s"
  show "exit_table swtch p status s = bindE (swtch ?t) (\<lambda>_. Inl (Panic ''zombie exit''))"
    by (rule exit_table_eq) (use assms in simp_all)
  have z: "zombie_child pp ?t p" using assms(6,7) by (simp add: left_behind_def Let_def adopted_def)
  then have "List.find (zombie_child pp ?t) [0..<NPROC] \<noteq> None"
    using assms(2) find_upt_None [of "zombie_child pp ?t" NPROC] by blast
  then obtain np where np: "List.find (zombie_child pp ?t) [0..<NPROC] = Some np" by blast
  then have f: "np < NPROC" "zombie_child pp ?t np" "\<And>q. q < np \<Longrightarrow> \<not> zombie_child pp ?t q"
    using find_upt_Some [of "zombie_child pp ?t" NPROC np] by blast+
  then have "np \<le> p" using z by (meson not_le)
  moreover have "wait_extension fuel sw addr perf (?t\<lparr>cur := Some pp, held := []\<rparr>) =
      wait_reap addr perf pp np (?t\<lparr>cur := Some pp, held := [ProcLock np, WaitLock]\<rparr>)" for fuel sw addr perf
    by (subst wait_extension_eq [of _ pp]) (simp_all add: np)
  ultimately show "\<exists>np \<le> p. p_state (procs ?t np) = ZOMBIE \<and> p_parent (procs ?t np) = Some pp \<and>
       (\<forall>fuel sw addr perf. wait_extension fuel sw addr perf (?t\<lparr>cur := Some pp, held := []\<rparr>) =
          wait_reap addr perf pp np (?t\<lparr>cur := Some pp, held := [ProcLock np, WaitLock]\<rparr>))"
    using f(2) by blast
qed

theorem exit_then_wait_witness:
  "\<exists>t :: nat list pstate_scheme. \<exists>np \<le> 1. p_state (procs t np) = ZOMBIE \<and> wait_extension 0 Inr 0 0 (t\<lparr>cur := Some 0, held := []\<rparr>) =
     wait_reap 0 0 0 np (t\<lparr>cur := Some 0, held := [ProcLock np, WaitLock]\<rparr>)"
  using exit_then_wait [of demo_family 1 0 0 Inr 7] demo_family_simps by (simp, blast)

text \<open>An address above the user part of the address space cannot be written to.\<close>

lemma copyout_above:
  assumes "MAXVA \<le> va" "src \<noteq> []"
  shows "copyout pt va src s = Inr (-1, s)"
proof -
  have "unat va div 4096 * 4096 \<ge> unat MAXVA" using assms(1) by (simp add: word_le_nat_alt)
  then have "MAXVA \<le> PGROUNDDOWN va" by (simp add: word_le_nat_alt unat_PGROUNDDOWN)
  then show ?thesis using assms(2) by (simp add: copyout.simps [of pt va src] walkaddr_def Let_def)
qed

text \<open>C33: \<open>wait_stat\<close> leaves two locks held when the statistics cannot be copied out. Called with no
  address for the status and an address for the statistics outside user space, with a child that
  has exited, it returns \<open>-1\<close> to user space with the lock of the child and the lock of waiting
  held and the child still a zombie; the next time the process gives up the CPU the
  kernel panics.\<close>

theorem wait_stat_leaks_locks:
  assumes "cur s = Some p" "held s = []" "c < NPROC" "p_parent (procs s c) = Some p" "p_state (procs s c) = ZOMBIE" "MAXVA \<le> perf"
  shows "\<exists>np < NPROC. p_parent (procs s np) = Some p \<and> p_state (procs s np) = ZOMBIE \<and>
    wait_stat fuel swtch 0 perf s = Inr (-1, s\<lparr>held := [ProcLock np, WaitLock]\<rparr>) \<and>
    (p \<noteq> np \<longrightarrow> yield swtch (s\<lparr>held := [ProcLock np, WaitLock]\<rparr>) = Inl (Panic ''sched locks''))"
proof -
  have "List.find (zombie_child p s) [0..<NPROC] \<noteq> None"
    using assms(3-5) find_upt_None [of "zombie_child p s" NPROC] by blast
  then obtain np where np: "List.find (zombie_child p s) [0..<NPROC] = Some np" by blast
  then have f: "np < NPROC" "zombie_child p s np" using find_upt_Some [of "zombie_child p s" NPROC np] by blast+
  have "perf \<noteq> 0" using assms(6) by auto
  moreover have "bytes_of 4 v \<noteq> []" for v using length_bytes_of [of 4 v] by (metis list.size(3) zero_neq_numeral)
  ultimately have "wait_reap 0 perf p np t = Inr (-1, t)" for t
    by (simp add: wait_reap_def perf_ints_def copyout_above [OF assms(6)])
  then have "wait_stat fuel swtch 0 perf s = Inr (-1, s\<lparr>held := [ProcLock np, WaitLock]\<rparr>)"
    by (simp add: wait_stat_def wait_extension_eq [OF assms(1,2)] np)
  moreover have "yield swtch (s\<lparr>held := [ProcLock np, WaitLock]\<rparr>) = Inl (Panic ''sched locks'')" if "p \<noteq> np"
    using assms(1) that by (simp add: yield_def myproc_def lock_simps sched_def lholding_def Let_def)
  ultimately show ?thesis using f by blast
qed

theorem wait_stat_leaks_locks_witness:
  "\<exists>np < NPROC. wait_stat 0 Inr 0 MAXVA (demo_family\<lparr>procs := (procs demo_family)(2 := (procs demo_family 2)\<lparr>p_state := ZOMBIE\<rparr>)\<rparr>) =
     Inr (-1, demo_family\<lparr>procs := (procs demo_family)(2 := (procs demo_family 2)\<lparr>p_state := ZOMBIE\<rparr>), held := [ProcLock np, WaitLock]\<rparr>)"
  using wait_stat_leaks_locks [of "demo_family\<lparr>procs := (procs demo_family)(2 := (procs demo_family 2)\<lparr>p_state := ZOMBIE\<rparr>)\<rparr>" 1 2 MAXVA 0 Inr]
    demo_family_simps by auto

section \<open>\<open>sleep\<close> for a number of ticks\<close>

text \<open>A switch gives the CPU back to \<open>p\<close> after at least one tick and at most \<open>D\<close>.\<close>

definition resumes_within :: "nat \<Rightarrow> nat \<Rightarrow> ('a pstate_scheme \<Rightarrow> stop + 'a pstate_scheme) \<Rightarrow> bool" where
  "resumes_within D p swtch \<longleftrightarrow> (\<forall>t. held t = [ProcLock p] \<and> cur t = Some p \<longrightarrow>
     (\<exists>t' d. swtch t = Inr t' \<and> held t' = [ProcLock p] \<and> cur t' = Some p \<and> 0 < d \<and> d \<le> D \<and> ticks t' = ticks t + of_nat d))"

lemma sleep_for_a_tick:
  assumes "cur s = Some p" "held s = [TicksLock]" "resumes_within D p swtch"
  shows "\<exists>t d. sleep swtch ChTicks TicksLock s = Inr t \<and> held t = [TicksLock] \<and> cur t = Some p \<and> 0 < d \<and> d \<le> D \<and> ticks t = ticks s + of_nat d"
proof -
  have "held (gone_to_sleep p ChTicks s) = [ProcLock p]" "cur (gone_to_sleep p ChTicks s) = Some p" "ticks (gone_to_sleep p ChTicks s) = ticks s"
    using assms(1) by (simp_all add: gone_to_sleep_def)
  then obtain t d where t: "swtch (gone_to_sleep p ChTicks s) = Inr t" "held t = [ProcLock p]" "cur t = Some p" "0 < d" "d \<le> D" "ticks t = ticks s + of_nat d"
    using assms(3) unfolding resumes_within_def by metis
  have "sleep swtch ChTicks TicksLock s = Inr ((upd_proc p (\<lambda>r. r\<lparr>p_chan := None\<rparr>) t)\<lparr>held := [TicksLock]\<rparr>)"
    by (rule sleep_eq) (use assms t in simp_all)
  then show ?thesis using t by auto
qed

lemma elapsed_step:
  assumes "unat (x :: u32) < unat n" "0 < d" "d \<le> D" "unat n + D \<le> 2 ^ 32"
  shows "unat (x + of_nat d) = unat x + d"
  using assms by (simp add: unat_add_of_nat)

lemma sys_sleep_loop_late:
  assumes "\<not> ticks s - t0 < n" "held s = [TicksLock]"
  shows "sys_sleep_loop fuel swtch t0 n s = Inr (0, s\<lparr>held := []\<rparr>)"
  using assms by (simp add: sys_sleep_loop.simps [of fuel] lock_simps)

lemma sys_sleep_loop_ok:
  assumes "resumes_within D p swtch" "unat n + D \<le> 2 ^ 32"
    and "cur s = Some p" "held s = [TicksLock]" "unat n - unat (ticks s - t0) \<le> fuel"
  shows "\<exists>r t. sys_sleep_loop fuel swtch t0 n s = Inr (r, t) \<and> held t = [] \<and>
    (r = 0 \<and> n \<le> ticks t - t0 \<or> r = -1 \<and> p_killed (procs t p))"
  using assms(3-5)
proof (induction fuel arbitrary: s)
  case 0
  then have "\<not> ticks s - t0 < n" by (simp add: word_less_nat_alt)
  then show ?case using 0 by (simp add: sys_sleep_loop_late not_less)
next
  case (Suc fuel)
  consider (late) "\<not> ticks s - t0 < n" | (killed) "ticks s - t0 < n" "p_killed (procs s p)" | (round) "ticks s - t0 < n" "\<not> p_killed (procs s p)"
    by blast
  then show ?case
  proof cases
    case late
    then show ?thesis using Suc.prems by (simp add: sys_sleep_loop_late not_less)
  next
    case killed
    then show ?thesis using Suc.prems by (subst sys_sleep_loop.simps) (simp add: lock_simps myproc_def)
  next
    case round
    obtain t d where t: "sleep swtch ChTicks TicksLock s = Inr t" "held t = [TicksLock]" "cur t = Some p" "0 < d" "d \<le> D" "ticks t = ticks s + of_nat d"
      using sleep_for_a_tick [OF Suc.prems(1,2) assms(1)] by blast
    have "ticks t - t0 = (ticks s - t0) + of_nat d" using t(6) by simp
    moreover have "unat (ticks s - t0 + of_nat d) = unat (ticks s - t0) + d"
      by (rule elapsed_step [OF _ t(4,5) assms(2)]) (use round(1) in \<open>simp add: word_less_nat_alt\<close>)
    ultimately have "unat (ticks t - t0) = unat (ticks s - t0) + d" by (simp only:)
    then have "unat n - unat (ticks t - t0) \<le> fuel" using Suc.prems(3) t(4) by linarith
    from Suc.IH [OF t(3,2) this] show ?thesis
      using round Suc.prems(1) t(1) by (subst sys_sleep_loop.simps) (simp add: myproc_def)
  qed
qed


text \<open>Every switch takes exactly one tick.\<close>

definition demo_tick :: "'a pstate_scheme \<Rightarrow> stop + 'a pstate_scheme" where
  "demo_tick s = Inr (s\<lparr>ticks := ticks s + 1\<rparr>)"

lemma demo_tick_resumes: "resumes_within 1 p demo_tick"
  unfolding resumes_within_def demo_tick_def by (intro allI impI exI [of _ 1] exI) auto


end
