(* ===== verification/BlockSpec.thy ===== *)
theory BlockSpec
  imports FsSpec LogSpace
begin

text \<open>
  Blocks keep their size. The code declares a buffer's contents as an array of BSIZE bytes, and
  a block of the disk has BSIZE bytes; in the model both are lists, and no operation of the
  cache, the log or the file system changes their length. Writing the log's header inside its
  block depends on the number of blocks in it, so that number is part of the invariant.
\<close>

definition typed :: "'a lstate_scheme \<Rightarrow> bool" where
  "typed s \<longleftrightarrow> (\<forall>n. length (disk_now s n) = BSIZE) \<and> (\<forall>b. length (b_data (bufs s b)) = BSIZE) \<and> sint (lh_n s) \<le> 30"

section \<open>Outcomes\<close>

definition ensures :: "stop + 'b \<Rightarrow> ('b \<Rightarrow> bool) \<Rightarrow> bool" where
  "ensures m P \<longleftrightarrow> (\<forall>x. m = Inr x \<longrightarrow> P x)"

lemma ensures_simps [simp]: "ensures (Inl e) P" "ensures (Inr x) P \<longleftrightarrow> P x"
  by (simp_all add: ensures_def)

lemma ensures_bind: "ensures m Q \<Longrightarrow> (\<And>x. Q x \<Longrightarrow> ensures (f x) P) \<Longrightarrow> ensures (bindE m f) P"
  by (cases m) auto

text \<open>The rule for a step that yields a state, for one that yields a value and a state, and for one
  that only looks at the state.\<close>

lemma typed_bind:
  "ensures m typed \<Longrightarrow> (\<And>t. typed t \<Longrightarrow> ensures (f t) P) \<Longrightarrow> ensures (bindE m f) P"
  by (rule ensures_bind)

lemma typed_bind_pair:
  "ensures m (\<lambda>(x, t). typed t) \<Longrightarrow> (\<And>x t. typed t \<Longrightarrow> ensures (g (x, t)) P) \<Longrightarrow> ensures (bindE m g) P"
  by (rule ensures_bind [of m "\<lambda>(x, t). typed t"]) auto

lemma look_bind: "(\<And>x. ensures (f x) P) \<Longrightarrow> ensures (bindE (myproc s) f) P"
  by (cases "myproc s") auto

lemma typed_foldE:
  assumes "typed s" "\<And>x t. x \<in> set xs \<Longrightarrow> typed t \<Longrightarrow> ensures (f x t) typed"
  shows "ensures (foldE f xs s) typed"
  unfolding ensures_def
proof (intro allI impI)
  fix t assume "foldE f xs s = Inr t"
  then show "typed t" by (rule foldE_invariant) (use assms in \<open>auto simp: ensures_def\<close>)
qed

lemma typed_scanE:
  assumes "typed s" "\<And>x t. x \<in> set xs \<Longrightarrow> typed t \<Longrightarrow> ensures (f x t) (\<lambda>(y, t). typed t)"
  shows "ensures (scanE f xs s) (\<lambda>(y, t). typed t)"
  unfolding ensures_def
proof (intro allI impI)
  fix yt assume "scanE f xs s = Inr yt"
  then obtain y t where yt: "yt = (y, t)" "scanE f xs s = Inr (y, t)" by (cases yt) auto
  from yt(2) have "typed t"
    by (rule scanE_invariant) (use assms in \<open>auto simp: ensures_def\<close>)
  then show "case yt of (y, t) \<Rightarrow> typed t" using yt(1) by simp
qed

section \<open>The cache\<close>

text \<open>A step that leaves the contents of the buffers, the disk and the log's variables alone.\<close>

definition untouched :: "'a lstate_scheme \<Rightarrow> 'a lstate_scheme \<Rightarrow> bool" where
  "untouched s t \<longleftrightarrow> (\<forall>b. b_data (bufs t b) = b_data (bufs s b)) \<and> dimage t = dimage s \<and> dwrites t = dwrites s \<and> lh_n t = lh_n s"

lemma typed_untouched: "typed s \<Longrightarrow> untouched s t \<Longrightarrow> typed t"
  by (simp add: typed_def untouched_def disk_now_def)

lemma typed_lock [intro!]:
  "typed s \<Longrightarrow> ensures (lacquire l s) typed" "typed s \<Longrightarrow> ensures (lrelease l s) typed"
  by (auto simp: ensures_def lacquire_Inr_iff lrelease_Inr_iff intro: typed_untouched [of s] simp: untouched_def)

lemma typed_wakeup [intro!]: "typed s \<Longrightarrow> ensures (wakeup c s) typed"
  using wakeup_frame [of c s] by (auto simp: ensures_def untouched_def intro!: typed_untouched [of s])

lemma typed_upd [simp]:
  "typed (upd_slk l g s) = typed s" "typed (upd_proc p h s) = typed s" "typed (s\<lparr>pmem := m\<rparr>) = typed s"
  "typed (s\<lparr>log_outstanding := k\<rparr>) = typed s" "typed (s\<lparr>log_committing := c\<rparr>) = typed s" "typed (s\<lparr>lh_block := lb\<rparr>) = typed s"
  by (simp_all add: typed_def disk_now_def upd_slk_def upd_proc_def)

lemma typed_upd_buf:
  "(\<And>x. b_data (f x) = b_data x) \<Longrightarrow> typed (upd_buf b f s) = typed s"
  by (auto simp: typed_def disk_now_def upd_buf_def)

lemma typed_ptr [simp]: "typed (set_next r v s) = typed s" "typed (set_prev r v s) = typed s"
  by (cases r; simp add: set_next.simps set_prev.simps typed_upd_buf; simp add: typed_def disk_now_def)+

lemma typed_set_data [intro!]: "typed s \<Longrightarrow> length d = BSIZE \<Longrightarrow> typed (set_data b d s)"
  by (simp add: typed_def disk_now_def set_data_def upd_buf_def)

lemma typed_data [simp]: "typed s \<Longrightarrow> length (b_data (bufs s b)) = BSIZE"
  by (simp add: typed_def)

lemma typed_disk_rw [intro!]: "typed s \<Longrightarrow> typed (disk_rw b w s)"
proof (cases w)
  case True
  moreover assume "typed s"
  ultimately show ?thesis by (simp add: typed_def disk_rw_def disk_now_write)
next
  case False
  moreover assume t: "typed s"
  then have "length (disk_now s n) = BSIZE" for n by (simp add: typed_def)
  ultimately show ?thesis using t by (simp add: typed_def disk_rw_def upd_buf_def disk_now_def)
qed

lemmas outcome = typed_bind typed_bind_pair look_bind

lemma typed_acquiresleep [intro!]: "typed s \<Longrightarrow> ensures (acquiresleep (Suc 0) stay_blocked l s) typed"
proof -
  have "sleep stay_blocked c k u \<noteq> Inr v" for c k and u v :: "'a lstate_scheme"
    by (auto simp: sleep_def sched_def stay_blocked_def bindE_Inr_iff Let_def split: if_splits)
  then have "acquiresleep_loop (Suc 0) stay_blocked l u = Inr v \<Longrightarrow> v = u" for u v :: "'a lstate_scheme"
    by (auto simp: acquiresleep_loop.simps bindE_Inr_iff split: if_splits)
  then have "typed t \<Longrightarrow> ensures (acquiresleep_loop (Suc 0) stay_blocked l t) typed" for t :: "'a lstate_scheme"
    by (auto simp: ensures_def)
  then show "typed s \<Longrightarrow> ensures (acquiresleep (Suc 0) stay_blocked l s) typed"
    by (auto simp: acquiresleep_def Let_def intro!: outcome)
qed

lemma typed_holdingsleep [intro!]: "typed s \<Longrightarrow> ensures (holdingsleep l s) (\<lambda>(h, t). typed t)"
  unfolding holdingsleep_def
  by (rule typed_bind) (auto simp: bindE_assoc intro!: outcome)

lemma typed_releasesleep [intro!]: "typed s \<Longrightarrow> ensures (releasesleep l s) typed"
  by (auto simp: releasesleep_def Let_def intro!: outcome)

lemma typed_bget [intro!]: "typed s \<Longrightarrow> ensures (bget dev n s) (\<lambda>(b, t). typed t)"
proof -
  have search: "(\<And>x. ensures (f x) P) \<Longrightarrow> ensures (bindE (search k step Q r) f) P" for k step Q r f and P :: "nat \<times> 'a lstate_scheme \<Rightarrow> bool"
    by (cases "search k step Q r") auto
  show "typed s \<Longrightarrow> ensures (bget dev n s) (\<lambda>(b, t). typed t)"
    by (auto simp: bget_def Let_def typed_upd_buf intro!: outcome search split: option.split)
qed

lemma typed_bread [intro!]: "typed s \<Longrightarrow> ensures (bread dev n s) (\<lambda>(b, t). typed t)"
  by (auto simp: bread_def Let_def typed_upd_buf intro!: outcome)

lemma typed_bwrite [intro!]: "typed s \<Longrightarrow> ensures (bwrite b s) typed"
  by (auto simp: bwrite_def intro!: outcome)

lemma typed_brelse [intro!]: "typed s \<Longrightarrow> ensures (brelse b s) typed"
  by (auto simp: brelse_def Let_def typed_upd_buf link_front_def push_front_def unlink_def intro!: outcome)

lemma typed_pin [intro!]: "typed s \<Longrightarrow> ensures (bpin b s) typed" "typed s \<Longrightarrow> ensures (bunpin b s) typed"
  by (auto simp: bpin_def bunpin_def with_lock_def typed_upd_buf intro!: outcome)

section \<open>The log\<close>

lemma typed_lh_n: "typed s \<Longrightarrow> sint n \<le> 30 \<Longrightarrow> typed (s\<lparr>lh_n := n\<rparr>)"
  by (simp add: typed_def disk_now_def)

lemma length_head_data_typed: "length d = BSIZE \<Longrightarrow> sint n \<le> 30 \<Longrightarrow> length (head_data n f d) = BSIZE"
proof -
  assume d: "length d = BSIZE" and n: "sint n \<le> 30"
  have "length (fold (\<lambda>i d. put32 d (4 + 4 * i) (f i)) xs e) = BSIZE" if "\<forall>i \<in> set xs. i < 30" "length e = BSIZE" for xs e
    using that by (induction xs arbitrary: e) auto
  moreover have "\<forall>i \<in> set [0..<nat (sint n)]. i < 30" using n by (auto simp: zless_nat_eq_int_zless)
  ultimately show ?thesis using d by (simp add: head_data_def)
qed

lemma typed_write_head [intro!]: "typed s \<Longrightarrow> ensures (write_head s) typed"
proof -
  have "typed t \<Longrightarrow> sint (lh_n t) \<le> 30" for t :: "'a lstate_scheme" by (simp add: typed_def)
  then show "typed s \<Longrightarrow> ensures (write_head s) typed"
    by (auto simp: write_head_def Let_def length_head_data_typed intro!: outcome)
qed

lemma typed_install_trans [intro!]: "typed s \<Longrightarrow> ensures (install_trans r s) typed"
  by (auto simp: install_trans_def install_one_def Let_def intro!: outcome typed_foldE)

lemma typed_write_log [intro!]: "typed s \<Longrightarrow> ensures (write_log s) typed"
  by (auto simp: write_log_def write_log_one_def Let_def intro!: outcome typed_foldE)

lemma typed_read_head [intro!]: "typed s \<Longrightarrow> ensures (read_head s) typed"
  by (auto simp: read_head_def Let_def lh_len_def not_less nat_le_iff intro!: outcome typed_lh_n)

lemma typed_initlog [intro!]: "typed s \<Longrightarrow> ensures (initlog dev st n s) typed"
proof -
  have "typed s \<Longrightarrow> typed (s\<lparr>log_start := st, log_size := n, log_dev := dev\<rparr>)" by (simp add: typed_def disk_now_def)
  then show "typed s \<Longrightarrow> ensures (initlog dev st n s) typed"
    by (auto simp: initlog_def recover_from_log_def intro!: outcome typed_lh_n)
qed

lemma typed_commit [intro!]: "typed s \<Longrightarrow> ensures (commit s) typed"
  by (auto simp: commit_def intro!: outcome typed_lh_n)

lemma typed_begin_op [intro!]: "typed s \<Longrightarrow> ensures (begin_op (Suc 0) stay_blocked s) typed"
proof -
  have "sleep stay_blocked c k u \<noteq> Inr v" for c k and u v :: "'a lstate_scheme"
    by (auto simp: sleep_def sched_def stay_blocked_def bindE_Inr_iff Let_def split: if_splits)
  then have "ensures (sleep stay_blocked c k u) P" for c k P and u :: "'a lstate_scheme"
    by (simp add: ensures_def)
  then show "typed s \<Longrightarrow> ensures (begin_op (Suc 0) stay_blocked s) typed"
    by (auto simp: begin_op_def begin_op_loop.simps intro!: outcome)
qed

lemma typed_end_op [intro!]: "typed s \<Longrightarrow> ensures (end_op s) typed"
  by (auto simp: end_op_def Let_def intro!: outcome)

lemma typed_count [intro!]:
  assumes "typed s" "sint (lh_n s) < 30"
  shows "ensures (bindE (bpin b s) (\<lambda>s. Inr (s\<lparr>lh_n := lh_n s + 1\<rparr>))) typed"
proof (rule ensures_bind)
  show "ensures (bpin b s) (\<lambda>t. typed t \<and> lh_n t = lh_n s)"
    using typed_pin(1) [OF assms(1)] pin_more(1) [of b s] same_more(3) unfolding ensures_def by blast
  have "sint (lh_n s + 1) \<le> 30" using assms(2) sint_add_small [of "lh_n s" 1] sint_greater_eq [of "lh_n s"] by simp
  then show "typed t \<and> lh_n t = lh_n s \<Longrightarrow> ensures (Inr (t\<lparr>lh_n := lh_n t + 1\<rparr>)) typed" for t by (auto intro: typed_lh_n)
qed

lemma typed_log_write [intro!]: "typed s \<Longrightarrow> ensures (log_write b s) typed"
  unfolding log_write_def Let_def
  by (rule typed_bind, erule typed_lock) (auto intro!: typed_bind [where f = "lrelease LogLock"])

section \<open>The file system\<close>

lemma typed_fs_upd [simp]: "typed (upd_inode ip f s) = typed s" "typed (s\<lparr>sb := x\<rparr>) = typed s"
  by (simp_all add: typed_def disk_now_def upd_inode_def)

lemma length_bit_at [simp]: "length (set_bit_at d i) = length d" "length (clear_bit_at d i) = length d"
  by (simp_all add: set_bit_at_def clear_bit_at_def)

lemma typed_fsinit [intro!]: "typed s \<Longrightarrow> ensures (fsinit dev s) typed"
  by (auto simp: fsinit_def readsb_def Let_def intro!: outcome)

lemma typed_bzero [intro!]: "typed s \<Longrightarrow> ensures (bzero dev n s) typed"
  by (auto simp: bzero_def Let_def intro!: outcome)

lemma typed_balloc [intro!]: "typed s \<Longrightarrow> ensures (balloc dev s) (\<lambda>(b, t). typed t)"
  by (auto simp: balloc_def balloc_one_def Let_def intro!: outcome typed_scanE split: option.split)

lemma typed_bfree [intro!]: "typed s \<Longrightarrow> ensures (bfree dev b s) typed"
  by (auto simp: bfree_def Let_def intro!: outcome)

lemma length_put_dinode: "length d = BSIZE \<Longrightarrow> length (put_dinode (dinode_off inum) i d) = BSIZE"
proof -
  have off: "dinode_off inum + 64 \<le> BSIZE" by (simp add: dinode_off_def unat_mod)
  have "length (fold (\<lambda>k d. put32 d (dinode_off inum + 12 + 4 * k) (i_addrs i k)) ks e) = BSIZE"
    if "\<forall>k \<in> set ks. k < 13" "length e = BSIZE" for ks e
    using that off by (induction ks arbitrary: e) auto
  moreover assume "length d = BSIZE"
  moreover have "\<forall>k \<in> set [0..<NDIRECT + 1]. k < 13" by simp
  ultimately show ?thesis unfolding put_dinode_def using off by simp
qed

lemma typed_iupdate [intro!]: "typed s \<Longrightarrow> ensures (iupdate ip s) typed"
  by (auto simp: iupdate_def Let_def length_put_dinode intro!: outcome)

lemma typed_iget [intro!]: "typed s \<Longrightarrow> ensures (iget dev inum s) (\<lambda>(ip, t). typed t)"
  by (auto simp: iget_def Let_def intro!: outcome split: option.split simp del: upt_conv_Cons upt_rec_numeral)

lemma typed_ialloc [intro!]: "typed s \<Longrightarrow> ensures (ialloc dev type s) (\<lambda>(ip, t). typed t)"
proof -
  have off: "dinode_off inum + 64 \<le> BSIZE" for inum by (simp add: dinode_off_def unat_mod)
  have "length (put16 (put_bytes d (dinode_off inum) (replicate 64 0)) (dinode_off inum) v) = BSIZE" if "length d = BSIZE" for d inum v
    using that off [of inum] by simp
  then show "typed s \<Longrightarrow> ensures (ialloc dev type s) (\<lambda>(ip, t). typed t)"
    by (auto simp: ialloc_def ialloc_one_def Let_def intro!: outcome typed_scanE split: option.split)
qed

lemma typed_inode_locks [intro!]:
  "typed s \<Longrightarrow> ensures (ilock ip s) typed" "typed s \<Longrightarrow> ensures (iunlock ip s) typed" "typed s \<Longrightarrow> ensures (idup ip s) (\<lambda>(x, t). typed t)"
  by (auto simp: ilock_def iunlock_def idup_def Let_def intro!: outcome)

lemma typed_bmap [intro!]: "typed s \<Longrightarrow> ensures (bmap ip bn s) (\<lambda>(a, t). typed t)"
proof -
  have "length (put32 d (4 * unat k) a) = BSIZE" if "length d = BSIZE" "unat k < NINDIRECT" for d a and k :: u32
    using that by simp
  then show "typed s \<Longrightarrow> ensures (bmap ip bn s) (\<lambda>(a, t). typed t)"
    by (auto simp: bmap_def Let_def intro!: outcome)
qed

lemma typed_itrunc [intro!]: "typed s \<Longrightarrow> ensures (itrunc ip s) typed"
  by (auto simp: itrunc_def Let_def intro!: outcome typed_foldE simp del: upt_conv_Cons upt_rec_numeral)

lemma typed_iput [intro!]: "typed s \<Longrightarrow> ensures (iput ip s) typed" "typed s \<Longrightarrow> ensures (iunlockput ip s) typed"
  by (auto simp: iput_def iunlockput_def Let_def intro!: outcome)

lemma typed_copyout: "typed s \<Longrightarrow> ensures (copyout pt va src s) (\<lambda>(r, t). typed t)"
proof (induction pt va src s rule: copyout.induct)
  case (1 pt va src s)
  have "typed (s\<lparr>pmem := m\<rparr>)" for m using "1.prems" by simp
  then show ?case using 1 by (subst copyout.simps) (cases "walkaddr pt (PGROUNDDOWN va) s"; simp add: Let_def)
qed

lemma typed_either_copyout [intro!]: "typed s \<Longrightarrow> ensures (either_copyout dst off src s) (\<lambda>(r, t). typed t)"
  by (auto simp: either_copyout_def intro!: look_bind typed_copyout split: target.split)

lemma length_copyin: "copyin pt va n s = Inr (r, bs) \<Longrightarrow> length bs \<le> n"
proof (induction pt va n s arbitrary: r bs rule: copyin.induct)
  case (1 pt va n s)
  have "chunk va n \<le> n" by (simp add: chunk_def)
  then show ?case using 1 by (subst (asm) copyin.simps) (fastforce simp: Let_def bindE_Inr_iff split: if_splits)
qed

lemma either_copyin_bind:
  assumes "\<And>r bs. length bs \<le> n \<Longrightarrow> ensures (f (r, bs)) P"
  shows "ensures (bindE (either_copyin src off n s) f) P"
proof (rule ensures_bind)
  show "ensures (either_copyin src off n s) (\<lambda>(r, bs). length bs \<le> n)"
    by (auto simp: ensures_def either_copyin_def bindE_Inr_iff split: origin.splits dest: length_copyin)
qed (use assms in auto)

lemma typed_readi_loop: "typed s \<Longrightarrow> ensures (readi_loop ip dst tot off left s) (\<lambda>(x, t). typed t)"
proof (induction "left" arbitrary: tot off s rule: less_induct)
  case (less "left")
  show ?case
  proof (cases "left = 0")
    case False
    then have "left - blk_chunk off left < left" using blk_chunk_pos [of "left" off] by simp
    note IH = less.IH [OF this]
    from False less.prems show ?thesis
      by (subst readi_loop.simps) (auto simp: Let_def intro!: outcome IH)
  qed (use less.prems in \<open>simp add: readi_loop.simps\<close>)
qed

lemma typed_readi [intro!]: "typed s \<Longrightarrow> ensures (readi ip dst off n s) (\<lambda>(x, t). typed t)"
  by (auto simp: readi_def Let_def intro!: typed_readi_loop)

lemma typed_writei_loop: "typed s \<Longrightarrow> ensures (writei_loop ip src tot off left s) (\<lambda>(x, t). typed t)"
proof (induction "left" arbitrary: tot off s rule: less_induct)
  case (less "left")
  show ?case
  proof (cases "left = 0")
    case False
    then have "left - blk_chunk off left < left" using blk_chunk_pos [of "left" off] by simp
    note IH = less.IH [OF this]
    have len: "length (put_bytes d (unat off mod BSIZE) bs) = BSIZE" if "length bs \<le> blk_chunk off left" "length d = BSIZE" for d bs
    proof (subst length_put_bytes)
      have "unat off mod BSIZE < BSIZE" by simp
      then show "unat off mod BSIZE + length bs \<le> length d" using that unfolding blk_chunk_def by linarith
    qed (rule that)
    from False less.prems show ?thesis
      by (subst writei_loop.simps) (auto simp: Let_def len intro!: outcome either_copyin_bind IH)
  qed (use less.prems in \<open>simp add: writei_loop.simps\<close>)
qed

lemma typed_writei [intro!]: "typed s \<Longrightarrow> ensures (writei ip src off n s) (\<lambda>(x, t). typed t)"
  by (auto simp: writei_def Let_def intro!: typed_writei_loop outcome)

lemma typed_dirlookup [intro!]: "typed s \<Longrightarrow> ensures (dirlookup dp name s) (\<lambda>(x, t). typed t)"
  by (auto simp: dirlookup_def dirlookup_one_def intro!: outcome typed_scanE)

lemma typed_dirlink [intro!]: "typed s \<Longrightarrow> ensures (dirlink dp name inum s) (\<lambda>(x, t). typed t)"
  by (auto simp: dirlink_def free_dirent_one_def Let_def intro!: outcome typed_scanE split: option.split)

lemma typed_namex_loop: "typed s \<Longrightarrow> ensures (namex_loop par ip name path s) (\<lambda>(x, t). typed t)"
proof (induction path arbitrary: par ip name s rule: length_induct)
  case (1 path)
  note IH = "1.IH" [rule_format]
  show ?case
  proof (cases "skipelem path")
    case None
    then show ?thesis using "1.prems" by (subst namex_loop.simps) (auto intro!: outcome)
  next
    case (Some e)
    then obtain nm rest where e: "skipelem path = Some (nm, rest)" by (cases e) auto
    note IH' = IH [OF skipelem_shorter [OF e]]
    show ?thesis using "1.prems" unfolding namex_loop.simps [of par ip name path s] e
      by (auto intro!: outcome IH' split: option.split)
  qed
qed

lemma typed_namex [intro!]: "typed s \<Longrightarrow> ensures (namex par path s) (\<lambda>(x, t). typed t)"
  by (auto simp: namex_def intro!: outcome typed_namex_loop split: option.split)

section \<open>Every history of operations\<close>

inductive fs_step :: "'a fstate_scheme \<Rightarrow> 'a fstate_scheme \<Rightarrow> bool" where
  bread: "bread dev n s = Inr (b, t) \<Longrightarrow> fs_step s t"
| bwrite: "bwrite b s = Inr t \<Longrightarrow> fs_step s t"
| brelse: "brelse b s = Inr t \<Longrightarrow> fs_step s t"
| bpin: "bpin b s = Inr t \<Longrightarrow> fs_step s t"
| bunpin: "bunpin b s = Inr t \<Longrightarrow> fs_step s t"
| begin_op: "begin_op (Suc 0) stay_blocked s = Inr t \<Longrightarrow> fs_step s t"
| log_write: "log_write b s = Inr t \<Longrightarrow> fs_step s t"
| end_op: "end_op s = Inr t \<Longrightarrow> fs_step s t"
| fsinit: "fsinit idev s = Inr t \<Longrightarrow> fs_step s t"
| balloc: "balloc dev s = Inr (a, t) \<Longrightarrow> fs_step s t"
| bfree: "bfree dev n s = Inr t \<Longrightarrow> fs_step s t"
| ialloc: "ialloc dev type s = Inr (ip, t) \<Longrightarrow> fs_step s t"
| iupdate: "iupdate ip s = Inr t \<Longrightarrow> fs_step s t"
| iget: "iget dev inum s = Inr (ip, t) \<Longrightarrow> fs_step s t"
| idup: "idup ip s = Inr (ip', t) \<Longrightarrow> fs_step s t"
| ilock: "ilock ip s = Inr t \<Longrightarrow> fs_step s t"
| iunlock: "iunlock ip s = Inr t \<Longrightarrow> fs_step s t"
| iput: "iput ip s = Inr t \<Longrightarrow> fs_step s t"
| itrunc: "itrunc ip s = Inr t \<Longrightarrow> fs_step s t"
| bmap: "bmap ip bn s = Inr (a, t) \<Longrightarrow> fs_step s t"
| readi: "readi ip dst off n s = Inr (x, t) \<Longrightarrow> fs_step s t"
| writei: "writei ip src off n s = Inr (y, t) \<Longrightarrow> fs_step s t"
| dirlookup: "dirlookup dp name s = Inr (hit, t) \<Longrightarrow> fs_step s t"
| dirlink: "dirlink dp name inum s = Inr (y, t) \<Longrightarrow> fs_step s t"
| namex: "namex par path s = Inr (r, t) \<Longrightarrow> fs_step s t"

lemma ensuresD:
  "ensures m typed \<Longrightarrow> m = Inr t \<Longrightarrow> typed t" "ensures m' (\<lambda>(x, t). typed t) \<Longrightarrow> m' = Inr (x, t) \<Longrightarrow> typed t"
  by (simp_all add: ensures_def)

lemma typed_step: "fs_step s t \<Longrightarrow> typed s \<Longrightarrow> typed t"
  by (induction rule: fs_step.induct) (erule ensuresD [rotated], blast)+



end
