(* ===== verification/Ulib.thy ===== *)
theory Ulib
  imports KPrintf
begin

text \<open>
  The C library of user programs, \<^verbatim>\<open>user/ulib.c\<close>, over the same byte-addressed memory as the
  kernel's string routines. A loop that runs to a NUL which is not there does not return
  (\<open>None\<close>). The system calls the library makes are generated stubs; they are parameters, over
  a type \<open>'w\<close> of everything outside the program's memory.
\<close>

section \<open>Strings\<close>

partial_function (option) strcpy :: "mem \<Rightarrow> u64 \<Rightarrow> u64 \<Rightarrow> mem option" where
  "strcpy m s t = (let c = m t; m' = m(s := c) in if c \<noteq> 0 then strcpy m' (s + 1) (t + 1) else Some m')"

partial_function (option) strcmp :: "mem \<Rightarrow> u64 \<Rightarrow> u64 \<Rightarrow> c_int option" where
  "strcmp m p q =
     (if m p \<noteq> 0 \<and> m p = m q then strcmp m (p + 1) (q + 1) else Some (ucast (m p) - ucast (m q)))"

definition ustrlen :: "u64 \<Rightarrow> mem \<Rightarrow> u32 option" where
  "ustrlen s m = map_option of_nat (strlen_from m s 0)"

definition umemset :: "u64 \<Rightarrow> c_int \<Rightarrow> u32 \<Rightarrow> mem \<Rightarrow> mem" where
  "umemset dst c n m = memset_loop m dst (ucast c) (unat n) 0"

text \<open>The result is the address found, or 0; the NUL itself is never found.\<close>

partial_function (option) strchr :: "mem \<Rightarrow> u64 \<Rightarrow> u8 \<Rightarrow> u64 option" where
  "strchr m s c = (if m s = 0 then Some 0 else if m s = c then Some s else strchr m (s + 1) c)"

partial_function (option) atoi_from :: "mem \<Rightarrow> u64 \<Rightarrow> c_int \<Rightarrow> c_int option" where
  "atoi_from m s n =
     (if 48 \<le> m s \<and> m s \<le> 57 then atoi_from m (s + 1) (n * 10 + ucast (m s) - 48) else Some n)"

definition atoi :: "u64 \<Rightarrow> mem \<Rightarrow> c_int option" where
  "atoi s m = atoi_from m s 0"

section \<open>Memory\<close>

definition umemmove :: "u64 \<Rightarrow> u64 \<Rightarrow> c_int \<Rightarrow> mem \<Rightarrow> mem" where
  "umemmove dst src n m =
     (if dst < src then copy_up m dst src (nat (sint n))
      else copy_down m (dst + scast n) (src + scast n) (nat (sint n)))"

definition umemcmp :: "u64 \<Rightarrow> u64 \<Rightarrow> u32 \<Rightarrow> mem \<Rightarrow> c_int" where
  "umemcmp s1 s2 n m = memcmp_loop m s1 s2 (unat n)"

definition umemcpy :: "u64 \<Rightarrow> u64 \<Rightarrow> u32 \<Rightarrow> mem \<Rightarrow> mem" where
  "umemcpy dst src n m = umemmove dst src n m"

section \<open>Files\<close>

text \<open>\<open>rd\<close> is \<open>read(0, &c, 1)\<close>: its result and the byte, if there is one. The buffer is written
  from index \<open>i\<close> on; the bytes are returned, without the NUL that follows them.\<close>

function gets_loop :: "('w \<Rightarrow> (c_int \<times> u8) \<times> 'w) \<Rightarrow> c_int \<Rightarrow> nat \<Rightarrow> 'w \<Rightarrow> u8 list \<times> 'w" where
  "gets_loop rd lim i w =
     (if int i + 1 < sint lim then
        (case rd w of ((cc, c), w) \<Rightarrow>
           if sint cc < 1 then ([], w)
           else if c = 10 \<or> c = 13 then ([c], w)
           else (case gets_loop rd lim (Suc i) w of (cs, w) \<Rightarrow> (c # cs, w)))
      else ([], w))"
  by pat_completeness auto
termination
  by (relation "measure (\<lambda>(rd, lim, i, w). nat (sint lim) - i)") auto

declare gets_loop.simps [simp del]

definition gets :: "('w \<Rightarrow> (c_int \<times> u8) \<times> 'w) \<Rightarrow> c_int \<Rightarrow> 'w \<Rightarrow> u8 list \<times> 'w" where
  "gets rd lim w = gets_loop rd lim 0 w"

definition stat ::
  "('w \<Rightarrow> c_int \<times> 'w) \<Rightarrow> (c_int \<Rightarrow> 'w \<Rightarrow> c_int \<times> 'w) \<Rightarrow> (c_int \<Rightarrow> 'w \<Rightarrow> 'w) \<Rightarrow> 'w \<Rightarrow> c_int \<times> 'w" where
  "stat opn fst_at cls w =
     (case opn w of (fd, w) \<Rightarrow>
        if sint fd < 0 then (-1, w)
        else (case fst_at fd w of (r, w) \<Rightarrow> (r, cls fd w)))"

section \<open>What the routines do\<close>

lemma strcmp_zero_iff: "cstr m p xs \<Longrightarrow> cstr m q ys \<Longrightarrow> \<exists>r. strcmp m p q = Some r \<and> (r = 0 \<longleftrightarrow> xs = ys)"
proof (induction xs arbitrary: p q ys)
  case Nil
  then show ?case by (subst strcmp.simps) (cases ys; auto)
next
  case (Cons x xs)
  show ?case
  proof (cases ys)
    case Nil
    then show ?thesis using Cons.prems by (subst strcmp.simps) auto
  next
    case (Cons y ys')
    then have c: "cstr m (p + 1) xs" "cstr m (q + 1) ys'" "m p = x" "m q = y" "x \<noteq> 0" using Cons.prems Cons by auto
    then show ?thesis using Cons.IH [OF c(1,2)] Cons by (subst strcmp.simps) auto
  qed
qed

lemma strchr_first:
  "cstr m s xs \<Longrightarrow> c \<noteq> 0 \<Longrightarrow> strchr m s c = Some (if c \<in> set xs then s + of_nat (length (takeWhile (\<lambda>x. x \<noteq> c) xs)) else 0)"
proof (induction xs arbitrary: s)
  case Nil
  then show ?case by (subst strchr.simps) simp
next
  case (Cons x xs)
  then show ?case using Cons.IH [of "s + 1"] by (subst strchr.simps) (auto simp: ac_simps)
qed

end
