(* ===== verification/Grep.thy ===== *)
theory Grep
  imports Prelude
begin

text \<open>
  \<^verbatim>\<open>user/grep.c\<close>: the regular-expression matcher and the loop that feeds it lines. A
  NUL-terminated string that is only read is the list of its bytes before the NUL, so
  \<open>re[0] == '\0'\<close> is emptiness. The read and write system calls are parameters.
\<close>

abbreviation (input) ch_star :: u8 where "ch_star \<equiv> 42"
abbreviation (input) ch_dot :: u8 where "ch_dot \<equiv> 46"
abbreviation (input) ch_dollar :: u8 where "ch_dollar \<equiv> 36"
abbreviation (input) ch_caret :: u8 where "ch_caret \<equiv> 94"
abbreviation (input) ch_nl :: u8 where "ch_nl \<equiv> 10"

section \<open>The matcher\<close>

function matchhere :: "u8 list \<Rightarrow> u8 list \<Rightarrow> bool" and matchstar :: "u8 \<Rightarrow> u8 list \<Rightarrow> u8 list \<Rightarrow> bool" where
  "matchhere re tx =
     (if re = [] then True
      else if tl re \<noteq> [] \<and> hd (tl re) = ch_star then matchstar (hd re) (tl (tl re)) tx
      else if hd re = ch_dollar \<and> tl re = [] then tx = []
      else if tx \<noteq> [] \<and> (hd re = ch_dot \<or> hd re = hd tx) then matchhere (tl re) (tl tx)
      else False)"
| "matchstar c re tx =
     (if matchhere re tx then True
      else if tx \<noteq> [] \<and> (hd tx = c \<or> c = ch_dot) then matchstar c re (tl tx)
      else False)"
  by pat_completeness auto
termination
  by (relation "inv_image (less_than <*lex*> less_than <*lex*> less_than)
      (case_sum (\<lambda>(re, tx). (length re, length tx, 0 :: nat)) (\<lambda>(c, re, tx). (length re, length tx, 1)))")
    (auto simp: neq_Nil_conv)

declare matchhere.simps [simp del] matchstar.simps [simp del]

fun match_from :: "u8 list \<Rightarrow> u8 list \<Rightarrow> bool" where
  "match_from re tx =
     (if matchhere re tx then True else case tx of [] \<Rightarrow> False | _ # tx \<Rightarrow> match_from re tx)"

declare match_from.simps [simp del]

definition match :: "u8 list \<Rightarrow> u8 list \<Rightarrow> bool" where
  "match re tx = (if re \<noteq> [] \<and> hd re = ch_caret then matchhere (tl re) tx else match_from re tx)"

section \<open>Lines\<close>

text \<open>The inner loop: the bytes in the buffer, which are followed by a NUL, are cut at newlines, and
  the lines that match are written. A NUL in the input hides what follows it. The result is what
  is written and what stays in the buffer.\<close>

function grep_lines :: "u8 list \<Rightarrow> u8 list \<Rightarrow> u8 list list \<times> u8 list" where
  "grep_lines pattern p =
     (let line = takeWhile (\<lambda>c. c \<noteq> ch_nl \<and> c \<noteq> 0) p; q = drop (length line) p in
      if q \<noteq> [] \<and> hd q = ch_nl then
        (case grep_lines pattern (tl q) of (out, rest) \<Rightarrow>
           ((if match pattern line then (line @ [ch_nl]) # out else out), rest))
      else ([], p))"
  by pat_completeness auto
termination
  by (relation "measure (\<lambda>(pattern, p). length p)") (auto simp: neq_Nil_conv dest: arg_cong [of _ _ length])

declare grep_lines.simps [simp del]

text \<open>\<open>rd n\<close> is \<open>read(fd, ..., n)\<close>: the bytes read, none at the end or on an error. The buffer has 1024
  bytes, of which \<open>m\<close> are in use.\<close>

partial_function (option) grep ::
  "(nat \<Rightarrow> 'w \<Rightarrow> u8 list \<times> 'w) \<Rightarrow> u8 list \<Rightarrow> u8 list \<Rightarrow> u8 list list \<Rightarrow> 'w \<Rightarrow> (u8 list list \<times> 'w) option" where
  "grep rd pattern m out w =
     (case rd (1024 - length m - 1) w of (new, w) \<Rightarrow>
        if new = [] then Some (out, w)
        else (case grep_lines pattern (m @ new) of (outs, m) \<Rightarrow> grep rd pattern m (out @ outs) w))"

section \<open>Patterns and what they stand for\<close>

datatype item = One u8 | Many u8 | Eol

fun items :: "u8 list \<Rightarrow> item list" where
  "items [] = []"
| "items [c] = (if c = ch_dollar then [Eol] else [One c])"
| "items (c # d # re) = (if d = ch_star then Many c # items re else One c # items (d # re))"

text \<open>\<open>matches is u v\<close>: the items match \<open>u\<close> where \<open>v\<close> is what follows it in the text.\<close>

inductive matches :: "item list \<Rightarrow> u8 list \<Rightarrow> u8 list \<Rightarrow> bool" where
  nil: "matches [] [] v"
| one: "c = ch_dot \<or> c = x \<Longrightarrow> matches its u v \<Longrightarrow> matches (One c # its) (x # u) v"
| many: "\<forall>x \<in> set w. x = c \<or> c = ch_dot \<Longrightarrow> matches its u v \<Longrightarrow> matches (Many c # its) (w @ u) v"
| eol: "matches [Eol] [] []"

inductive_simps matches_Nil [simp]: "matches [] u v"
inductive_simps matches_One: "matches (One c # its) u v"
inductive_simps matches_Many: "matches (Many c # its) u v"
inductive_simps matches_Eol: "matches (Eol # its) u v"

definition here :: "item list \<Rightarrow> u8 list \<Rightarrow> bool" where
  "here its tx \<longleftrightarrow> (\<exists>u v. tx = u @ v \<and> matches its u v)"

lemma here_Nil [simp]: "here [] tx"
  by (auto simp: here_def)

lemma here_Eol [simp]: "here [Eol] tx \<longleftrightarrow> tx = []"
  by (auto simp: here_def matches_Eol)

lemma here_One [simp]: "here (One c # its) tx \<longleftrightarrow> tx \<noteq> [] \<and> (c = ch_dot \<or> c = hd tx) \<and> here its (tl tx)"
proof
  assume "here (One c # its) tx"
  then obtain x u v where "tx = (x # u) @ v" "c = ch_dot \<or> c = x" "matches its u v" unfolding here_def matches_One by blast
  then show "tx \<noteq> [] \<and> (c = ch_dot \<or> c = hd tx) \<and> here its (tl tx)" unfolding here_def by auto
next
  assume a: "tx \<noteq> [] \<and> (c = ch_dot \<or> c = hd tx) \<and> here its (tl tx)"
  then obtain u v where u: "tl tx = u @ v" "matches its u v" unfolding here_def by blast
  have "tx = (hd tx # u) @ v" using a u(1) by (metis append_Cons list.collapse)
  moreover have "matches (One c # its) (hd tx # u) v" using a u(2) by (blast intro: matches.one)
  ultimately show "here (One c # its) tx" unfolding here_def by blast
qed

lemma here_star: "here (Many c # its) t \<longleftrightarrow> (\<exists>w r. t = w @ r \<and> (\<forall>x \<in> set w. x = c \<or> c = ch_dot) \<and> here its r)"
proof
  assume "here (Many c # its) t"
  then obtain w u v where "t = (w @ u) @ v" "\<forall>x \<in> set w. x = c \<or> c = ch_dot" "matches its u v" unfolding here_def matches_Many by blast
  then show "\<exists>w r. t = w @ r \<and> (\<forall>x \<in> set w. x = c \<or> c = ch_dot) \<and> here its r" unfolding here_def by auto
next
  assume "\<exists>w r. t = w @ r \<and> (\<forall>x \<in> set w. x = c \<or> c = ch_dot) \<and> here its r"
  then obtain w u v where "t = (w @ u) @ v" "\<forall>x \<in> set w. x = c \<or> c = ch_dot" "matches its u v" unfolding here_def by auto
  then show "here (Many c # its) t" unfolding here_def by (blast intro: matches.many)
qed

lemma here_Many:
  "here (Many c # its) tx \<longleftrightarrow> here its tx \<or> tx \<noteq> [] \<and> (hd tx = c \<or> c = ch_dot) \<and> here (Many c # its) (tl tx)"
proof
  assume "here (Many c # its) tx"
  then obtain w r where w: "tx = w @ r" "\<forall>x \<in> set w. x = c \<or> c = ch_dot" "here its r" using here_star by blast
  then show "here its tx \<or> tx \<noteq> [] \<and> (hd tx = c \<or> c = ch_dot) \<and> here (Many c # its) (tl tx)"
    using here_star [of c its "tl tx"] by (cases w) auto
next
  assume a: "here its tx \<or> tx \<noteq> [] \<and> (hd tx = c \<or> c = ch_dot) \<and> here (Many c # its) (tl tx)"
  show "here (Many c # its) tx"
  proof (cases "here its tx")
    case True
    then show ?thesis unfolding here_star by (intro exI [of _ "[]"] exI [of _ tx]) simp
  next
    case False
    then obtain w r where w: "tx \<noteq> []" "hd tx = c \<or> c = ch_dot" "tl tx = w @ r" "\<forall>x \<in> set w. x = c \<or> c = ch_dot" "here its r"
      using a here_star by blast
    then have "tx = (hd tx # w) @ r" by (metis append_Cons list.collapse)
    then show ?thesis unfolding here_star using w(2,4,5) by (intro exI [of _ "hd tx # w"] exI [of _ r]) auto
  qed
qed

lemma matchhere_iff:
  "matchhere re tx \<longleftrightarrow> here (items re) tx" "matchstar c re tx \<longleftrightarrow> here (Many c # items re) tx"
proof (induction re tx and c re tx rule: matchhere_matchstar.induct)
  case (1 re tx)
  show ?case
  proof (cases re rule: items.cases)
    case 1
    then show ?thesis by (simp add: matchhere.simps)
  next
    case (2 c)
    then show ?thesis using 1 by (subst matchhere.simps) (auto simp: matchhere.simps [of "[]"])
  next
    case (3 c d re')
    then show ?thesis using 1 by (subst matchhere.simps) auto
  qed
next
  case (2 c re tx)
  then show ?case by (subst matchstar.simps, subst here_Many) auto
qed

lemma match_from_iff: "match_from re tx \<longleftrightarrow> (\<exists>w r. tx = w @ r \<and> here (items re) r)"
proof (induction tx)
  case Nil
  then show ?case by (subst match_from.simps) (simp add: matchhere_iff)
next
  case (Cons x tx)
  have "(\<exists>w r. x # tx = w @ r \<and> here (items re) r) \<longleftrightarrow> here (items re) (x # tx) \<or> (\<exists>w r. tx = w @ r \<and> here (items re) r)"
    by (auto simp: Cons_eq_append_conv)
  then show ?case using Cons by (subst match_from.simps) (simp add: matchhere_iff)
qed

text \<open>C40: The matcher finds exactly what the pattern stands for: a text matches if and only if it has a
  part, at its beginning when the pattern starts with a caret, that the pattern's items match
  one after the other, where a dollar sign at the end of the pattern asks that nothing follows.\<close>

theorem match_correct:
  "match re tx \<longleftrightarrow> (\<exists>w u v. tx = w @ u @ v \<and>
     (if re \<noteq> [] \<and> hd re = ch_caret then w = [] \<and> matches (items (tl re)) u v else matches (items re) u v))"
  by (auto simp: match_def matchhere_iff match_from_iff here_def)

section \<open>Lines and reads\<close>

text \<open>The complete lines of an input, and what follows the last newline; \<open>cur\<close> is the line so far.\<close>

fun nl_lines :: "u8 list \<Rightarrow> u8 list \<Rightarrow> u8 list list" where
  "nl_lines cur [] = []"
| "nl_lines cur (c # cs) = (if c = ch_nl then cur # nl_lines [] cs else nl_lines (cur @ [c]) cs)"

fun open_line :: "u8 list \<Rightarrow> u8 list \<Rightarrow> u8 list" where
  "open_line cur [] = cur"
| "open_line cur (c # cs) = (if c = ch_nl then open_line [] cs else open_line (cur @ [c]) cs)"

text \<open>\<open>delivers rd w inp\<close>: successive reads give the input in pieces, of whatever sizes, and then report
  its end.\<close>

inductive delivers :: "(nat \<Rightarrow> 'w \<Rightarrow> u8 list \<times> 'w) \<Rightarrow> 'w \<Rightarrow> u8 list \<Rightarrow> bool" for rd where
  eof: "(\<And>k. 0 < k \<Longrightarrow> fst (rd k w) = []) \<Longrightarrow> delivers rd w []"
| more: "(\<And>k. 0 < k \<Longrightarrow> \<exists>n w'. 0 < n \<and> n \<le> k \<and> n \<le> length inp \<and> rd k w = (take n inp, w') \<and> delivers rd w' (drop n inp)) \<Longrightarrow> inp \<noteq> [] \<Longrightarrow>
    delivers rd w inp"

lemma nl_lines_append:
  "nl_lines cur (p @ q) = nl_lines cur p @ nl_lines (open_line cur p) q" "open_line cur (p @ q) = open_line (open_line cur p) q"
  by (induction p arbitrary: cur) simp_all

lemma open_line_no_nl: "ch_nl \<notin> set cur \<Longrightarrow> ch_nl \<notin> set (open_line cur p)"
  by (induction p arbitrary: cur) simp_all

lemma nl_lines_prefix: "ch_nl \<notin> set p \<Longrightarrow> nl_lines cur (p @ q) = nl_lines (cur @ p) q \<and> open_line cur (p @ q) = open_line (cur @ p) q"
  by (induction p arbitrary: cur) simp_all

lemma grep_lines_eq:
  "0 \<notin> set p \<Longrightarrow> grep_lines pattern p = (map (\<lambda>l. l @ [ch_nl]) (filter (match pattern) (nl_lines [] p)), open_line [] p)"
proof (induction pattern p rule: grep_lines.induct)
  case (1 pattern p)
  define line where "line = takeWhile (\<lambda>c. c \<noteq> ch_nl \<and> c \<noteq> 0) p"
  define q where "q = drop (length line) p"
  have dq: "q = dropWhile (\<lambda>c. c \<noteq> ch_nl \<and> c \<noteq> 0) p" unfolding q_def line_def by (rule dropWhile_eq_drop [symmetric])
  have p: "p = line @ q" unfolding dq line_def by simp
  have "ch_nl \<notin> set line" unfolding line_def by (auto dest: set_takeWhileD)
  note pre = nl_lines_prefix [OF this, of "[]"]
  have e: "grep_lines pattern p = (if q \<noteq> [] \<and> hd q = ch_nl then (case grep_lines pattern (tl q) of (out, rest) \<Rightarrow>
      ((if match pattern line then (line @ [ch_nl]) # out else out), rest)) else ([], p))"
    by (simp only: grep_lines.simps [of pattern p] Let_def line_def q_def)
  show ?case
  proof (cases q)
    case Nil
    then have "nl_lines [] p = [] \<and> open_line [] p = p" using p pre [of "[]"] by simp
    then show ?thesis unfolding e Nil by simp
  next
    case (Cons x r)
    have "x \<in> set p" using p Cons by simp
    then have "x \<noteq> 0" using "1.prems" by blast
    moreover have d: "dropWhile (\<lambda>c. c \<noteq> ch_nl \<and> c \<noteq> 0) p = x # r" using dq Cons by simp
    have "\<not> (x \<noteq> ch_nl \<and> x \<noteq> 0)" using hd_dropWhile [of "\<lambda>c. c \<noteq> ch_nl \<and> c \<noteq> 0" p] unfolding d by simp
    ultimately have x: "x = ch_nl" by blast
    have "nl_lines [] p = line # nl_lines [] r \<and> open_line [] p = open_line [] r" using p Cons x pre [of "ch_nl # r"] by simp
    moreover have "0 \<notin> set r" using "1.prems" p Cons by simp
    then have "grep_lines pattern r = (map (\<lambda>l. l @ [ch_nl]) (filter (match pattern) (nl_lines [] r)), open_line [] r)"
      using "1.IH" [OF refl refl] x Cons unfolding line_def [symmetric] q_def [symmetric] by simp
    ultimately show ?thesis unfolding e Cons x by simp
  qed
qed

lemma open_line_short: "\<forall>l \<in> set (nl_lines cur inp). length l < n \<Longrightarrow> length (open_line cur inp) < n \<Longrightarrow> length cur < n"
proof (induction inp arbitrary: cur)
  case (Cons c inp)
  show ?case
  proof (cases "c = ch_nl")
    case False
    have "length (cur @ [c]) < n" by (rule Cons.IH) (use Cons.prems False in simp_all)
    then show ?thesis by simp
  qed (use Cons.prems in simp)
qed simp

lemma open_line_set: "set (open_line cur p) \<subseteq> set cur \<union> set p"
proof (induction p arbitrary: cur)
  case (Cons c p)
  then show ?case using Cons.IH [of "[]"] Cons.IH [of "cur @ [c]"] by auto
qed simp

text \<open>What the lines of \<open>inp\<close> after \<open>m\<close> make the program write, provided no line is too long for the buffer.\<close>

abbreviation matching_lines :: "u8 list \<Rightarrow> u8 list \<Rightarrow> u8 list \<Rightarrow> u8 list list" where
  "matching_lines pattern m inp \<equiv> map (\<lambda>l. l @ [ch_nl]) (filter (match pattern) (nl_lines m inp))"

definition fits :: "u8 list \<Rightarrow> u8 list \<Rightarrow> bool" where
  "fits m inp \<longleftrightarrow> 0 \<notin> set m \<and> 0 \<notin> set inp \<and> ch_nl \<notin> set m \<and> (\<forall>l \<in> set (nl_lines m inp). length l < 1023) \<and> length (open_line m inp) < 1023"

lemma fits_step:
  assumes "fits m (p @ q)"
  shows "fits (open_line m p) q" "grep_lines pattern (m @ p) = (matching_lines pattern m p, open_line m p)"
    "matching_lines pattern m (p @ q) = matching_lines pattern m p @ matching_lines pattern (open_line m p) q"
proof -
  have "0 \<notin> set (open_line m p)" "ch_nl \<notin> set (open_line m p)"
    using assms open_line_set [of m p] open_line_no_nl unfolding fits_def by auto
  then show "fits (open_line m p) q" using assms unfolding fits_def nl_lines_append by auto
  have "0 \<notin> set (m @ p)" "ch_nl \<notin> set m" using assms by (auto simp: fits_def)
  then show "grep_lines pattern (m @ p) = (matching_lines pattern m p, open_line m p)"
    using nl_lines_prefix [of m "[]" p] by (simp add: grep_lines_eq)
  show "matching_lines pattern m (p @ q) = matching_lines pattern m p @ matching_lines pattern (open_line m p) q"
    by (simp add: nl_lines_append)
qed

lemma grep_stream:
  assumes "delivers rd w inp" "fits m inp"
  shows "\<exists>w'. grep rd pattern m out w = Some (out @ matching_lines pattern m inp, w')"
  using assms
proof (induction arbitrary: m out rule: delivers.induct)
  case (eof w)
  have "0 < 1024 - length m - 1" using eof.prems by (simp add: fits_def)
  then have "fst (rd (1024 - length m - 1) w) = []" by (rule eof.hyps)
  then show ?case by (subst grep.simps) (auto split: prod.split)
next
  case (more inp w)
  have "length m < 1023" using open_line_short more.prems unfolding fits_def by blast
  then have "0 < 1024 - length m - 1" by simp
  from more.IH [OF this] obtain n w' where n: "0 < n" "n \<le> length inp" "rd (1024 - length m - 1) w = (take n inp, w')"
      and IH: "\<forall>m. fits m (drop n inp) \<longrightarrow> (\<forall>out. \<exists>w''. grep rd pattern m out w' = Some (out @ matching_lines pattern m (drop n inp), w''))"
    by blast
  have "fits m (take n inp @ drop n inp)" using more.prems by simp
  note step = fits_step [OF this]
  obtain w'' where "grep rd pattern (open_line m (take n inp)) (out @ matching_lines pattern m (take n inp)) w' =
      Some ((out @ matching_lines pattern m (take n inp)) @ matching_lines pattern (open_line m (take n inp)) (drop n inp), w'')"
    using IH step(1) by blast
  moreover have "take n inp \<noteq> []" using n(1,2) by auto
  ultimately show ?case using n(3) step(2,3) by (subst grep.simps) simp
qed

text \<open>C39: \<open>grep\<close> prints exactly the lines of its input that match, in order, however the input arrives: for an
  input without NUL bytes and with lines of fewer than 1023 bytes, delivered by reads of any sizes, the
  loop ends and has written the matching complete lines, each with its newline. What follows the
  last newline is not looked at.\<close>

theorem grep_prints_matching_lines:
  assumes "delivers rd w inp" "0 \<notin> set inp" "\<forall>l \<in> set (nl_lines [] inp). length l < 1023" "length (open_line [] inp) < 1023"
  shows "\<exists>w'. grep rd pattern [] [] w = Some (map (\<lambda>l. l @ [ch_nl]) (filter (match pattern) (nl_lines [] inp)), w')"
  using grep_stream [OF assms(1), of "[]" pattern "[]"] assms(2-4) by (simp add: fits_def)

text \<open>Reads that give at most three bytes at a time.\<close>

definition demo_read :: "nat \<Rightarrow> u8 list \<Rightarrow> u8 list \<times> u8 list" where
  "demo_read k w = (take (min k 3) w, drop (min k 3) w)"

lemma demo_read_delivers: "delivers demo_read w w"
proof (induction w rule: length_induct)
  case (1 w)
  show ?case
  proof (cases "w = []")
    case True
    then show ?thesis by (simp add: demo_read_def delivers.eof)
  next
    case False
    show ?thesis
    proof (rule delivers.more [OF _ False])
      fix k :: nat assume "0 < k"
      let ?n = "min (min k 3) (length w)"
      have n: "0 < ?n" "?n \<le> k" "?n \<le> length w" using \<open>0 < k\<close> False by auto
      have "delivers demo_read (drop ?n w) (drop ?n w)" using 1 n(1) False by simp
      moreover have "demo_read k w = (take ?n w, drop ?n w)" by (auto simp: demo_read_def min_def)
      ultimately show "\<exists>n w'. 0 < n \<and> n \<le> k \<and> n \<le> length w \<and> demo_read k w = (take n w, w') \<and> delivers demo_read w' (drop n w)"
        using n by blast
    qed
  qed
qed

theorem grep_prints_matching_lines_witness:
  "\<exists>w'. grep demo_read [94, 97, 42, 98] [] [] [97, 98, 10, 120, 98, 10, 98, 10, 97] = Some ([[97, 98, 10], [98, 10]], w')"
proof -
  have "filter (match [94, 97, 42, 98]) [[97, 98], [120, 98], [98]] = [[97, 98], [98]]"
    by (simp add: match_def matchhere.simps matchstar.simps)
  then show ?thesis
    using grep_prints_matching_lines [OF demo_read_delivers, of "[97, 98, 10, 120, 98, 10, 98, 10, 97]" "[94, 97, 42, 98]"] by simp
qed

end
